(* ===== verification/Tus_Prelude.thy ===== *)
theory Tus_Prelude
  imports Main "HOL-Library.Word"
begin

text \<open>
  Shared vocabulary of the development: the machine integers of the kernel, its error codes
  (\<open>kernel/core/errno.h\<close>), the fact collections the component theories fill, and the
  generic lemmas on lists and words they share.
\<close>

unbundle bit_operations_syntax

text \<open>Loops over large constant ranges stay folded in proofs.\<close>

declare upt_rec_numeral [simp del]

section \<open>Machine types\<close>

type_synonym u8 = "8 word"
type_synonym u16 = "16 word"
type_synonym u32 = "32 word"
type_synonym u64 = "64 word"

text \<open>A \<open>long\<close> result of the kernel: a non-negative value or a negated error code.\<close>

type_synonym klong = int

text \<open>The null pointer and the page geometry every memory component uses.\<close>

abbreviation NULL :: u64 where "NULL \<equiv> 0"

abbreviation PAGE_SIZE :: nat where "PAGE_SIZE \<equiv> 4096"

text \<open>The outcome of a call that may block. A call that reaches \<open>hlt ()\<close> waits for another task or an
  interrupt: it is the outcome \<open>Hlt\<close> with the progress made so far, and the loop re-tests its condition in
  the state it then finds. \<open>Loop\<close> is a call that never returns. What runs between two waits is atomic.\<close>

datatype ('r, 's) io = Ret 'r 's | Hlt nat 's | Loop

section \<open>Error codes (errno.h)\<close>

definition EPERM :: int where "EPERM = 1"
definition ENOENT :: int where "ENOENT = 2"
definition EIO :: int where "EIO = 5"
definition ENOEXEC :: int where "ENOEXEC = 8"
definition EBADF :: int where "EBADF = 9"
definition ENOMEM :: int where "ENOMEM = 12"
definition EACCES :: int where "EACCES = 13"
definition EFAULT :: int where "EFAULT = 14"
definition EEXIST :: int where "EEXIST = 17"
definition ENOTDIR :: int where "ENOTDIR = 20"
definition EISDIR :: int where "EISDIR = 21"
definition EINVAL :: int where "EINVAL = 22"
definition ENOTTY :: int where "ENOTTY = 25"
definition EPIPE :: int where "EPIPE = 32"
definition ENOSYS :: int where "ENOSYS = 38"

lemmas errno_defs = EPERM_def ENOENT_def EIO_def ENOEXEC_def EBADF_def ENOMEM_def EACCES_def
  EFAULT_def EEXIST_def ENOTDIR_def EISDIR_def EINVAL_def ENOTTY_def EPIPE_def ENOSYS_def

section \<open>Fact collections\<close>

named_theorems frame_simps \<open>which state components an operation leaves alone\<close>
named_theorems step_defs \<open>the defining equations of a component's operations\<close>

section \<open>Lists\<close>

text \<open>What a first-match search over an index range returns.\<close>

lemma find_upt_Some:
  "find P [a..<b] = Some i \<longleftrightarrow> a \<le> i \<and> i < b \<and> P i \<and> (\<forall>j. a \<le> j \<and> j < i \<longrightarrow> \<not> P j)"
  (is "?L \<longleftrightarrow> ?R")
proof
  assume ?L
  then obtain k where k: "k < b - a" "P (a + k)" "i = a + k" "\<forall>j<k. \<not> P (a + j)"
    by (auto simp: find_Some_iff)
  have "\<not> P j" if "a \<le> j" "j < i" for j
    using k(4) [rule_format, of "j - a"] that k(3) by simp
  with k show ?R by auto
next
  assume R: ?R
  then have "i - a < length [a..<b]" "[a..<b] ! (i - a) = i" by auto
  moreover have "\<not> P ([a..<b] ! j)" if "j < i - a" for j
  proof -
    from R that have "a + j < b" by linarith
    then have "[a..<b] ! j = a + j" by simp
    with R that show ?thesis by simp
  qed
  ultimately show ?L unfolding find_Some_iff using R by metis
qed

lemma find_upt_None: "find P [a..<b] = None \<longleftrightarrow> (\<forall>j. a \<le> j \<and> j < b \<longrightarrow> \<not> P j)"
  by (auto simp: find_None_iff)

section \<open>Words\<close>

text \<open>Frame numbers below \<open>2\<^sup>5\<^sup>2\<close> and the physical addresses they stand for.\<close>

lemma unat_push_bit_12:
  assumes "f < 2 ^ 52"
  shows "unat (push_bit 12 (of_nat f :: u64)) = f * 4096"
  using assms by (simp add: push_bit_eq_mult unat_word_ariths unat_of_nat take_bit_nat_eq_self)

lemma drop_push_bit_12:
  assumes "f < 2 ^ 52"
  shows "unat (drop_bit 12 (push_bit 12 (of_nat f :: u64))) = f"
  by (simp only: unat_drop_bit_eq unat_push_bit_12 [OF assms]) (simp add: drop_bit_eq_div)

lemma push_bit_12_eq_0_iff:
  assumes "f < 2 ^ 52"
  shows "push_bit 12 (of_nat f :: u64) = 0 \<longleftrightarrow> f = 0"
proof
  assume "push_bit 12 (of_nat f :: u64) = 0"
  then have "f * 4096 = 0" using unat_push_bit_12 [OF assms] by (simp only: unat_0)
  then show "f = 0" by simp
qed simp

lemma push_bit_12_inj:
  assumes "f < 2 ^ 52" and "g < 2 ^ 52"
  shows "push_bit 12 (of_nat f :: u64) = push_bit 12 (of_nat g) \<longleftrightarrow> f = g"
proof
  assume "push_bit 12 (of_nat f :: u64) = push_bit 12 (of_nat g)"
  then have "f * 4096 = g * 4096"
    using unat_push_bit_12 [OF assms(1)] unat_push_bit_12 [OF assms(2)] by (simp only:)
  then show "f = g" by simp
qed simp

lemma unat_of_nat_small: "n < 2 ^ LENGTH('a) \<Longrightarrow> unat (of_nat n :: 'a :: len word) = n"
  by (simp add: unat_of_nat take_bit_nat_eq_self)

section \<open>Bytes and characters\<close>

definition byte_char :: "u8 \<Rightarrow> char" where
  "byte_char b = char_of (unat b)"

definition char_byte :: "char \<Rightarrow> u8" where
  "char_byte c = of_nat (of_char c)"

lemma unat_char_byte: "unat (char_byte c) = of_char c"
  unfolding char_byte_def by (rule unat_of_nat_small) (simp add: of_char_def)

lemma char_byte_inj: "char_byte c = char_byte d \<longleftrightarrow> c = d"
  by (metis unat_char_byte of_char_eq_iff)

lemma byte_char_byte: "byte_char (char_byte c) = c"
  unfolding byte_char_def unat_char_byte by simp

lemma char_byte_0: "char_byte c = 0 \<longleftrightarrow> c = CHR 0x00"
  using char_byte_inj [of c "CHR 0x00"] by (simp add: char_byte_def)

end
