(* ===== verification/Klib.thy ===== *)
theory Klib
  imports Tus_Prelude "HOL-Library.Char_ord"
begin

text \<open>
  The support library \<open>kernel/core/klib.c\<close>: memory routines on a byte memory, string routines on C strings
  (lists of non-zero characters), number parsing and the formatted output of \<open>kvprintf\<close>. The string
  instructions \<open>rep movsb\<close> and \<open>rep stosb\<close> are byte loops in the direction of the direction flag.
\<close>

section \<open>Memory\<close>

type_synonym mem = "u64 \<Rightarrow> u8"

text \<open>\<open>rep movsb\<close>: \<open>n\<close> bytes from \<open>s\<close> to \<open>d\<close>, one after the other, upwards or (\<open>std\<close>) downwards.\<close>

primrec rep_movsb :: "bool \<Rightarrow> nat \<Rightarrow> u64 \<Rightarrow> u64 \<Rightarrow> mem \<Rightarrow> mem" where
  "rep_movsb down 0 d s m = m"
| "rep_movsb down (Suc n) d s m =
     rep_movsb down n (if down then d - 1 else d + 1) (if down then s - 1 else s + 1) (m(d := m s))"

primrec rep_stosb :: "nat \<Rightarrow> u64 \<Rightarrow> u8 \<Rightarrow> mem \<Rightarrow> mem" where
  "rep_stosb 0 d v m = m"
| "rep_stosb (Suc n) d v m = rep_stosb n (d + 1) v (m(d := v))"

definition memcpy :: "u64 \<Rightarrow> u64 \<Rightarrow> nat \<Rightarrow> mem \<Rightarrow> mem" where
  "memcpy dest src n m = rep_movsb False n dest src m"

definition memmove :: "u64 \<Rightarrow> u64 \<Rightarrow> nat \<Rightarrow> mem \<Rightarrow> mem" where
  "memmove dest src n m =
     (if dest = src \<or> n = 0 then m
      else if dest < src then rep_movsb False n dest src m
      else rep_movsb True n (dest + of_nat n) (src + of_nat n) m)"

definition memset :: "u64 \<Rightarrow> u8 \<Rightarrow> nat \<Rightarrow> mem \<Rightarrow> mem" where
  "memset dest val n m = rep_stosb n dest val m"

section \<open>Strings\<close>

text \<open>The \<open>unsigned char\<close> at the start of a C string, 0 at its end.\<close>

definition uchar :: "string \<Rightarrow> int" where
  "uchar s = (case s of [] \<Rightarrow> 0 | c # _ \<Rightarrow> int (of_char c))"

primrec strlen :: "string \<Rightarrow> nat" where
  "strlen [] = 0"
| "strlen (c # cs) = Suc (strlen cs)"

fun strcmp :: "string \<Rightarrow> string \<Rightarrow> int" where
  "strcmp (a # as) (b # bs) = (if a = b then strcmp as bs else uchar (a # as) - uchar (b # bs))"
| "strcmp as bs = uchar as - uchar bs"

fun strncmp :: "string \<Rightarrow> string \<Rightarrow> nat \<Rightarrow> int" where
  "strncmp as bs 0 = 0"
| "strncmp (a # as) (b # bs) (Suc n) = (if a = b then strncmp as bs n else uchar (a # as) - uchar (b # bs))"
| "strncmp as bs (Suc n) = uchar as - uchar bs"

text \<open>\<open>strcpy\<close> and \<open>strncpy\<close> on the destination array; \<open>CHR 0x00\<close> is the terminator.\<close>

definition strcpy :: "char list \<Rightarrow> string \<Rightarrow> char list" where
  "strcpy dest src = src @ [CHR 0x00] @ drop (Suc (length src)) dest"

fun strncpy :: "char list \<Rightarrow> string \<Rightarrow> nat \<Rightarrow> char list" where
  "strncpy dest src 0 = dest"
| "strncpy (d # dest) (c # src) (Suc n) = c # strncpy dest src n"
| "strncpy (d # dest) [] (Suc n) = CHR 0x00 # strncpy dest [] n"
| "strncpy [] src (Suc n) = []"

text \<open>The suffix that starts at the found character, \<open>None\<close> for a NULL result.\<close>

fun strchr :: "string \<Rightarrow> char \<Rightarrow> string option" where
  "strchr [] c = (if c = CHR 0x00 then Some [] else None)"
| "strchr (a # s) c = (if a = c then Some (a # s) else strchr s c)"

subsection \<open>Numbers\<close>

definition digit_of :: "char \<Rightarrow> nat option" where
  "digit_of c =
     (if CHR ''0'' \<le> c \<and> c \<le> CHR ''9'' then Some (of_char c - of_char (CHR ''0''))
      else if CHR ''a'' \<le> c \<and> c \<le> CHR ''f'' then Some (of_char c - of_char (CHR ''a'') + 10)
      else if CHR ''A'' \<le> c \<and> c \<le> CHR ''F'' then Some (of_char c - of_char (CHR ''A'') + 10)
      else None)"

fun strtoul_loop :: "u64 \<Rightarrow> string \<Rightarrow> nat \<Rightarrow> u64 \<times> string" where
  "strtoul_loop val [] base = (val, [])"
| "strtoul_loop val (c # p) base =
     (case digit_of c of
        None \<Rightarrow> (val, c # p)
      | Some digit \<Rightarrow> if digit \<ge> base then (val, c # p) else strtoul_loop (val * of_nat base + of_nat digit) p base)"

definition hex_prefix :: "string \<Rightarrow> bool" where
  "hex_prefix p \<longleftrightarrow> (case p of a # b # _ \<Rightarrow> a = CHR ''0'' \<and> (b = CHR ''x'' \<or> b = CHR ''X'') | _ \<Rightarrow> False)"

text \<open>The value and the rest of the string (\<open>*end\<close>).\<close>

definition strtoul :: "string \<Rightarrow> nat \<Rightarrow> u64 \<times> string" where
  "strtoul s base =
     (let p = dropWhile (\<lambda>c. c = CHR '' '' \<or> c = CHR 0x09) s
      in if base = 0
         then if hex_prefix p then strtoul_loop 0 (drop 2 p) 16
              else if p \<noteq> [] \<and> hd p = CHR ''0'' then strtoul_loop 0 p 8
              else strtoul_loop 0 p 10
         else if base = 16 \<and> hex_prefix p then strtoul_loop 0 (drop 2 p) 16
         else strtoul_loop 0 p base)"

section \<open>Formatted output\<close>

definition digit_char :: "bool \<Rightarrow> nat \<Rightarrow> char" where
  "digit_char upper digit =
     (if digit < 10 then char_of (48 + digit) else char_of ((if upper then 65 else 97) + digit - 10))"

text \<open>The array \<open>digits\<close>, lowest digit first; the base is 10 or 16 at every call.\<close>

function kput_digits :: "u64 \<Rightarrow> u64 \<Rightarrow> bool \<Rightarrow> string" where
  "kput_digits val base upper =
     (if val = 0 \<or> base < 2 then []
      else digit_char upper (unat (val mod base)) # kput_digits (val div base) base upper)"
  by pat_completeness auto
termination
proof (relation "measure (\<lambda>(val, base, upper). unat val)", simp)
  fix val base :: u64 and upper :: bool
  assume "\<not> (val = 0 \<or> base < 2)"
  then have "0 < unat val" "1 < unat base" by (auto simp: unat_gt_0 word_less_nat_alt)
  then show "((val div base, base, upper), val, base, upper) \<in> measure (\<lambda>(val, base, upper). unat val)"
    by (simp add: unat_div)
qed

declare kput_digits.simps [simp del]

definition kput_unsigned :: "u64 \<Rightarrow> u64 \<Rightarrow> bool \<Rightarrow> string" where
  "kput_unsigned val base upper = (if val = 0 then ''0'' else rev (kput_digits val base upper))"

text \<open>The variadic arguments: a string pointer (\<open>None\<close> is NULL) or a 64-bit register.\<close>

datatype karg = Arg_str "string option" | Arg_word u64

definition to_int32 :: "u64 \<Rightarrow> u64" where
  "to_int32 w = scast (ucast w :: u32)"

definition to_uint32 :: "u64 \<Rightarrow> u64" where
  "to_uint32 w = ucast (ucast w :: u32)"

definition kput_signed :: "u64 \<Rightarrow> string" where
  "kput_signed v = (if sint v < 0 then CHR ''-'' # kput_unsigned (- v) 10 False else kput_unsigned v 10 False)"

definition kput_string :: "bool \<Rightarrow> int \<Rightarrow> string option \<Rightarrow> string" where
  "kput_string left_align width arg =
     (let s = (case arg of None \<Rightarrow> ''(null)'' | Some s \<Rightarrow> s);
          pad = replicate (nat (width - int (strlen s))) (CHR '' '')
      in if left_align then s @ pad else pad @ s)"

text \<open>One conversion: the output and the remaining arguments, \<open>None\<close> if there is no argument of that kind.\<close>

definition kput_conv :: "char \<Rightarrow> bool \<Rightarrow> int \<Rightarrow> bool \<Rightarrow> karg list \<Rightarrow> (string \<times> karg list) option" where
  "kput_conv c left_align width is_long args =
     (if c = CHR ''s'' then
        (case args of Arg_str s # args \<Rightarrow> Some (kput_string left_align width s, args) | _ \<Rightarrow> None)
      else if c = CHR ''c'' then
        (case args of Arg_word w # args \<Rightarrow> Some ([char_of (unat w mod 256)], args) | _ \<Rightarrow> None)
      else if c = CHR ''d'' then
        (case args of Arg_word w # args \<Rightarrow> Some (kput_signed (if is_long then w else to_int32 w), args) | _ \<Rightarrow> None)
      else if c = CHR ''u'' then
        (case args of Arg_word w # args \<Rightarrow> Some (kput_unsigned (if is_long then w else to_uint32 w) 10 False, args) | _ \<Rightarrow> None)
      else if c = CHR ''x'' then
        (case args of Arg_word w # args \<Rightarrow> Some (kput_unsigned (if is_long then w else to_uint32 w) 16 False, args) | _ \<Rightarrow> None)
      else if c = CHR ''X'' then
        (case args of Arg_word w # args \<Rightarrow> Some (kput_unsigned (if is_long then w else to_uint32 w) 16 True, args) | _ \<Rightarrow> None)
      else if c = CHR ''p'' then
        (case args of Arg_word w # args \<Rightarrow> Some (''0x'' @ kput_unsigned w 16 False, args) | _ \<Rightarrow> None)
      else if c = CHR ''%'' then Some (''%'', args)
      else Some ([CHR ''%'', c], args))"

definition is_digit_char :: "char \<Rightarrow> bool" where
  "is_digit_char c \<longleftrightarrow> CHR ''0'' \<le> c \<and> c \<le> CHR ''9''"

fun read_width :: "int \<Rightarrow> string \<Rightarrow> int \<times> string" where
  "read_width width (c # fmt) =
     (if is_digit_char c then read_width (width * 10 + (int (of_char c) - 48)) fmt else (width, c # fmt))"
| "read_width width [] = (width, [])"

text \<open>What follows a percent sign: alignment, width, length modifier, and the rest of the format.\<close>

definition read_spec :: "string \<Rightarrow> bool \<times> int \<times> bool \<times> string" where
  "read_spec fmt =
     (let left_align = (fmt \<noteq> [] \<and> hd fmt = CHR ''-'');
          (width, fmt) = read_width 0 (if left_align then tl fmt else fmt);
          is_long = (fmt \<noteq> [] \<and> hd fmt = CHR ''l'')
      in (left_align, width, is_long, dropWhile (\<lambda>c. c = CHR ''l'') fmt))"

lemma length_read_width: "length (snd (read_width w fmt)) \<le> length fmt"
  by (induction w fmt rule: read_width.induct) auto

lemma length_read_spec: "read_spec fmt = (la, w, il, rest) \<Longrightarrow> length rest \<le> length fmt"
proof -
  assume a: "read_spec fmt = (la, w, il, rest)"
  define f0 where "f0 = (if fmt \<noteq> [] \<and> hd fmt = CHR ''-'' then tl fmt else fmt)"
  obtain w' f where f: "read_width 0 f0 = (w', f)" by (cases "read_width 0 f0")
  have "rest = dropWhile (\<lambda>c. c = CHR ''l'') f" using a f by (simp add: read_spec_def Let_def f0_def)
  then have "length rest \<le> length f" by (simp add: length_dropWhile_le)
  also have "\<dots> \<le> length f0" using length_read_width [of 0 f0] f by simp
  also have "\<dots> \<le> length fmt" by (simp add: f0_def)
  finally show ?thesis .
qed

text \<open>\<open>None\<close>: the walk leaves the format string or the argument list.\<close>

function kvprintf :: "string \<Rightarrow> karg list \<Rightarrow> string option" where
  "kvprintf [] args = Some []"
| "kvprintf (c # fmt) args =
     (if c \<noteq> CHR ''%'' then map_option ((#) c) (kvprintf fmt args)
      else case read_spec fmt of
        (left_align, width, is_long, []) \<Rightarrow> None
      | (left_align, width, is_long, d # rest) \<Rightarrow>
          (case kput_conv d left_align width is_long args of
             None \<Rightarrow> None
           | Some (out, args) \<Rightarrow> map_option ((@) out) (kvprintf rest args)))"
  by pat_completeness auto
termination
  by (relation "measure (\<lambda>(fmt, args). length fmt)") (auto dest!: length_read_spec [OF sym])

declare kvprintf.simps [simp del]

section \<open>Copies\<close>

lemma unat_minus_1: "unat (- 1 :: u64) = 18446744073709551615"
  by (simp add: unsigned_minus_1_eq_mask mask_eq_exp_minus_1)

lemma rep_movsb_up:
  assumes "\<forall>i<n. \<forall>j<i. s + of_nat i \<noteq> d + of_nat j" "n < 2 ^ 64"
  shows "rep_movsb False n d s m x = (if unat (x - d) < n then m (s + (x - d)) else m x)"
  using assms
proof (induction n arbitrary: d s m)
  case (Suc n)
  have ap: "\<forall>i<n. \<forall>j<i. (s + 1) + of_nat i \<noteq> (d + 1) + of_nat j"
  proof (intro allI impI)
    fix i j assume "i < n" "j < i"
    then have "s + of_nat (Suc i) \<noteq> d + of_nat (Suc j)" using Suc(2) by auto
    then show "(s + 1) + of_nat i \<noteq> (d + 1) + of_nat j" by (simp add: add.assoc add.commute add.left_commute)
  qed
  have IH: "rep_movsb False (Suc n) d s m x = (if unat (x - (d + 1)) < n then (m(d := m s)) (s + 1 + (x - (d + 1))) else (m(d := m s)) x)"
    using Suc(1) [OF ap] Suc(3) by simp
  show ?case
  proof (cases "x = d")
    case True
    have "x - (d + 1) = - 1" using True by simp
    then have "\<not> unat (x - (d + 1)) < n" using Suc(3) by (simp add: unat_minus_1)
    then show ?thesis using IH True by simp
  next
    case False
    then have ne: "x - d \<noteq> 0" by simp
    then have u: "unat (x - (d + 1)) = unat (x - d) - 1"
      using unat_minus_one [OF ne] by (simp add: diff_diff_add)
    have pos: "0 < unat (x - d)" using ne by (simp add: unat_gt_0)
    have src: "s + 1 + (x - (d + 1)) = s + (x - d)" by simp
    have "s + (x - d) \<noteq> d" if lt: "unat (x - d) < Suc n"
    proof -
      have "s + of_nat (unat (x - d)) \<noteq> d + of_nat 0" using Suc(2) lt pos by blast
      then show ?thesis by simp
    qed
    then show ?thesis using IH u pos src False by auto
  qed
qed simp

lemma rep_movsb_down_out:
  "n \<le> unat (d - x) \<Longrightarrow> rep_movsb True n d s m x = m x"
proof (induction n arbitrary: d s m)
  case (Suc n)
  then have ne: "d - x \<noteq> 0" by auto
  have "unat (d - 1 - x) = unat (d - x) - 1" using unat_minus_one [OF ne] by (simp add: diff_diff_add add.commute)
  then have "n \<le> unat (d - 1 - x)" using Suc(2) by simp
  moreover have "x \<noteq> d" using ne by auto
  ultimately show ?case using Suc(1) by simp
qed simp

lemma memset_cells:
  "n < 2 ^ 64 \<Longrightarrow> memset dest v n m x = (if unat (x - dest) < n then v else m x)"
proof -
  have "rep_stosb n d v m x = (if unat (x - d) < n then v else m x)" if "n < 2 ^ 64" for d
    using that
  proof (induction n arbitrary: d m)
    case (Suc n)
    show ?case
    proof (cases "x = d")
      case True
      then have "\<not> unat (x - (d + 1)) < n" using Suc(2) by (simp add: unat_minus_1)
      then show ?thesis using Suc True by simp
    next
      case False
      then have ne: "x - d \<noteq> 0" by simp
      have "unat (x - (d + 1)) = unat (x - d) - 1" "0 < unat (x - d)"
        using unat_minus_one [OF ne] ne by (simp_all add: diff_diff_add unat_gt_0)
      then show ?thesis using Suc False by auto
    qed
  qed simp
  then show "n < 2 ^ 64 \<Longrightarrow> ?thesis" by (simp add: memset_def)
qed

section \<open>Digits\<close>

lemma digit_of_char: "d < 16 \<Longrightarrow> digit_of (digit_char upper d) = Some d"
proof -
  have "\<forall>d\<in>{..<16}. digit_of (digit_char upper d) = Some d"
    by (cases upper) (simp_all add: lessThan_nat_numeral lessThan_Suc digit_of_def digit_char_def less_eq_char_def of_char_of)
  then show "d < 16 \<Longrightarrow> ?thesis" by simp
qed

definition horner :: "u64 \<Rightarrow> u64 \<Rightarrow> string \<Rightarrow> u64" where
  "horner base = foldl (\<lambda>v c. v * base + of_nat (the (digit_of c)))"

lemma strtoul_loop_digits:
  assumes "\<forall>c\<in>set ds. \<exists>d. digit_of c = Some d \<and> d < base"
  shows "strtoul_loop v ds base = (horner (of_nat base) v ds, [])"
  using assms by (induction ds arbitrary: v) (auto simp: horner_def)

lemma kput_digits_chars:
  assumes b: "1 < unat base" "unat base \<le> 16"
  shows "\<forall>c\<in>set (kput_digits v base upper). \<exists>d. digit_of c = Some d \<and> d < unat base"
  using b
proof (induction v base upper rule: kput_digits.induct)
  case (1 v b u)
  have d: "unat (v mod b) < unat b" using 1(2) by (simp add: unat_mod)
  then have "digit_of (digit_char u (unat (v mod b))) = Some (unat (v mod b))" using 1(3) by (intro digit_of_char) simp
  with 1 d show ?case by (subst kput_digits.simps) auto
qed

lemma horner_digits:
  assumes b: "1 < unat base" "unat base \<le> 16"
  shows "horner base 0 (rev (kput_digits v base upper)) = v"
  using b
proof (induction v base upper rule: kput_digits.induct)
  case (1 v b u)
  have nb: "\<not> b < 2" using 1(2) by (simp add: word_less_nat_alt)
  have d: "unat (v mod b) < unat b" using 1(2) by (simp add: unat_mod)
  then have c: "digit_of (digit_char u (unat (v mod b))) = Some (unat (v mod b))" using 1(3) by (intro digit_of_char) simp
  show ?case
  proof (cases "v = 0")
    case False
    then have "horner b 0 (rev (kput_digits v b u)) = v div b * b + v mod b"
      using 1 nb c by (subst kput_digits.simps) (simp add: horner_def)
    then show ?thesis by (simp add: div_mult_mod_eq)
  qed (simp add: kput_digits.simps horner_def)
qed

lemma kput_digits_length: "base \<in> {10, 16} \<Longrightarrow> unat v < unat base ^ k \<Longrightarrow> length (kput_digits v base upper) \<le> k"
proof (induction k arbitrary: v)
  case 0
  then show ?case by (auto simp: kput_digits.simps unat_eq_0)
next
  case (Suc k)
  show ?case
  proof (cases "v = 0")
    case False
    have "unat (v div base) < unat base ^ k" using Suc(2,3) by (auto simp: unat_div less_mult_imp_div_less mult.commute)
    then have "length (kput_digits (v div base) base upper) \<le> k" using Suc by blast
    then show ?thesis by (subst kput_digits.simps) simp
  qed (simp add: kput_digits.simps)
qed

lemma kput_unsigned_parse:
  assumes b: "base = 10 \<or> base = 16"
  shows "strtoul (kput_unsigned v base upper) (unat base) = (v, [])"
proof (cases "v = 0")
  case True
  have "digit_of (CHR ''0'') = Some 0" by (simp add: digit_of_def less_eq_char_def)
  with True b show ?thesis by (auto simp: kput_unsigned_def strtoul_def hex_prefix_def)
next
  case False
  let ?ds = "rev (kput_digits v base upper)"
  have ub: "1 < unat base" "unat base \<le> 16" using b by auto
  have dg: "\<forall>c\<in>set ?ds. \<exists>d. digit_of c = Some d \<and> d < unat base" using kput_digits_chars [OF ub] by simp
  have no: "digit_of (CHR '' '') = None" "digit_of (CHR 0x09) = None" "digit_of (CHR ''x'') = None" "digit_of (CHR ''X'') = None"
    by (simp_all add: digit_of_def less_eq_char_def)
  have "c \<noteq> CHR '' ''" "c \<noteq> CHR 0x09" if "c \<in> set ?ds" for c using dg that no by force+
  then have "dropWhile (\<lambda>c. c = CHR '' '' \<or> c = CHR 0x09) ?ds = ?ds" by (cases ?ds) auto
  moreover have "\<not> hex_prefix ?ds"
    using dg no by (auto simp: hex_prefix_def split: list.splits)
  moreover have "unat base \<noteq> 0" using ub by simp
  ultimately have "strtoul ?ds (unat base) = strtoul_loop 0 ?ds (unat base)" by (simp add: strtoul_def Let_def)
  also have "\<dots> = (horner base 0 ?ds, [])" using strtoul_loop_digits [OF dg, of 0] by simp
  finally show ?thesis using horner_digits [OF ub] False by (simp add: kput_unsigned_def)
qed

section \<open>Properties\<close>

text \<open>C23: what \<open>kput_unsigned\<close> prints in base 10 or 16, in either letter case, \<open>strtoul\<close> reads back as the same
  64-bit value, consuming all of it; and no value needs more than 20 of the 24 digits the buffer has.\<close>

theorem number_output_roundtrip:
  "strtoul (kput_unsigned v 10 upper) 10 = (v, []) \<and> strtoul (kput_unsigned v 16 upper) 16 = (v, []) \<and>
   length (kput_digits v 10 upper) \<le> 20 \<and> length (kput_digits v 16 upper) \<le> 16"
proof -
  have "unat v < 2 ^ 64" using unsigned_less [of v] by simp
  then have "length (kput_digits v 10 upper) \<le> 20" "length (kput_digits v 16 upper) \<le> 16"
    by (intro kput_digits_length; simp)+
  then show ?thesis using kput_unsigned_parse [of 10 v upper] kput_unsigned_parse [of 16 v upper] by simp
qed

text \<open>C24: towards lower addresses \<open>memmove\<close> copies the bytes correctly even if the ranges overlap. Towards higher
  addresses it starts one byte past the end of both ranges: the first destination byte is never written and
  the byte after the destination is overwritten with the byte after the source.\<close>

theorem memmove_directions:
  assumes "0 < n" "dest \<noteq> src" "unat dest + n < 2 ^ 64" "unat src + n < 2 ^ 64"
  shows "if dest < src
    then \<forall>x. memmove dest src n m x = (if unat (x - dest) < n then m (src + (x - dest)) else m x)
    else memmove dest src n m dest = m dest \<and> memmove dest src n m (dest + of_nat n) = m (src + of_nat n)"
proof (cases "dest < src")
  case True
  have "src + of_nat i \<noteq> dest + of_nat j" if "i < n" "j < i" for i j
  proof -
    have "unat (src + of_nat i) = unat src + i" "unat (dest + of_nat j) = unat dest + j"
      using assms(3,4) that by (simp_all add: unat_word_ariths unat_of_nat)
    then show ?thesis using that True by (auto simp: word_less_nat_alt)
  qed
  then have "rep_movsb False n dest src m x = (if unat (x - dest) < n then m (src + (x - dest)) else m x)" for x
    using assms(3) by (intro rep_movsb_up) auto
  with True assms(1,2) show ?thesis by (simp add: memmove_def)
next
  case False
  obtain k where k: "n = Suc k" using assms(1) by (cases n) auto
  have mm: "memmove dest src n m = rep_movsb True n (dest + of_nat n) (src + of_nat n) m"
    using assms(1,2) False by (simp add: memmove_def)
  have "unat (dest + of_nat n - dest) = n" using assms(3) by (simp add: unat_of_nat)
  then have "memmove dest src n m dest = m dest" unfolding mm by (intro rep_movsb_down_out) simp
  moreover have "memmove dest src n m (dest + of_nat n) = m (src + of_nat n)"
  proof -
    let ?m = "m(dest + of_nat n := m (src + of_nat n))"
    have "rep_movsb True k (dest + of_nat n - 1) (src + of_nat n - 1) ?m (dest + of_nat n) = ?m (dest + of_nat n)"
      using assms(3) k by (intro rep_movsb_down_out) (simp add: unat_minus_1)
    then show ?thesis unfolding mm by (simp add: k algebra_simps)
  qed
  ultimately show ?thesis using False by simp
qed

theorem memmove_directions_witness:
  "memmove 0x2000 0x1000 1 ((\<lambda>_. 0)(0x1000 := 7)) 0x2000 = 0 \<and> memmove 0x1000 0x1001 2 (\<lambda>x. ucast x) 0x1000 = 1"
  using memmove_directions [of 1 "0x2000" "0x1000" "(\<lambda>_. 0)(0x1000 := 7)"]
    memmove_directions [of 2 "0x1000" "0x1001" "\<lambda>x. ucast x"] by simp

lemma kvprintf_literal:
  "CHR ''%'' \<notin> set xs \<Longrightarrow> kvprintf (xs @ fmt) args = map_option ((@) xs) (kvprintf fmt args)"
proof (induction xs)
  case Nil
  show ?case by (cases "kvprintf fmt args") simp_all
next
  case (Cons c xs)
  then have "c \<noteq> CHR ''%''" by auto
  with Cons show ?case by (cases "kvprintf fmt args") (simp_all add: kvprintf.simps)
qed

text \<open>A format that ends in a percent sign makes the walk run past its end.\<close>

lemma kvprintf_trailing_percent: "CHR ''%'' \<notin> set xs \<Longrightarrow> kvprintf (xs @ ''%'') args = None"
  by (simp add: kvprintf_literal kvprintf.simps read_spec_def Let_def)

lemma of_char_pos: "c \<noteq> CHR 0x00 \<Longrightarrow> 0 < (of_char c :: nat)"
  using of_char_eq_iff [of c "CHR 0x00", where ?'a = nat] by simp

text \<open>C25: \<open>strcmp\<close> orders C strings like the lexicographic order of their unsigned characters: its result is
  negative exactly if the first string is smaller and 0 exactly if they are equal.\<close>

theorem strcmp_lexicographic:
  assumes "CHR 0x00 \<notin> set a" "CHR 0x00 \<notin> set b"
  shows "(strcmp a b < 0 \<longleftrightarrow> ord_class.lexordp a b) \<and> (strcmp a b = 0 \<longleftrightarrow> a = b)"
  using assms
proof (induction a b rule: strcmp.induct [case_names both left right])
  case (both a as b bs)
  show ?case
  proof (cases "a = b")
    case True
    with both show ?thesis by simp
  next
    case False
    have lt: "x < y \<longleftrightarrow> of_char x < (of_char y :: nat)" for x y :: char by (simp add: less_char_def)
    from False consider "of_char a < (of_char b :: nat)" | "of_char b < (of_char a :: nat)"
      by (meson linorder_neqE_nat of_char_eq_iff)
    then show ?thesis
    proof cases
      case 1
      with False show ?thesis by (simp add: uchar_def lt)
    next
      case 2
      with False show ?thesis by (auto simp: uchar_def lt)
    qed
  qed
next
  case (left bs)
  show ?case
  proof (cases bs)
    case Nil
    then show ?thesis by (simp add: uchar_def)
  next
    case (Cons c cs)
    with left have "c \<noteq> CHR 0x00" by auto
    from of_char_pos [OF this] show ?thesis by (simp add: Cons uchar_def)
  qed
next
  case (right as)
  show ?case
  proof (cases as)
    case Nil
    then show ?thesis by (simp add: uchar_def)
  next
    case (Cons c cs)
    with right have "c \<noteq> CHR 0x00" by auto
    from of_char_pos [OF this] show ?thesis by (simp add: Cons uchar_def)
  qed
qed

theorem strcmp_lexicographic_witness: "strcmp ''ls'' ''lsx'' < 0 \<and> ord_class.lexordp ''ls'' ''lsx''"
  using strcmp_lexicographic [of "''ls''" "''lsx''"] by (simp add: uchar_def)

end
