(* ===== verification/Chunk_Queue.thy ===== *)
theory Chunk_Queue
  imports Main
begin

text \<open>
  The contract of the kernel's ring buffers: a bounded queue of elements. Pipes and the keyboard buffer
  interpret it.
\<close>

text \<open>The contract of a bounded queue that takes a chunk as far as it fits and hands out a chunk as far as
  it is filled.\<close>

locale chunk_queue =
  fixes inv :: "'q \<Rightarrow> bool" and abs :: "'q \<Rightarrow> 'x list" and cap :: nat
    and put :: "'x list \<Rightarrow> 'q \<Rightarrow> 'q" and get :: "nat \<Rightarrow> 'q \<Rightarrow> 'x list \<times> 'q"
  assumes put_inv: "inv q \<Longrightarrow> inv (put xs q)"
    and put_abs: "inv q \<Longrightarrow> abs (put xs q) = abs q @ take (cap - length (abs q)) xs"
    and get_inv: "inv q \<Longrightarrow> inv (snd (get n q))"
    and get_abs: "inv q \<Longrightarrow> abs (snd (get n q)) = drop n (abs q)"
    and get_out: "inv q \<Longrightarrow> fst (get n q) = take n (abs q)"
    and bounded: "inv q \<Longrightarrow> length (abs q) \<le> cap"
begin

text \<open>A run of the queue: chunks put in (\<open>Inl\<close>) and numbers of elements taken out (\<open>Inr\<close>). The result is
  what was accepted, what was handed out, and the queue at the end.\<close>

fun run :: "('x list + nat) list \<Rightarrow> 'q \<Rightarrow> 'x list \<times> 'x list \<times> 'q" where
  "run [] q = ([], [], q)"
| "run (Inl xs # ops) q =
     (let (i, out, q') = run ops (put xs q) in (take (cap - length (abs q)) xs @ i, out, q'))"
| "run (Inr n # ops) q =
     (let (i, out, q') = run ops (snd (get n q)) in (i, fst (get n q) @ out, q'))"

text \<open>Elements leave in the order they were accepted; none is lost, made up or duplicated.\<close>

lemma run_fifo:
  assumes "inv q" "run ops q = (i, out, q')"
  shows "inv q'" and "abs q @ i = out @ abs q'"
  using assms
proof (induction ops q arbitrary: i out q' rule: run.induct)
  case (2 xs ops q)
  obtain j o' r where r: "run ops (put xs q) = (j, o', r)" by (cases "run ops (put xs q)")
  {
    case 1
    with 2(1) [OF put_inv r] r show ?case by simp
  next
    case 2
    with "2.IH"(2) [OF put_inv r] r put_abs [of q xs] show ?case by auto
  }
next
  case (3 n ops q)
  obtain j o' r where r: "run ops (snd (get n q)) = (j, o', r)" by (cases "run ops (snd (get n q))")
  {
    case 1
    with 3(1) [OF get_inv r] r show ?case by (simp add: Let_def)
  next
    case 2
    have "abs q @ j = take n (abs q) @ abs (snd (get n q)) @ j" using get_abs [OF 2(1)] by simp
    also have "\<dots> = fst (get n q) @ o' @ abs r" using "3.IH"(2) [OF get_inv r] 2(1) get_out by simp
    finally show ?case using 2(2) r by (simp add: Let_def)
  }
qed auto

end

end
