(* ===== verification/Keyboard.thy ===== *)
theory Keyboard
  imports Tus_Prelude Chunk_Queue "HOL-Library.Char_ord"
begin

text \<open>
  The PS/2 keyboard driver, \<open>kernel/drivers/keyboard.c\<close>: the interrupt handler that decodes scancodes, the
  ring buffer of events between it and the readers, and the ownership of the console input. The I/O
  ports are arguments: \<open>inb\<close> and \<open>outb\<close> on a device state. A reader that halts is the outcome \<open>Hlt\<close>.
\<close>

section \<open>State\<close>

type_synonym 'h inb = "u16 \<Rightarrow> 'h \<Rightarrow> u8 \<times> 'h"
type_synonym 'h outb = "u16 \<Rightarrow> u8 \<Rightarrow> 'h \<Rightarrow> 'h"

abbreviation KBD_DATA_PORT :: u16 where "KBD_DATA_PORT \<equiv> 0x60"
abbreviation KBD_STATUS_PORT :: u16 where "KBD_STATUS_PORT \<equiv> 0x64"
abbreviation KBD_BUFFER_SIZE :: nat where "KBD_BUFFER_SIZE \<equiv> 256"

abbreviation KBD_EVENT_CHAR :: int where "KBD_EVENT_CHAR \<equiv> 0"
abbreviation KBD_EVENT_SPECIAL :: int where "KBD_EVENT_SPECIAL \<equiv> 1"

abbreviation KBD_KEY_UP :: int where "KBD_KEY_UP \<equiv> 1"
abbreviation KBD_KEY_DOWN :: int where "KBD_KEY_DOWN \<equiv> 2"
abbreviation KBD_KEY_LEFT :: int where "KBD_KEY_LEFT \<equiv> 3"
abbreviation KBD_KEY_RIGHT :: int where "KBD_KEY_RIGHT \<equiv> 4"
abbreviation KBD_KEY_HOME :: int where "KBD_KEY_HOME \<equiv> 5"
abbreviation KBD_KEY_END :: int where "KBD_KEY_END \<equiv> 6"
abbreviation KBD_KEY_DELETE :: int where "KBD_KEY_DELETE \<equiv> 7"
abbreviation KBD_KEY_INSERT :: int where "KBD_KEY_INSERT \<equiv> 8"
abbreviation KBD_KEY_PAGE_UP :: int where "KBD_KEY_PAGE_UP \<equiv> 9"
abbreviation KBD_KEY_PAGE_DOWN :: int where "KBD_KEY_PAGE_DOWN \<equiv> 10"

record kbd_event =
  ev_type :: int
  ev_code :: int
  ev_c :: char

record kbd =
  g_buffer :: "kbd_event list"
  g_head :: nat
  g_tail :: nat
  g_shift_pressed :: bool
  g_ctrl_pressed :: bool
  g_caps_locked :: bool
  g_extended :: bool
  g_kbd_owner :: klong

definition char_event :: "char \<Rightarrow> kbd_event" where
  "char_event c = \<lparr>ev_type = KBD_EVENT_CHAR, ev_code = 0, ev_c = c\<rparr>"

definition special_event :: "int \<Rightarrow> kbd_event" where
  "special_event key = \<lparr>ev_type = KBD_EVENT_SPECIAL, ev_code = key, ev_c = CHR 0x00\<rparr>"

text \<open>The static storage before \<open>kbd_init\<close>.\<close>

definition kbd_boot :: kbd where
  "kbd_boot = \<lparr>g_buffer = replicate KBD_BUFFER_SIZE (char_event (CHR 0x00)), g_head = 0, g_tail = 0,
     g_shift_pressed = False, g_ctrl_pressed = False, g_caps_locked = False, g_extended = False, g_kbd_owner = 0\<rparr>"

section \<open>Layout\<close>

text \<open>The rows of the two tables: a first scancode and the characters of the codes from there on.\<close>

primrec row_lookup :: "(nat \<times> string) list \<Rightarrow> nat \<Rightarrow> char" where
  "row_lookup [] code = CHR 0x00"
| "row_lookup (r # rs) code =
     (if fst r \<le> code \<and> code < fst r + length (snd r) then snd r ! (code - fst r) else row_lookup rs code)"

definition kbd_normal :: "nat \<Rightarrow> char" where
  "kbd_normal = row_lookup
     [(0x01, [CHR 0x1B]), (0x02, ''1234567890-=''), (0x0E, [CHR 0x08, CHR 0x09]),
      (0x10, ''qwertyuiop[]''), (0x1C, [CHR 0x0A]),
      (0x1E, ''asdfghjkl;''), (0x28, [CHR 0x27, CHR 0x60]),
      (0x2B, [CHR 0x5C]), (0x2C, ''zxcvbnm,./''), (0x37, ''*''), (0x39, '' '')]"

definition kbd_shifted :: "nat \<Rightarrow> char" where
  "kbd_shifted = row_lookup
     [(0x02, ''!@#$%^&*()_+''), (0x10, ''QWERTYUIOP{}''), (0x1E, ''ASDFGHJKL:''), (0x28, [CHR 0x22, CHR 0x7E]),
      (0x2B, ''|''), (0x2C, ''ZXCVBNM<>?''), (0x37, ''*'')]"

definition extmap :: "nat \<Rightarrow> int" where
  "extmap code =
     (case map_of [(0x47, KBD_KEY_HOME), (0x4F, KBD_KEY_END), (0x48, KBD_KEY_UP), (0x50, KBD_KEY_DOWN),
         (0x4B, KBD_KEY_LEFT), (0x4D, KBD_KEY_RIGHT), (0x49, KBD_KEY_PAGE_UP), (0x51, KBD_KEY_PAGE_DOWN),
         (0x52, KBD_KEY_INSERT), (0x53, KBD_KEY_DELETE)] code of
        Some key \<Rightarrow> key
      | None \<Rightarrow> 0)"

section \<open>The interrupt handler\<close>

definition kbd_push_event :: "kbd_event \<Rightarrow> kbd \<Rightarrow> kbd" where
  "kbd_push_event ev k =
     (let next = (g_head k + 1) mod KBD_BUFFER_SIZE
      in if next \<noteq> g_tail k then k\<lparr>g_buffer := (g_buffer k)[g_head k := ev], g_head := next\<rparr> else k)"

definition kbd_push_char :: "char \<Rightarrow> kbd \<Rightarrow> kbd" where
  "kbd_push_char c k = kbd_push_event (char_event c) k"

text \<open>The bounded wait for an acknowledgement.\<close>

primrec kbd_wait_ack :: "'h inb \<Rightarrow> nat \<Rightarrow> 'h \<Rightarrow> 'h" where
  "kbd_wait_ack inb 0 h = h"
| "kbd_wait_ack inb (Suc n) h =
     (let (status, h) = inb KBD_STATUS_PORT h
      in if status AND 1 \<noteq> 0 then snd (inb KBD_DATA_PORT h) else kbd_wait_ack inb n h)"

definition kbd_update_leds :: "'h inb \<Rightarrow> 'h outb \<Rightarrow> kbd \<Rightarrow> 'h \<Rightarrow> 'h" where
  "kbd_update_leds inb outb k h =
     (let h = outb KBD_DATA_PORT 0xED h;
          h = kbd_wait_ack inb 10000 h;
          h = outb KBD_DATA_PORT (if g_caps_locked k then 4 else 0) h
      in kbd_wait_ack inb 10000 h)"

text \<open>The key of a code that is not a modifier, under the modifiers held.\<close>

definition caps_char :: "kbd \<Rightarrow> char \<Rightarrow> char" where
  "caps_char k c =
     (if g_caps_locked k \<and> CHR ''a'' \<le> c \<and> c \<le> CHR ''z'' then char_of (of_char c - 32 :: nat)
      else if g_caps_locked k \<and> CHR ''A'' \<le> c \<and> c \<le> CHR ''Z'' then char_of (of_char c + 32 :: nat)
      else c)"

definition ctrl_char :: "kbd \<Rightarrow> char \<Rightarrow> char" where
  "ctrl_char k c =
     (if g_ctrl_pressed k \<and> CHR ''a'' \<le> c \<and> c \<le> CHR ''z'' then char_of (of_char c mod 32 :: nat) else c)"

definition kbd_irq_handler :: "'h inb \<Rightarrow> 'h outb \<Rightarrow> kbd \<Rightarrow> 'h \<Rightarrow> kbd \<times> 'h" where
  "kbd_irq_handler inb outb k h =
     (let (scancode, h) = inb KBD_DATA_PORT h;
          make = (scancode AND 0x80 = 0);
          code = unat (scancode AND 0x7F)
      in if scancode = 0xE0 then (k\<lparr>g_extended := True\<rparr>, h)
         else if g_extended k
         then let k = k\<lparr>g_extended := False\<rparr>
              in (if make \<and> extmap code \<noteq> 0 then kbd_push_event (special_event (extmap code)) k else k, h)
         else if code = 0x1D then (k\<lparr>g_ctrl_pressed := make\<rparr>, h)
         else if code = 0x2A \<or> code = 0x36 then (k\<lparr>g_shift_pressed := make\<rparr>, h)
         else if code = 0x3A
         then if make
              then let k = k\<lparr>g_caps_locked := \<not> g_caps_locked k\<rparr> in (k, kbd_update_leds inb outb k h)
              else (k, h)
         else if \<not> make then (k, h)
         else let c = (if g_shift_pressed k then kbd_shifted code else kbd_normal code)
              in if c = CHR 0x00 then (k, h)
                 else (kbd_push_char (ctrl_char k (caps_char k c)) k, h))"

section \<open>Readers\<close>

text \<open>What every reader does once the buffer is not empty.\<close>

definition kbd_pop :: "kbd \<Rightarrow> kbd_event \<times> kbd" where
  "kbd_pop k = (g_buffer k ! g_tail k, k\<lparr>g_tail := (g_tail k + 1) mod KBD_BUFFER_SIZE\<rparr>)"

definition kbd_get_event :: "kbd \<Rightarrow> (kbd_event, kbd) io" where
  "kbd_get_event k =
     (if g_head k = g_tail k then Hlt 0 k else case kbd_pop k of (ev, k) \<Rightarrow> Ret ev k)"

definition kbd_input_release :: "klong \<Rightarrow> kbd \<Rightarrow> kbd" where
  "kbd_input_release pid k = (if g_kbd_owner k = pid then k\<lparr>g_kbd_owner := 0\<rparr> else k)"

definition kbd_input_owner :: "kbd \<Rightarrow> klong" where
  "kbd_input_owner k = g_kbd_owner k"

definition kbd_get_event_owned :: "klong \<Rightarrow> kbd \<Rightarrow> (kbd_event, kbd) io" where
  "kbd_get_event_owned pid k =
     (let k = (if g_kbd_owner k = 0 then k\<lparr>g_kbd_owner := pid\<rparr> else k)
      in if g_kbd_owner k \<noteq> pid then Hlt 0 k
         else if g_head k = g_tail k then Hlt 0 k
         else case kbd_pop k of (ev, k) \<Rightarrow> Ret ev k)"

definition kbd_get_event_shell :: "klong \<Rightarrow> kbd \<Rightarrow> (kbd_event, kbd) io" where
  "kbd_get_event_shell pid k =
     (if g_kbd_owner k \<noteq> 0 \<and> g_kbd_owner k \<noteq> pid then Hlt 0 k
      else if g_head k = g_tail k then Hlt 0 k
      else case kbd_pop k of (ev, k) \<Rightarrow> Ret ev k)"

text \<open>The loop consumes non-character events until it finds a character or the buffer is empty. Every
  round but the last takes one of at most 255 buffered events, so 256 rounds are enough.\<close>

primrec kbd_getchar_rounds :: "nat \<Rightarrow> kbd \<Rightarrow> (char, kbd) io" where
  "kbd_getchar_rounds 0 k = Loop"
| "kbd_getchar_rounds (Suc n) k =
     (case kbd_get_event k of
        Ret ev k \<Rightarrow> if ev_type ev = KBD_EVENT_CHAR then Ret (ev_c ev) k else kbd_getchar_rounds n k
      | Hlt i k \<Rightarrow> Hlt i k
      | Loop \<Rightarrow> Loop)"

definition kbd_getchar :: "kbd \<Rightarrow> (char, kbd) io" where
  "kbd_getchar k = kbd_getchar_rounds KBD_BUFFER_SIZE k"

text \<open>A \<open>char\<close> is signed.\<close>

definition schar :: "char \<Rightarrow> int" where
  "schar c = (if of_char c < (128 :: nat) then int (of_char c) else int (of_char c) - 256)"

definition kbd_poll :: "kbd \<Rightarrow> int \<times> kbd" where
  "kbd_poll k =
     (if g_head k = g_tail k then (-1, k)
      else let (ev, k) = kbd_pop k
           in if ev_type ev \<noteq> KBD_EVENT_CHAR then (-1, k) else (schar (ev_c ev), k))"

definition kbd_has_char :: "kbd \<Rightarrow> bool" where
  "kbd_has_char k \<longleftrightarrow> g_head k \<noteq> g_tail k"

section \<open>The ring as a queue\<close>

definition kbd_ok :: "kbd \<Rightarrow> bool" where
  "kbd_ok k \<longleftrightarrow> length (g_buffer k) = KBD_BUFFER_SIZE \<and> g_head k < KBD_BUFFER_SIZE \<and> g_tail k < KBD_BUFFER_SIZE"

definition kbd_fill :: "kbd \<Rightarrow> nat" where
  "kbd_fill k = (if g_tail k \<le> g_head k then g_head k - g_tail k else g_head k + KBD_BUFFER_SIZE - g_tail k)"

definition kbd_events :: "kbd \<Rightarrow> kbd_event list" where
  "kbd_events k = map (\<lambda>i. g_buffer k ! ((g_tail k + i) mod KBD_BUFFER_SIZE)) [0..<kbd_fill k]"

lemma length_kbd_events [simp]: "length (kbd_events k) = kbd_fill k"
  by (simp add: kbd_events_def)

lemma kbd_fill_bound: "kbd_ok k \<Longrightarrow> kbd_fill k < KBD_BUFFER_SIZE"
  by (auto simp: kbd_ok_def kbd_fill_def)

lemma kbd_empty_iff: "kbd_ok k \<Longrightarrow> g_head k = g_tail k \<longleftrightarrow> kbd_events k = []"
  by (auto simp: kbd_ok_def kbd_fill_def kbd_events_def)

lemma kbd_full_iff:
  "kbd_ok k \<Longrightarrow> (g_head k + 1) mod KBD_BUFFER_SIZE = g_tail k \<longleftrightarrow> kbd_fill k = 255"
  by (auto simp: kbd_ok_def kbd_fill_def mod_if)

lemma kbd_push_event_queue:
  assumes ok: "kbd_ok k"
  shows "kbd_ok (kbd_push_event ev k)"
    and "kbd_events (kbd_push_event ev k) = kbd_events k @ take (255 - kbd_fill k) [ev]"
proof -
  show "kbd_ok (kbd_push_event ev k)" using ok by (simp add: kbd_ok_def kbd_push_event_def Let_def)
  have b: "length (g_buffer k) = 256" "g_head k < 256" "g_tail k < 256" using ok by (auto simp: kbd_ok_def)
  show "kbd_events (kbd_push_event ev k) = kbd_events k @ take (255 - kbd_fill k) [ev]"
  proof (cases "kbd_fill k = 255")
    case True
    then show ?thesis using kbd_full_iff [OF ok] by (simp add: kbd_push_event_def Let_def)
  next
    case False
    then have lt: "kbd_fill k < 255" using kbd_fill_bound [OF ok] by simp
    let ?k = "kbd_push_event ev k"
    have q: "?k = k\<lparr>g_buffer := (g_buffer k)[g_head k := ev], g_head := (g_head k + 1) mod 256\<rparr>"
      using kbd_full_iff [OF ok] False by (simp add: kbd_push_event_def Let_def)
    have f: "kbd_fill ?k = Suc (kbd_fill k)" using b lt by (auto simp: q kbd_fill_def mod_if)
    have at: "(g_tail k + i) mod 256 = g_head k \<longleftrightarrow> i = kbd_fill k" if "i < 256" for i
      using b that by (auto simp: kbd_fill_def mod_if)
    have "kbd_events ?k = map (\<lambda>i. (g_buffer k)[g_head k := ev] ! ((g_tail k + i) mod 256)) [0..<kbd_fill k] @ [ev]"
      using at [of "kbd_fill k"] lt b by (simp add: kbd_events_def f) (simp add: q)
    also have "map (\<lambda>i. (g_buffer k)[g_head k := ev] ! ((g_tail k + i) mod 256)) [0..<kbd_fill k] = kbd_events k"
      unfolding kbd_events_def
    proof (rule map_cong [OF refl])
      fix i assume "i \<in> set [0..<kbd_fill k]"
      then have "g_head k \<noteq> (g_tail k + i) mod 256" using at [of i] lt by auto
      then show "(g_buffer k)[g_head k := ev] ! ((g_tail k + i) mod 256) = g_buffer k ! ((g_tail k + i) mod 256)" by simp
    qed
    finally show ?thesis using lt by (simp add: take_Cons')
  qed
qed

lemma kbd_pop_queue:
  assumes ok: "kbd_ok k" and ne: "g_head k \<noteq> g_tail k"
  shows "kbd_ok (snd (kbd_pop k))" "kbd_events k = fst (kbd_pop k) # kbd_events (snd (kbd_pop k))"
proof -
  show "kbd_ok (snd (kbd_pop k))" using ok by (simp add: kbd_ok_def kbd_pop_def)
  let ?k = "snd (kbd_pop k)"
  have b: "length (g_buffer k) = 256" "g_head k < 256" "g_tail k < 256" using ok by (auto simp: kbd_ok_def)
  have f: "kbd_fill k = Suc (kbd_fill ?k)" using b ne by (auto simp: kbd_fill_def kbd_pop_def mod_if)
  have "kbd_events k = g_buffer k ! g_tail k # map (\<lambda>i. g_buffer k ! ((g_tail k + Suc i) mod 256)) [0..<kbd_fill ?k]"
    using b by (simp add: kbd_events_def f upt_conv_Cons map_Suc_upt [symmetric] del: upt_Suc)
  also have "map (\<lambda>i. g_buffer k ! ((g_tail k + Suc i) mod 256)) [0..<kbd_fill ?k] = kbd_events ?k"
    by (simp add: kbd_events_def kbd_pop_def mod_add_left_eq)
  finally show "kbd_events k = fst (kbd_pop k) # kbd_events ?k" by (simp add: kbd_pop_def)
qed

text \<open>A burst of events, and a reader that takes up to \<open>n\<close> of them.\<close>

definition kbd_put :: "kbd_event list \<Rightarrow> kbd \<Rightarrow> kbd" where
  "kbd_put = fold kbd_push_event"

primrec kbd_take :: "nat \<Rightarrow> kbd \<Rightarrow> kbd_event list \<times> kbd" where
  "kbd_take 0 k = ([], k)"
| "kbd_take (Suc n) k =
     (case kbd_get_event k of
        Ret ev k \<Rightarrow> (case kbd_take n k of (evs, k) \<Rightarrow> (ev # evs, k))
      | _ \<Rightarrow> ([], k))"

lemma kbd_put_queue:
  "kbd_ok k \<Longrightarrow> kbd_ok (kbd_put evs k) \<and> kbd_events (kbd_put evs k) = kbd_events k @ take (255 - kbd_fill k) evs"
proof (induction evs arbitrary: k)
  case Nil
  then show ?case by (simp add: kbd_put_def)
next
  case (Cons ev evs)
  let ?k = "kbd_push_event ev k"
  have k: "kbd_ok ?k" "kbd_events ?k = kbd_events k @ take (255 - kbd_fill k) [ev]"
    using kbd_push_event_queue [OF Cons.prems] by simp_all
  have "kbd_fill ?k = length (kbd_events ?k)" by simp
  also have "\<dots> = kbd_fill k + min 1 (255 - kbd_fill k)" by (simp only: k) simp
  finally have "kbd_fill ?k = kbd_fill k + min 1 (255 - kbd_fill k)" .
  with Cons.IH [OF k(1)] k(2) show ?case by (simp add: kbd_put_def take_Cons' min_def)
qed

lemma kbd_take_queue:
  "kbd_ok k \<Longrightarrow> kbd_ok (snd (kbd_take n k)) \<and> fst (kbd_take n k) = take n (kbd_events k) \<and>
     kbd_events (snd (kbd_take n k)) = drop n (kbd_events k)"
proof (induction n arbitrary: k)
  case 0
  then show ?case by simp
next
  case (Suc n)
  show ?case
  proof (cases "g_head k = g_tail k")
    case True
    then show ?thesis using Suc.prems kbd_empty_iff [OF Suc.prems] by (simp add: kbd_get_event_def)
  next
    case False
    obtain ev k' where p: "kbd_pop k = (ev, k')" by (cases "kbd_pop k")
    with kbd_pop_queue [OF Suc.prems False] Suc.IH [of k'] show ?thesis
      by (cases "kbd_take n k'") (simp add: kbd_get_event_def False)
  qed
qed

interpretation kbdq: chunk_queue kbd_ok kbd_events 255 kbd_put kbd_take
  using kbd_put_queue kbd_take_queue kbd_fill_bound by unfold_locales (simp_all add: less_Suc_eq_le [symmetric])

section \<open>Decoding\<close>

text \<open>The event a scancode stands for under the modifier state, written without the buffer.\<close>

definition kbd_decode :: "kbd \<Rightarrow> u8 \<Rightarrow> kbd_event list" where
  "kbd_decode k scancode =
     (let make = scancode < 0x80; code = unat scancode mod 128;
          c = (if g_shift_pressed k then kbd_shifted code else kbd_normal code)
      in if scancode = 0xE0 \<or> \<not> make then []
         else if g_extended k then (if extmap code = 0 then [] else [special_event (extmap code)])
         else if code \<in> {0x1D, 0x2A, 0x36, 0x3A} \<or> c = CHR 0x00 then []
         else [char_event (ctrl_char k (caps_char k c))])"

definition kbd_modifiers :: "kbd \<Rightarrow> bool \<times> bool \<times> bool \<times> bool" where
  "kbd_modifiers k = (g_shift_pressed k, g_ctrl_pressed k, g_caps_locked k, g_extended k)"

lemma kbd_push_fields [simp]:
  "g_kbd_owner (kbd_push_event ev k) = g_kbd_owner k" "kbd_modifiers (kbd_push_event ev k) = kbd_modifiers k"
  "g_tail (kbd_push_event ev k) = g_tail k"
  by (simp_all add: kbd_push_event_def kbd_modifiers_def Let_def)

lemma scancode_split: "(scancode :: u8) AND 0x80 = 0 \<longleftrightarrow> scancode < 0x80" "unat (scancode AND 0x7F) = unat scancode mod 128"
proof -
  have m: "0x7F = (mask 7 :: u8)" by (simp add: mask_eq_exp_minus_1)
  show "unat (scancode AND 0x7F) = unat scancode mod 128"
    unfolding m by (simp add: take_bit_eq_mask [symmetric] unsigned_take_bit_eq take_bit_eq_mod unat_mod)
  have "scancode AND 0x80 = 0 \<longleftrightarrow> \<not> bit (unat scancode) 7"
    using and_exp_eq_0_iff_not_bit [of scancode 7] by (simp add: bit_unsigned_iff)
  also have "\<dots> \<longleftrightarrow> even (unat scancode div 128)" by (simp add: bit_iff_odd)
  also have "\<dots> \<longleftrightarrow> unat scancode < 128"
  proof -
    have "unat scancode < 256" using unsigned_less [of scancode] by simp
    then show ?thesis using less_2_cases [of "unat scancode div 128"] by (auto simp: div_less_iff_less_mult)
  qed
  finally show "scancode AND 0x80 = 0 \<longleftrightarrow> scancode < 0x80" by (simp add: word_less_nat_alt)
qed

lemma kbd_irq_handler_push:
  assumes "inb KBD_DATA_PORT h = (scancode, h1)"
  obtains k1 where "fst (kbd_irq_handler inb outb k h) = kbd_put (kbd_decode k scancode) k1"
    "g_buffer k1 = g_buffer k" "g_head k1 = g_head k" "g_tail k1 = g_tail k" "g_kbd_owner k1 = g_kbd_owner k"
proof -
  let ?same = "\<lambda>k1. g_buffer k1 = g_buffer k \<and> g_head k1 = g_head k \<and> g_tail k1 = g_tail k \<and> g_kbd_owner k1 = g_kbd_owner k"
  have "\<exists>k1. fst (kbd_irq_handler inb outb k h) = kbd_put (kbd_decode k scancode) k1 \<and> ?same k1"
  proof (cases "scancode = 0xE0")
    case True
    then show ?thesis using assms by (auto simp: kbd_irq_handler_def kbd_decode_def kbd_put_def Let_def)
  next
    case ne: False
    show ?thesis
    proof (cases "g_extended k")
      case True
      then show ?thesis using ne assms
        by (auto simp: kbd_irq_handler_def kbd_decode_def kbd_put_def Let_def scancode_split intro!: exI [of _ "k\<lparr>g_extended := False\<rparr>"])
    next
      case False
      then show ?thesis using ne assms
        by (auto simp: kbd_irq_handler_def kbd_decode_def kbd_put_def kbd_push_char_def Let_def scancode_split)
    qed
  qed
  with that show ?thesis by blast
qed

section \<open>Interrupts and readers together\<close>

datatype kbd_op = Irq u8 | Read_owned klong | Read_shell klong | Release klong

text \<open>A run: the events decoded from the scancodes with whether the buffer took them, the events delivered
  with the reader, and the state at the end. A read that halts delivers nothing.\<close>

definition kbd_deliver :: "klong \<Rightarrow> (kbd_event, kbd) io \<Rightarrow> kbd \<Rightarrow> (klong \<times> kbd_event) list \<times> kbd" where
  "kbd_deliver pid r k = (case r of Ret ev k \<Rightarrow> ([(pid, ev)], k) | Hlt _ k \<Rightarrow> ([], k) | Loop \<Rightarrow> ([], k))"

fun kbd_op_step :: "'h outb \<Rightarrow> 'h \<Rightarrow> kbd_op \<Rightarrow> kbd \<Rightarrow> (klong \<times> kbd_event) list \<times> kbd" where
  "kbd_op_step outb h (Irq sc) k = ([], fst (kbd_irq_handler (\<lambda>_ h. (sc, h)) outb k h))"
| "kbd_op_step outb h (Read_owned pid) k = kbd_deliver pid (kbd_get_event_owned pid k) k"
| "kbd_op_step outb h (Read_shell pid) k = kbd_deliver pid (kbd_get_event_shell pid k) k"
| "kbd_op_step outb h (Release pid) k = ([], kbd_input_release pid k)"

fun kbd_op_typed :: "kbd_op \<Rightarrow> kbd \<Rightarrow> kbd_event list" where
  "kbd_op_typed (Irq sc) k = take (255 - length (kbd_events k)) (kbd_decode k sc)"
| "kbd_op_typed _ k = []"

fun kbd_run :: "'h outb \<Rightarrow> 'h \<Rightarrow> kbd_op list \<Rightarrow> kbd \<Rightarrow> kbd_event list \<times> (klong \<times> kbd_event) list \<times> kbd" where
  "kbd_run outb h [] k = ([], [], k)"
| "kbd_run outb h (op # ops) k =
     (let (out, k') = kbd_op_step outb h op k;
          (typed, outs, k'') = kbd_run outb h ops k'
      in (kbd_op_typed op k @ typed, out @ outs, k''))"

lemma kbd_ring_cong:
  assumes "g_buffer k1 = g_buffer k" "g_head k1 = g_head k" "g_tail k1 = g_tail k"
  shows "kbd_ok k1 = kbd_ok k" "kbd_events k1 = kbd_events k"
  using assms by (simp_all add: kbd_ok_def kbd_events_def kbd_fill_def)

lemma kbd_put_owner [simp]: "g_kbd_owner (kbd_put evs k) = g_kbd_owner k"
  unfolding kbd_put_def by (induction evs arbitrary: k) simp_all

text \<open>Taking one event, as all readers do.\<close>

lemma kbd_reader_cases:
  assumes "kbd_ok k"
  obtains "g_head k = g_tail k"
  | ev k' where "g_head k \<noteq> g_tail k" "kbd_pop k = (ev, k')" "kbd_ok k'" "kbd_events k = ev # kbd_events k'"
      "g_kbd_owner k' = g_kbd_owner k"
proof (cases "g_head k = g_tail k")
  case False
  obtain ev k' where p: "kbd_pop k = (ev, k')" by (cases "kbd_pop k")
  then have "g_kbd_owner k' = g_kbd_owner k" by (auto simp: kbd_pop_def)
  with p kbd_pop_queue [OF assms False] False that(2) show ?thesis by simp
qed (rule that(1))

lemma kbd_op_step_queue:
  assumes ok: "kbd_ok k" and st: "kbd_op_step outb h op k = (out, k')"
  shows "kbd_ok k' \<and> kbd_events k @ kbd_op_typed op k = map snd out @ kbd_events k'"
proof (cases op)
  case (Irq sc)
  obtain k1 where k1: "fst (kbd_irq_handler (\<lambda>_ h. (sc, h)) outb k h) = kbd_put (kbd_decode k sc) k1"
    "g_buffer k1 = g_buffer k" "g_head k1 = g_head k" "g_tail k1 = g_tail k"
    by (rule kbd_irq_handler_push [of "\<lambda>_ h. (sc, h)" h sc h outb k]) simp_all
  have "kbd_ok k1" "kbd_events k1 = kbd_events k" using kbd_ring_cong [OF k1(2-4)] ok by simp_all
  moreover from this have "kbd_fill k1 = kbd_fill k" by (metis length_kbd_events)
  ultimately show ?thesis using kbd_put_queue [of k1 "kbd_decode k sc"] st Irq k1(1) by simp
next
  case (Read_owned pid)
  let ?k = "if g_kbd_owner k = 0 then k\<lparr>g_kbd_owner := pid\<rparr> else k"
  have k: "kbd_ok ?k" "kbd_events ?k = kbd_events k" using kbd_ring_cong [of ?k k] ok by (simp_all split: if_splits)
  show ?thesis
    by (rule kbd_reader_cases [OF k(1)])
      (use st Read_owned k in \<open>auto simp: kbd_get_event_owned_def kbd_deliver_def Let_def split: if_splits\<close>)
next
  case (Read_shell pid)
  show ?thesis
    by (rule kbd_reader_cases [OF ok])
      (use st Read_shell ok in \<open>auto simp: kbd_get_event_shell_def kbd_deliver_def split: if_splits\<close>)
next
  case (Release pid)
  have "kbd_ok (kbd_input_release pid k) = kbd_ok k" "kbd_events (kbd_input_release pid k) = kbd_events k"
    by (rule kbd_ring_cong; simp add: kbd_input_release_def)+
  then show ?thesis using st Release ok by simp
qed

lemma kbd_op_step_owner:
  assumes st: "kbd_op_step outb h op k = (out, k')" and "\<And>pid. op \<noteq> Release pid" "g_kbd_owner k = pid" "pid \<noteq> 0"
  shows "g_kbd_owner k' = pid \<and> fst ` set out \<subseteq> {pid}"
proof (cases op)
  case (Irq sc)
  obtain k1 where "fst (kbd_irq_handler (\<lambda>_ h. (sc, h)) outb k h) = kbd_put (kbd_decode k sc) k1" "g_kbd_owner k1 = g_kbd_owner k"
    by (rule kbd_irq_handler_push [of "\<lambda>_ h. (sc, h)" h sc h outb k]) simp_all
  then show ?thesis using assms Irq kbd_put_owner [of "kbd_decode k sc" k1] by simp
qed (use assms in \<open>auto simp: kbd_get_event_owned_def kbd_get_event_shell_def kbd_deliver_def kbd_pop_def split: if_splits\<close>)

lemma kbd_run_queue:
  "kbd_ok k \<Longrightarrow> kbd_run outb h ops k = (typed, outs, k') \<Longrightarrow> kbd_ok k' \<and> kbd_events k @ typed = map snd outs @ kbd_events k'"
proof (induction ops arbitrary: k typed outs k')
  case (Cons op ops)
  obtain out k1 where st: "kbd_op_step outb h op k = (out, k1)" by (cases "kbd_op_step outb h op k")
  obtain t2 o2 k2 where r: "kbd_run outb h ops k1 = (t2, o2, k2)" by (cases "kbd_run outb h ops k1")
  note q = kbd_op_step_queue [OF Cons.prems(1) st]
  with Cons.IH [OF _ r] Cons.prems(2) st r show ?case by auto (metis append.assoc)
qed simp

lemma kbd_run_owner:
  assumes "\<forall>op\<in>set ops. \<forall>p. op \<noteq> Release p" "g_kbd_owner k = pid" "pid \<noteq> 0" "kbd_run outb h ops k = (typed, outs, k')"
  shows "g_kbd_owner k' = pid \<and> fst ` set outs \<subseteq> {pid}"
  using assms
proof (induction ops arbitrary: k typed outs k')
  case (Cons op ops)
  obtain out k1 where st: "kbd_op_step outb h op k = (out, k1)" by (cases "kbd_op_step outb h op k")
  obtain t2 o2 k2 where r: "kbd_run outb h ops k1 = (t2, o2, k2)" by (cases "kbd_run outb h ops k1")
  have "g_kbd_owner k1 = pid \<and> fst ` set out \<subseteq> {pid}" using kbd_op_step_owner [OF st] Cons.prems by simp
  moreover from this have "g_kbd_owner k2 = pid \<and> fst ` set o2 \<subseteq> {pid}" using Cons.IH [OF _ _ _ r] Cons.prems by simp
  moreover have "k' = k2" "outs = out @ o2" using Cons.prems(4) st r by simp_all
  ultimately show ?case by (simp add: image_Un)
qed simp

section \<open>Typing\<close>

definition at_rest :: "bool \<times> bool \<times> bool \<times> bool" where
  "at_rest = (False, False, False, False)"

lemma kbd_normal_table:
  "map kbd_normal [2..<58] =
     [CHR 0x31, CHR 0x32, CHR 0x33, CHR 0x34, CHR 0x35, CHR 0x36, CHR 0x37, CHR 0x38,
      CHR 0x39, CHR 0x30, CHR 0x2D, CHR 0x3D, CHR 0x08, CHR 0x09, CHR 0x71, CHR 0x77, CHR 0x65, CHR 0x72,
      CHR 0x74, CHR 0x79, CHR 0x75, CHR 0x69, CHR 0x6F, CHR 0x70, CHR 0x5B, CHR 0x5D, CHR 0x0A, CHR 0x00,
      CHR 0x61, CHR 0x73, CHR 0x64, CHR 0x66, CHR 0x67, CHR 0x68, CHR 0x6A, CHR 0x6B, CHR 0x6C, CHR 0x3B,
      CHR 0x27, CHR 0x60, CHR 0x00, CHR 0x5C, CHR 0x7A, CHR 0x78, CHR 0x63, CHR 0x76, CHR 0x62, CHR 0x6E,
      CHR 0x6D, CHR 0x2C, CHR 0x2E, CHR 0x2F, CHR 0x00, CHR 0x2A, CHR 0x00, CHR 0x20]"
  by (simp add: kbd_normal_def upt_rec_numeral)

lemma kbd_shifted_table:
  "map kbd_shifted [2..<58] =
     [CHR 0x21, CHR 0x40, CHR 0x23, CHR 0x24, CHR 0x25, CHR 0x5E, CHR 0x26, CHR 0x2A,
      CHR 0x28, CHR 0x29, CHR 0x5F, CHR 0x2B, CHR 0x00, CHR 0x00, CHR 0x51, CHR 0x57, CHR 0x45, CHR 0x52,
      CHR 0x54, CHR 0x59, CHR 0x55, CHR 0x49, CHR 0x4F, CHR 0x50, CHR 0x7B, CHR 0x7D, CHR 0x00, CHR 0x00,
      CHR 0x41, CHR 0x53, CHR 0x44, CHR 0x46, CHR 0x47, CHR 0x48, CHR 0x4A, CHR 0x4B, CHR 0x4C, CHR 0x3A,
      CHR 0x22, CHR 0x7E, CHR 0x00, CHR 0x7C, CHR 0x5A, CHR 0x58, CHR 0x43, CHR 0x56, CHR 0x42, CHR 0x4E,
      CHR 0x4D, CHR 0x3C, CHR 0x3E, CHR 0x3F, CHR 0x00, CHR 0x2A, CHR 0x00, CHR 0x00]"
  by (simp add: kbd_shifted_def upt_rec_numeral)

lemma printable_chars:
  "map char_of [32..<127::nat] =
     [CHR 0x20, CHR 0x21, CHR 0x22, CHR 0x23, CHR 0x24, CHR 0x25, CHR 0x26, CHR 0x27, CHR 0x28, CHR 0x29,
      CHR 0x2A, CHR 0x2B, CHR 0x2C, CHR 0x2D, CHR 0x2E, CHR 0x2F, CHR 0x30, CHR 0x31, CHR 0x32, CHR 0x33,
      CHR 0x34, CHR 0x35, CHR 0x36, CHR 0x37, CHR 0x38, CHR 0x39, CHR 0x3A, CHR 0x3B, CHR 0x3C, CHR 0x3D,
      CHR 0x3E, CHR 0x3F, CHR 0x40, CHR 0x41, CHR 0x42, CHR 0x43, CHR 0x44, CHR 0x45, CHR 0x46, CHR 0x47,
      CHR 0x48, CHR 0x49, CHR 0x4A, CHR 0x4B, CHR 0x4C, CHR 0x4D, CHR 0x4E, CHR 0x4F, CHR 0x50, CHR 0x51,
      CHR 0x52, CHR 0x53, CHR 0x54, CHR 0x55, CHR 0x56, CHR 0x57, CHR 0x58, CHR 0x59, CHR 0x5A, CHR 0x5B,
      CHR 0x5C, CHR 0x5D, CHR 0x5E, CHR 0x5F, CHR 0x60, CHR 0x61, CHR 0x62, CHR 0x63, CHR 0x64, CHR 0x65,
      CHR 0x66, CHR 0x67, CHR 0x68, CHR 0x69, CHR 0x6A, CHR 0x6B, CHR 0x6C, CHR 0x6D, CHR 0x6E, CHR 0x6F,
      CHR 0x70, CHR 0x71, CHR 0x72, CHR 0x73, CHR 0x74, CHR 0x75, CHR 0x76, CHR 0x77, CHR 0x78, CHR 0x79,
      CHR 0x7A, CHR 0x7B, CHR 0x7C, CHR 0x7D, CHR 0x7E]"
  (is "_ = ?cs")
proof -
  have "[32..<127::nat] = map of_char ?cs" by (simp add: upt_rec_numeral)
  then have "map char_of [32..<127::nat] = map char_of (map of_char ?cs :: nat list)" by (rule arg_cong)
  also have "\<dots> = ?cs" unfolding map_map comp_def char_of_char by (rule list.map_ident)
  finally show ?thesis .
qed

lemma printable_keys: "set (map char_of [32..<127::nat]) \<subseteq> set (map kbd_normal [2..<58] @ map kbd_shifted [2..<58])"
  unfolding kbd_normal_table kbd_shifted_table printable_chars by simp

lemma printable_key:
  assumes "CHR '' '' \<le> c \<and> c \<le> CHR ''~''"
  obtains code where "code < 128" "kbd_normal code = c \<or> kbd_shifted code = c" "c \<noteq> CHR 0x00"
proof -
  have n: "32 \<le> (of_char c :: nat)" "(of_char c :: nat) < 127" using assms by (simp_all add: less_eq_char_def)
  then have "of_char c \<in> set [32..<127::nat]" by (simp only: set_upt atLeastLessThan_iff)
  then have "char_of (of_char c :: nat) \<in> set (map char_of [32..<127::nat])" unfolding set_map by (rule imageI)
  then have "c \<in> set (map kbd_normal [2..<58] @ map kbd_shifted [2..<58])" using printable_keys by (simp only: char_of_char) blast
  then obtain code where "code \<in> set [2..<58]" "kbd_normal code = c \<or> kbd_shifted code = c"
    unfolding set_append set_map by blast
  then have "code < 58" "kbd_normal code = c \<or> kbd_shifted code = c" by (simp_all only: set_upt atLeastLessThan_iff)
  moreover have "c \<noteq> CHR 0x00" using n(1) by auto
  ultimately show ?thesis using that [of code] by simp
qed

lemma modifier_codes: "kbd_normal code \<noteq> CHR 0x00 \<or> kbd_shifted code \<noteq> CHR 0x00 \<Longrightarrow> code \<notin> {0x1D, 0x2A, 0x36, 0x3A, 0x60}"
  by (auto simp: kbd_normal_def kbd_shifted_def)

text \<open>The handler on a make code that is no modifier, on a break code, and on the Shift key.\<close>

lemma irq_key:
  assumes "sc < 0x80" "\<not> g_extended k" "unat sc \<notin> {0x1D, 0x2A, 0x36, 0x3A}"
    "(if g_shift_pressed k then kbd_shifted (unat sc) else kbd_normal (unat sc)) = c" "c \<noteq> CHR 0x00"
  shows "kbd_irq_handler (\<lambda>_ h. (sc, h)) outb k h = (kbd_push_char (ctrl_char k (caps_char k c)) k, h)"
    "kbd_decode k sc = [char_event (ctrl_char k (caps_char k c))]"
proof -
  have u: "unat sc < 128" using assms(1) by (simp add: word_less_nat_alt)
  then have "sc \<noteq> 0xE0" by auto
  with assms u show "kbd_irq_handler (\<lambda>_ h. (sc, h)) outb k h = (kbd_push_char (ctrl_char k (caps_char k c)) k, h)"
    "kbd_decode k sc = [char_event (ctrl_char k (caps_char k c))]"
    by (auto simp: kbd_irq_handler_def kbd_decode_def scancode_split Let_def)
qed

lemma break_code:
  assumes "code < 128"
  shows "unat (of_nat code + 0x80 :: u8) = code + 128" "unat (of_nat code :: u8) = code"
  using assms by (simp_all add: unat_word_ariths unat_of_nat)

lemma irq_break:
  assumes "code < 128" "\<not> g_extended k" "code \<notin> {0x1D, 0x2A, 0x36, 0x3A, 0x60}"
  shows "kbd_irq_handler (\<lambda>_ h. (of_nat code + 0x80, h)) outb k h = (k, h)" "kbd_decode k (of_nat code + 0x80) = []"
proof -
  let ?sc = "of_nat code + 0x80 :: u8"
  have u: "unat ?sc = code + 128" by (rule break_code(1) [OF assms(1)])
  then have "?sc \<noteq> 0xE0" "\<not> ?sc < 0x80" "unat ?sc mod 128 = code" using assms by (auto simp: word_less_nat_alt)
  with assms show "kbd_irq_handler (\<lambda>_ h. (?sc, h)) outb k h = (k, h)" "kbd_decode k ?sc = []"
    by (simp_all add: kbd_irq_handler_def kbd_decode_def scancode_split Let_def)
qed

lemma irq_shift:
  assumes "\<not> g_extended k" "\<not> g_ctrl_pressed k"
  shows "kbd_irq_handler (\<lambda>_ h. (0x2A, h)) outb k h = (k\<lparr>g_shift_pressed := True\<rparr>, h)" "kbd_decode k 0x2A = []"
    "kbd_irq_handler (\<lambda>_ h. (0xAA, h)) outb k h = (k\<lparr>g_shift_pressed := False\<rparr>, h)" "kbd_decode k 0xAA = []"
  using assms by (simp_all add: kbd_irq_handler_def kbd_decode_def)

lemma plain_char: "kbd_modifiers k = at_rest \<Longrightarrow> ctrl_char k (caps_char k c) = c"
  by (simp add: ctrl_char_def caps_char_def kbd_modifiers_def at_rest_def)

lemma kbd_push_char_end:
  assumes "kbd_ok k" "kbd_fill k < 255"
  shows "kbd_events (kbd_push_char c k) = kbd_events k @ [char_event c]"
  using kbd_push_event_queue(2) [OF assms(1)] assms(2) by (simp add: kbd_push_char_def take_Cons')

lemma type_plain:
  assumes "code < 128" "kbd_normal code = c" "c \<noteq> CHR 0x00" "kbd_ok k" "kbd_modifiers k = at_rest" "kbd_fill k < 255"
  shows "\<exists>k'. kbd_run outb h [Irq (of_nat code), Irq (of_nat code + 0x80)] k = ([char_event c], [], k') \<and>
    kbd_events k' = kbd_events k @ [char_event c] \<and> kbd_modifiers k' = at_rest"
proof -
  let ?k = "kbd_push_char c k"
  have m: "code \<notin> {0x1D, 0x2A, 0x36, 0x3A, 0x60}" using modifier_codes [of code] assms(2,3) by auto
  have r: "\<not> g_extended k" "\<not> g_shift_pressed k" using assms(5) by (simp_all add: kbd_modifiers_def at_rest_def)
  have sc: "(of_nat code :: u8) < 0x80" "unat (of_nat code :: u8) = code"
    using break_code [OF assms(1)] assms(1) by (simp_all add: word_less_nat_alt)
  have mk: "kbd_modifiers ?k = at_rest" using assms(5) by (simp add: kbd_push_char_def)
  then have rk: "\<not> g_extended ?k" by (simp add: kbd_modifiers_def at_rest_def)
  have "kbd_irq_handler (\<lambda>_ h. (of_nat code, h)) outb k h = (?k, h)" "kbd_decode k (of_nat code) = [char_event c]"
    using irq_key(1) [OF sc(1) r(1), of c outb h] irq_key(2) [OF sc(1) r(1), of c] m r sc(2) assms(2,3) plain_char [OF assms(5)] by auto
  with irq_break(1) [OF assms(1) rk m, of outb h] irq_break(2) [OF assms(1) rk m] kbd_push_char_end [OF assms(4,6)] assms(6) mk show ?thesis by (simp add: take_Cons')
qed

lemma type_shifted:
  assumes "code < 128" "kbd_shifted code = c" "c \<noteq> CHR 0x00" "kbd_ok k" "kbd_modifiers k = at_rest" "kbd_fill k < 255"
  shows "\<exists>k'. kbd_run outb h [Irq 0x2A, Irq (of_nat code), Irq (of_nat code + 0x80), Irq 0xAA] k = ([char_event c], [], k') \<and>
    kbd_events k' = kbd_events k @ [char_event c] \<and> kbd_modifiers k' = at_rest"
proof -
  let ?s = "k\<lparr>g_shift_pressed := True\<rparr>"
  let ?k = "kbd_push_char c ?s"
  have m: "code \<notin> {0x1D, 0x2A, 0x36, 0x3A, 0x60}" using modifier_codes [of code] assms(2,3) by auto
  have r: "\<not> g_extended k" "\<not> g_ctrl_pressed k" "\<not> g_extended ?s" "g_shift_pressed ?s"
    using assms(5) by (simp_all add: kbd_modifiers_def at_rest_def)
  have sc: "(of_nat code :: u8) < 0x80" "unat (of_nat code :: u8) = code"
    using break_code [OF assms(1)] assms(1) by (simp_all add: word_less_nat_alt)
  have mk: "kbd_modifiers ?k = (True, False, False, False)"
    using assms(5) by (simp add: kbd_push_char_def) (simp add: kbd_modifiers_def at_rest_def)
  then have rk: "\<not> g_extended ?k" "\<not> g_ctrl_pressed ?k" by (simp_all add: kbd_modifiers_def)
  have pc: "ctrl_char ?s (caps_char ?s c) = c" using assms(5)
    by (simp add: ctrl_char_def caps_char_def kbd_modifiers_def at_rest_def)
  have key: "kbd_irq_handler (\<lambda>_ h. (of_nat code, h)) outb ?s h = (?k, h)" "kbd_decode ?s (of_nat code) = [char_event c]"
    using irq_key(1) [OF sc(1) r(3), of c outb h] irq_key(2) [OF sc(1) r(3), of c] m r(4) sc(2) assms(2,3) pc by auto
  have ok: "kbd_ok ?s" "kbd_events ?s = kbd_events k" using kbd_ring_cong [of ?s k] assms(4) by simp_all
  have f: "kbd_fill ?s = kbd_fill k" by (simp add: kbd_fill_def)
  have ev: "kbd_events ?k = kbd_events k @ [char_event c]" using kbd_push_char_end [OF ok(1)] f assms(6) ok(2) by simp
  let ?e = "?k\<lparr>g_shift_pressed := False\<rparr>"
  have "kbd_events ?e = kbd_events ?k" by (rule kbd_ring_cong) simp_all
  moreover have "kbd_modifiers ?e = at_rest" using mk by (simp add: kbd_modifiers_def at_rest_def)
  ultimately show ?thesis
    using irq_shift(1) [OF r(1,2), of outb h] irq_shift(2) [OF r(1,2)] irq_shift(3) [OF rk, of outb h] irq_shift(4) [OF rk]
      irq_break(1) [OF assms(1) rk(1) m, of outb h] irq_break(2) [OF assms(1) rk(1) m] key ev f assms(6)
    by (simp add: take_Cons')
qed

section \<open>Properties\<close>





end
