(* ===== verification/Fb.thy ===== *)
theory Fb
  imports Klib
begin

text \<open>
  The framebuffer text console, \<open>kernel/drivers/fb.c\<close> with the font of \<open>kernel/drivers/font8x16.h\<close>: the text
  grid and its drawing, the escape sequence machine, scrolling and the scrollback history. The pixel
  memory is the function \<open>vram\<close> from byte offsets at \<open>g_pixels\<close>; it has bytes behind the end of the
  framebuffer too, so that a write there is visible. The arrays of cells are functions of row and column.
\<close>

section \<open>State\<close>

abbreviation FONT_WIDTH :: nat where "FONT_WIDTH \<equiv> 8"
abbreviation FONT_HEIGHT :: nat where "FONT_HEIGHT \<equiv> 16"
abbreviation FONT_FIRST :: nat where "FONT_FIRST \<equiv> 0x20"
abbreviation FONT_LAST :: nat where "FONT_LAST \<equiv> 0x7F"
abbreviation FB_MAX_COLS :: nat where "FB_MAX_COLS \<equiv> 512"
abbreviation FB_MAX_ROWS :: nat where "FB_MAX_ROWS \<equiv> 256"
abbreviation FB_HISTORY_ROWS :: nat where "FB_HISTORY_ROWS \<equiv> 2048"
abbreviation FB_PALETTE_SIZE :: nat where "FB_PALETTE_SIZE \<equiv> 16"
abbreviation COLOR_FG :: u32 where "COLOR_FG \<equiv> 0x00E8E8E8"
abbreviation COLOR_BG :: u32 where "COLOR_BG \<equiv> 0x00000000"

record fb_cell =
  cell_c :: char
  cell_color :: nat

datatype ansi_state = ANSI_NORMAL | ANSI_ESC | ANSI_CSI | ANSI_SS3

record fb =
  g_fb_bpp :: u32
  g_pixels :: u64
  vram :: "nat \<Rightarrow> u8"
  g_pitch_bytes :: nat
  g_pitch_words :: nat
  g_width :: nat
  g_height :: nat
  g_text_top :: nat
  g_cols :: int
  g_rows :: int
  g_cursor_x :: int
  g_cursor_y :: int
  g_fg :: u32
  g_bg :: u32
  g_cur_color :: nat
  g_palette_fg :: "u32 list"
  g_palette_bg :: "u32 list"
  g_palette_count :: nat
  g_text :: "nat \<Rightarrow> nat \<Rightarrow> fb_cell"
  g_ansi_state :: ansi_state
  g_csi_buf :: string
  g_csi_private :: bool
  g_cursor_visible :: bool
  g_reverse :: bool
  g_alt_text :: "nat \<Rightarrow> nat \<Rightarrow> fb_cell"
  g_alt_cursor_x :: int
  g_alt_cursor_y :: int
  g_alt_fg :: u32
  g_alt_bg :: u32
  g_alt_cur_color :: nat
  g_alt_active :: bool
  g_history :: "nat \<Rightarrow> nat \<Rightarrow> fb_cell"
  g_hist_head :: nat
  g_hist_count :: int
  g_view_back :: int

definition zero_cell :: fb_cell where
  "zero_cell = \<lparr>cell_c = CHR 0x00, cell_color = 0\<rparr>"

text \<open>The static storage before \<open>fb_init\<close>.\<close>

definition fb_boot :: fb where
  "fb_boot = \<lparr>g_fb_bpp = 0, g_pixels = NULL, vram = (\<lambda>_. 0), g_pitch_bytes = 0, g_pitch_words = 0, g_width = 0, g_height = 0,
     g_text_top = 0, g_cols = 0, g_rows = 0, g_cursor_x = 0, g_cursor_y = 0, g_fg = COLOR_FG, g_bg = COLOR_BG,
     g_cur_color = 0, g_palette_fg = replicate FB_PALETTE_SIZE 0, g_palette_bg = replicate FB_PALETTE_SIZE 0,
     g_palette_count = 0, g_text = (\<lambda>_ _. zero_cell), g_ansi_state = ANSI_NORMAL, g_csi_buf = [], g_csi_private = False,
     g_cursor_visible = True, g_reverse = False, g_alt_text = (\<lambda>_ _. zero_cell), g_alt_cursor_x = 0, g_alt_cursor_y = 0,
     g_alt_fg = 0, g_alt_bg = 0, g_alt_cur_color = 0, g_alt_active = False, g_history = (\<lambda>_ _. zero_cell),
     g_hist_head = 0, g_hist_count = 0, g_view_back = 0\<rparr>"

definition ansi_colors :: "u32 list" where
  "ansi_colors =
     [0x000000, 0xAA0000, 0x00AA00, 0xAA5500, 0x0000AA, 0xAA00AA, 0x00AAAA, 0xAAAAAA,
      0x555555, 0xFF5555, 0x55FF55, 0xFFFF55, 0x5555FF, 0xFF55FF, 0x55FFFF, 0xFFFFFF]"

definition font8x16 :: "nat list list" where
  "font8x16 =
     [[0, 0, 0, 0, 0, 0, 0, 0, 0, 0, 0, 0, 0, 0, 0, 0],
      [0, 0, 0x18, 0x3C, 0x3C, 0x3C, 0x18, 0x18, 0x18, 0, 0x18, 0x18, 0, 0, 0, 0],
      [0, 0, 0x66, 0x66, 0x66, 0x24, 0, 0, 0, 0, 0, 0, 0, 0, 0, 0],
      [0, 0, 0x6C, 0x6C, 0xFE, 0x6C, 0x6C, 0x6C, 0xFE, 0x6C, 0x6C, 0, 0, 0, 0, 0],
      [0x18, 0x18, 0x7E, 0xC3, 0xC2, 0xC0, 0x7E, 0x03, 0x83, 0xC3, 0x7E, 0x18, 0x18, 0, 0, 0],
      [0, 0, 0, 0xC6, 0xCC, 0x18, 0x30, 0x60, 0xC6, 0x86, 0x0C, 0, 0, 0, 0, 0],
      [0, 0, 0x38, 0x6C, 0x6C, 0x38, 0x76, 0xDC, 0xCC, 0xCC, 0x76, 0, 0, 0, 0, 0],
      [0, 0, 0x18, 0x18, 0x18, 0x30, 0, 0, 0, 0, 0, 0, 0, 0, 0, 0],
      [0, 0, 0x0C, 0x18, 0x30, 0x30, 0x30, 0x30, 0x30, 0x18, 0x0C, 0, 0, 0, 0, 0],
      [0, 0, 0x30, 0x18, 0x0C, 0x0C, 0x0C, 0x0C, 0x0C, 0x18, 0x30, 0, 0, 0, 0, 0],
      [0, 0, 0, 0x66, 0x3C, 0xFF, 0x3C, 0x66, 0, 0, 0, 0, 0, 0, 0, 0],
      [0, 0, 0, 0x18, 0x18, 0x7E, 0x18, 0x18, 0, 0, 0, 0, 0, 0, 0, 0],
      [0, 0, 0, 0, 0, 0, 0, 0, 0, 0x18, 0x18, 0x18, 0x30, 0, 0, 0],
      [0, 0, 0, 0, 0, 0x7E, 0, 0, 0, 0, 0, 0, 0, 0, 0, 0],
      [0, 0, 0, 0, 0, 0, 0, 0, 0, 0x18, 0x18, 0, 0, 0, 0, 0],
      [0, 0, 0x03, 0x06, 0x0C, 0x18, 0x30, 0x60, 0xC0, 0x80, 0, 0, 0, 0, 0, 0],
      [0, 0, 0x7E, 0xC3, 0xC3, 0xDB, 0xDB, 0xDB, 0xC3, 0xC3, 0x7E, 0, 0, 0, 0, 0],
      [0, 0, 0x18, 0x38, 0x78, 0x18, 0x18, 0x18, 0x18, 0x18, 0x7E, 0, 0, 0, 0, 0],
      [0, 0, 0x7E, 0xC3, 0x03, 0x06, 0x0C, 0x18, 0x30, 0x60, 0xFF, 0, 0, 0, 0, 0],
      [0, 0, 0x7E, 0xC3, 0x03, 0x1E, 0x03, 0x03, 0x03, 0xC3, 0x7E, 0, 0, 0, 0, 0],
      [0, 0, 0x06, 0x0E, 0x1E, 0x36, 0x66, 0xC6, 0xFF, 0x06, 0x06, 0, 0, 0, 0, 0],
      [0, 0, 0xFF, 0xC0, 0xC0, 0xFE, 0x03, 0x03, 0x03, 0xC3, 0x7E, 0, 0, 0, 0, 0],
      [0, 0, 0x3E, 0x60, 0xC0, 0xFE, 0xC3, 0xC3, 0xC3, 0x63, 0x3E, 0, 0, 0, 0, 0],
      [0, 0, 0xFF, 0x03, 0x06, 0x0C, 0x18, 0x30, 0x30, 0x30, 0x30, 0, 0, 0, 0, 0],
      [0, 0, 0x7E, 0xC3, 0xC3, 0x7E, 0xC3, 0xC3, 0xC3, 0xC3, 0x7E, 0, 0, 0, 0, 0],
      [0, 0, 0x7E, 0xC3, 0xC3, 0xC3, 0x7F, 0x03, 0x03, 0x06, 0x7C, 0, 0, 0, 0, 0],
      [0, 0, 0, 0x18, 0x18, 0, 0, 0, 0x18, 0x18, 0, 0, 0, 0, 0, 0],
      [0, 0, 0, 0x18, 0x18, 0, 0, 0, 0x18, 0x18, 0x18, 0x30, 0, 0, 0, 0],
      [0, 0, 0x06, 0x0C, 0x18, 0x30, 0x60, 0x30, 0x18, 0x0C, 0x06, 0, 0, 0, 0, 0],
      [0, 0, 0, 0, 0x7E, 0, 0, 0x7E, 0, 0, 0, 0, 0, 0, 0, 0],
      [0, 0, 0x60, 0x30, 0x18, 0x0C, 0x06, 0x0C, 0x18, 0x30, 0x60, 0, 0, 0, 0, 0],
      [0, 0, 0x7E, 0xC3, 0x03, 0x06, 0x0C, 0x18, 0x18, 0, 0x18, 0x18, 0, 0, 0, 0],
      [0, 0, 0x7E, 0xC3, 0xDB, 0xDB, 0xDB, 0xDB, 0xDE, 0xC0, 0x7F, 0, 0, 0, 0, 0],
      [0, 0, 0x18, 0x3C, 0x66, 0xC3, 0xC3, 0xFF, 0xC3, 0xC3, 0xC3, 0, 0, 0, 0, 0],
      [0, 0, 0xFE, 0x63, 0x63, 0x7E, 0x63, 0x63, 0x63, 0x63, 0xFE, 0, 0, 0, 0, 0],
      [0, 0, 0x3E, 0x63, 0xC0, 0xC0, 0xC0, 0xC0, 0xC0, 0x63, 0x3E, 0, 0, 0, 0, 0],
      [0, 0, 0xFC, 0x66, 0x63, 0x63, 0x63, 0x63, 0x63, 0x66, 0xFC, 0, 0, 0, 0, 0],
      [0, 0, 0xFF, 0x61, 0x60, 0x7C, 0x60, 0x60, 0x60, 0x61, 0xFF, 0, 0, 0, 0, 0],
      [0, 0, 0xFF, 0x61, 0x60, 0x7C, 0x60, 0x60, 0x60, 0x60, 0xF0, 0, 0, 0, 0, 0],
      [0, 0, 0x3E, 0x63, 0xC0, 0xC0, 0xCF, 0xC3, 0xC3, 0x63, 0x3E, 0, 0, 0, 0, 0],
      [0, 0, 0xC3, 0xC3, 0xC3, 0xFF, 0xC3, 0xC3, 0xC3, 0xC3, 0xC3, 0, 0, 0, 0, 0],
      [0, 0, 0x7E, 0x18, 0x18, 0x18, 0x18, 0x18, 0x18, 0x18, 0x7E, 0, 0, 0, 0, 0],
      [0, 0, 0x0F, 0x06, 0x06, 0x06, 0x06, 0xC6, 0xC6, 0xC6, 0x7C, 0, 0, 0, 0, 0],
      [0, 0, 0xE3, 0x66, 0x6C, 0x78, 0x70, 0x78, 0x6C, 0x66, 0xE3, 0, 0, 0, 0, 0],
      [0, 0, 0xF0, 0x60, 0x60, 0x60, 0x60, 0x60, 0x60, 0x61, 0xFF, 0, 0, 0, 0, 0],
      [0, 0, 0xC3, 0xE7, 0xFF, 0xFF, 0xDB, 0xC3, 0xC3, 0xC3, 0xC3, 0, 0, 0, 0, 0],
      [0, 0, 0xC3, 0xE3, 0xF3, 0xFB, 0xCF, 0xC7, 0xC3, 0xC3, 0xC3, 0, 0, 0, 0, 0],
      [0, 0, 0x7E, 0xC3, 0xC3, 0xC3, 0xC3, 0xC3, 0xC3, 0xC3, 0x7E, 0, 0, 0, 0, 0],
      [0, 0, 0xFE, 0xC3, 0xC3, 0xC3, 0xFE, 0xC0, 0xC0, 0xC0, 0xC0, 0, 0, 0, 0, 0],
      [0, 0, 0x7E, 0xC3, 0xC3, 0xC3, 0xC3, 0xC3, 0xDB, 0xDB, 0x7E, 0x03, 0, 0, 0, 0],
      [0, 0, 0xFE, 0xC3, 0xC3, 0xC3, 0xFE, 0xCC, 0xC6, 0xC3, 0xC3, 0, 0, 0, 0, 0],
      [0, 0, 0x7E, 0xC3, 0xC0, 0x7E, 0x03, 0x03, 0x03, 0xC3, 0x7E, 0, 0, 0, 0, 0],
      [0, 0, 0xFF, 0xDB, 0x18, 0x18, 0x18, 0x18, 0x18, 0x18, 0x3C, 0, 0, 0, 0, 0],
      [0, 0, 0xC3, 0xC3, 0xC3, 0xC3, 0xC3, 0xC3, 0xC3, 0xC3, 0x7E, 0, 0, 0, 0, 0],
      [0, 0, 0xC3, 0xC3, 0xC3, 0xC3, 0xC3, 0xC3, 0x66, 0x3C, 0x18, 0, 0, 0, 0, 0],
      [0, 0, 0xC3, 0xC3, 0xC3, 0xC3, 0xDB, 0xDB, 0xFF, 0xE7, 0xC3, 0, 0, 0, 0, 0],
      [0, 0, 0xC3, 0xC3, 0x66, 0x3C, 0x18, 0x3C, 0x66, 0xC3, 0xC3, 0, 0, 0, 0, 0],
      [0, 0, 0xC3, 0xC3, 0xC3, 0x66, 0x3C, 0x18, 0x18, 0x18, 0x3C, 0, 0, 0, 0, 0],
      [0, 0, 0xFF, 0xC3, 0x86, 0x0C, 0x18, 0x30, 0x61, 0xC3, 0xFF, 0, 0, 0, 0, 0],
      [0, 0, 0x3C, 0x30, 0x30, 0x30, 0x30, 0x30, 0x30, 0x30, 0x3C, 0, 0, 0, 0, 0],
      [0, 0, 0xC0, 0x60, 0x30, 0x18, 0x0C, 0x06, 0x03, 0x01, 0, 0, 0, 0, 0, 0],
      [0, 0, 0x3C, 0x0C, 0x0C, 0x0C, 0x0C, 0x0C, 0x0C, 0x0C, 0x3C, 0, 0, 0, 0, 0],
      [0, 0x18, 0x3C, 0x66, 0xC3, 0, 0, 0, 0, 0, 0, 0, 0, 0, 0, 0],
      [0, 0, 0, 0, 0, 0, 0, 0, 0, 0, 0, 0xFF, 0, 0, 0, 0],
      [0, 0x30, 0x18, 0x0C, 0, 0, 0, 0, 0, 0, 0, 0, 0, 0, 0, 0],
      [0, 0, 0, 0, 0x7C, 0xC6, 0x06, 0x7E, 0xC6, 0xC6, 0x7E, 0, 0, 0, 0, 0],
      [0, 0, 0xE0, 0x60, 0x7C, 0x66, 0x66, 0x66, 0x66, 0x66, 0x7C, 0, 0, 0, 0, 0],
      [0, 0, 0, 0, 0x7C, 0xC6, 0xC0, 0xC0, 0xC0, 0xC6, 0x7C, 0, 0, 0, 0, 0],
      [0, 0, 0x1C, 0x0C, 0x7C, 0xCC, 0xCC, 0xCC, 0xCC, 0xCC, 0x7E, 0, 0, 0, 0, 0],
      [0, 0, 0, 0, 0x7C, 0xC6, 0xC6, 0xFE, 0xC0, 0xC6, 0x7C, 0, 0, 0, 0, 0],
      [0, 0, 0x1C, 0x36, 0x30, 0x78, 0x30, 0x30, 0x30, 0x30, 0x78, 0, 0, 0, 0, 0],
      [0, 0, 0, 0, 0x7E, 0xC6, 0xC6, 0xC6, 0x7E, 0x06, 0x7C, 0, 0, 0, 0, 0],
      [0, 0, 0xE0, 0x60, 0x7C, 0x66, 0x66, 0x66, 0x66, 0x66, 0xE7, 0, 0, 0, 0, 0],
      [0, 0, 0x18, 0x18, 0, 0x38, 0x18, 0x18, 0x18, 0x18, 0x3C, 0, 0, 0, 0, 0],
      [0, 0, 0x0C, 0x0C, 0, 0x1C, 0x0C, 0x0C, 0x0C, 0xCC, 0x78, 0, 0, 0, 0, 0],
      [0, 0, 0xE0, 0x60, 0x66, 0x6C, 0x78, 0x6C, 0x66, 0x66, 0xE7, 0, 0, 0, 0, 0],
      [0, 0, 0x38, 0x18, 0x18, 0x18, 0x18, 0x18, 0x18, 0x18, 0x3C, 0, 0, 0, 0, 0],
      [0, 0, 0, 0, 0xFC, 0xDB, 0xDB, 0xDB, 0xDB, 0xDB, 0xDB, 0, 0, 0, 0, 0],
      [0, 0, 0, 0, 0xDC, 0x66, 0x66, 0x66, 0x66, 0x66, 0xE7, 0, 0, 0, 0, 0],
      [0, 0, 0, 0, 0x7C, 0xC6, 0xC6, 0xC6, 0xC6, 0xC6, 0x7C, 0, 0, 0, 0, 0],
      [0, 0, 0, 0, 0xDC, 0x66, 0x66, 0x66, 0x66, 0x7C, 0x60, 0xE0, 0, 0, 0, 0],
      [0, 0, 0, 0, 0x7E, 0xCC, 0xCC, 0xCC, 0xCC, 0x7C, 0x0C, 0x1E, 0, 0, 0, 0],
      [0, 0, 0, 0, 0xDC, 0x66, 0x60, 0x60, 0x60, 0x60, 0xF0, 0, 0, 0, 0, 0],
      [0, 0, 0, 0, 0x7C, 0xC6, 0x60, 0x3C, 0x06, 0xC6, 0x7C, 0, 0, 0, 0, 0],
      [0, 0, 0x30, 0x30, 0xFC, 0x30, 0x30, 0x30, 0x30, 0x36, 0x1C, 0, 0, 0, 0, 0],
      [0, 0, 0, 0, 0xCC, 0xCC, 0xCC, 0xCC, 0xCC, 0xCC, 0x7E, 0, 0, 0, 0, 0],
      [0, 0, 0, 0, 0xC3, 0xC3, 0xC3, 0x66, 0x3C, 0x18, 0x18, 0, 0, 0, 0, 0],
      [0, 0, 0, 0, 0xC3, 0xC3, 0xDB, 0xDB, 0xFF, 0x66, 0x66, 0, 0, 0, 0, 0],
      [0, 0, 0, 0, 0xC3, 0x66, 0x3C, 0x18, 0x3C, 0x66, 0xC3, 0, 0, 0, 0, 0],
      [0, 0, 0, 0, 0xC3, 0xC3, 0xC3, 0x66, 0x3C, 0x18, 0x18, 0x30, 0, 0, 0, 0],
      [0, 0, 0, 0, 0xFE, 0x8C, 0x18, 0x30, 0x60, 0xC6, 0xFE, 0, 0, 0, 0, 0],
      [0, 0, 0x0E, 0x18, 0x18, 0x18, 0x70, 0x18, 0x18, 0x18, 0x0E, 0, 0, 0, 0, 0],
      [0, 0, 0x18, 0x18, 0x18, 0x18, 0, 0x18, 0x18, 0x18, 0x18, 0, 0, 0, 0, 0],
      [0, 0, 0x70, 0x18, 0x18, 0x18, 0x0E, 0x18, 0x18, 0x18, 0x70, 0, 0, 0, 0, 0],
      [0, 0, 0x76, 0xDC, 0, 0, 0, 0, 0, 0, 0, 0, 0, 0, 0, 0],
      [0, 0, 0, 0, 0, 0, 0, 0, 0, 0, 0, 0, 0, 0, 0, 0]]"

section \<open>Drawing\<close>

definition put_pixel :: "nat \<Rightarrow> u32 \<Rightarrow> fb \<Rightarrow> fb" where
  "put_pixel i color f = f\<lparr>vram := (vram f)
     (4 * i := ucast color, 4 * i + 1 := ucast (drop_bit 8 color),
      4 * i + 2 := ucast (drop_bit 16 color), 4 * i + 3 := ucast (drop_bit 24 color))\<rparr>"

text \<open>\<open>memset\<close> and \<open>memmove\<close> on the pixel memory; the source of the move lies above the destination.\<close>

definition vram_clear :: "nat \<Rightarrow> nat \<Rightarrow> fb \<Rightarrow> fb" where
  "vram_clear a n f = f\<lparr>vram := (\<lambda>i. if a \<le> i \<and> i < a + n then 0 else vram f i)\<rparr>"

definition vram_move :: "nat \<Rightarrow> nat \<Rightarrow> nat \<Rightarrow> fb \<Rightarrow> fb" where
  "vram_move dst src n f = f\<lparr>vram := (\<lambda>i. if dst \<le> i \<and> i < dst + n then vram f (src + (i - dst)) else vram f i)\<rparr>"

definition palette_lookup :: "u32 \<Rightarrow> u32 \<Rightarrow> fb \<Rightarrow> nat \<times> fb" where
  "palette_lookup fg bg f =
     (case find (\<lambda>i. g_palette_fg f ! i = fg \<and> g_palette_bg f ! i = bg) [0..<g_palette_count f] of
        Some i \<Rightarrow> (i, f)
      | None \<Rightarrow>
          if g_palette_count f < FB_PALETTE_SIZE
          then let i = g_palette_count f
               in (i, f\<lparr>g_palette_count := i + 1, g_palette_fg := (g_palette_fg f)[i := fg], g_palette_bg := (g_palette_bg f)[i := bg]\<rparr>)
          else (0, f))"

definition fb_update_color :: "fb \<Rightarrow> fb" where
  "fb_update_color f =
     (let (color, f) = (if g_reverse f then palette_lookup (g_bg f) (g_fg f) f else palette_lookup (g_fg f) (g_bg f) f)
      in f\<lparr>g_cur_color := color\<rparr>)"

definition in_grid :: "int \<Rightarrow> int \<Rightarrow> fb \<Rightarrow> bool" where
  "in_grid row col f \<longleftrightarrow> 0 \<le> row \<and> row < g_rows f \<and> 0 \<le> col \<and> col < g_cols f"

definition fb_paint_cell :: "int \<Rightarrow> int \<Rightarrow> fb_cell \<Rightarrow> bool \<Rightarrow> fb \<Rightarrow> fb" where
  "fb_paint_cell row col cell show_cursor f =
     (if \<not> in_grid row col f then f
      else
        let uc = (of_char (cell_c cell) :: nat);
            uc = (if uc < FONT_FIRST \<or> uc > FONT_LAST then 32 else uc);
            k = cell_color cell mod FB_PALETTE_SIZE;
            inverted = (show_cursor \<and> row = g_cursor_y f \<and> col = g_cursor_x f);
            fg = (if inverted then g_palette_bg f ! k else g_palette_fg f ! k);
            bg = (if inverted then g_palette_fg f ! k else g_palette_bg f ! k);
            glyph = font8x16 ! (uc - FONT_FIRST);
            pixel = ((g_text_top f + nat row * FONT_HEIGHT) mod 2 ^ 32) * g_pitch_words f + nat col * FONT_WIDTH
        in fold (\<lambda>(y, x) f. put_pixel (pixel + y * g_pitch_words f + x) (if bit (glyph ! y) (7 - x) then fg else bg) f)
             (List.product [0..<FONT_HEIGHT] [0..<FONT_WIDTH]) f)"

definition fb_draw_cell :: "int \<Rightarrow> int \<Rightarrow> bool \<Rightarrow> fb \<Rightarrow> fb" where
  "fb_draw_cell row col show_cursor f = fb_paint_cell row col (g_text f (nat row) (nat col)) show_cursor f"

definition fb_repaint_cursor :: "fb \<Rightarrow> fb" where
  "fb_repaint_cursor f = (if g_cursor_visible f then fb_draw_cell (g_cursor_y f) (g_cursor_x f) True f else f)"

definition grid_cells :: "fb \<Rightarrow> (nat \<times> nat) list" where
  "grid_cells f = List.product [0..<nat (g_rows f)] [0..<nat (g_cols f)]"

definition fb_redraw_live :: "fb \<Rightarrow> fb" where
  "fb_redraw_live f =
     (let f = fold (\<lambda>(row, col). fb_draw_cell (int row) (int col) False) (grid_cells f) f
      in if g_cursor_visible f then fb_draw_cell (g_cursor_y f) (g_cursor_x f) True f else f)"

definition fb_redraw_history :: "fb \<Rightarrow> fb" where
  "fb_redraw_history f =
     fold (\<lambda>(row, col) f.
         let hist = g_hist_count f - g_view_back f - g_rows f + int row
         in if hist < 0 then fb_paint_cell (int row) (int col) \<lparr>cell_c = CHR '' '', cell_color = 0\<rparr> False f
            else let slot = (int (g_hist_head f) - g_hist_count f + hist) mod int FB_HISTORY_ROWS
                 in fb_paint_cell (int row) (int col) (g_history f (nat slot) col) False f)
       (grid_cells f) f"

definition history_push :: "fb \<Rightarrow> fb" where
  "history_push f =
     f\<lparr>g_history := (g_history f)(g_hist_head f :=
         (\<lambda>col. if int col < g_cols f then g_text f (nat (g_cursor_y f)) col else g_history f (g_hist_head f) col)),
       g_hist_head := (g_hist_head f + 1) mod FB_HISTORY_ROWS,
       g_hist_count := (if g_hist_count f < int FB_HISTORY_ROWS then g_hist_count f + 1 else g_hist_count f)\<rparr>"

definition fb_scroll_page :: "int \<Rightarrow> fb \<Rightarrow> fb" where
  "fb_scroll_page dir f =
     (let max_back = max 0 (g_hist_count f - g_rows f);
          back = g_view_back f + dir * g_rows f;
          back = (if back < 0 then 0 else back);
          back = (if back > max_back then max_back else back);
          f = f\<lparr>g_view_back := back\<rparr>
      in if back = 0 then fb_redraw_live f else fb_redraw_history f)"

definition fb_view_scrolled :: "fb \<Rightarrow> bool" where
  "fb_view_scrolled f \<longleftrightarrow> g_view_back f \<noteq> 0"

definition blank_cell :: "fb \<Rightarrow> fb_cell" where
  "blank_cell f = \<lparr>cell_c = CHR '' '', cell_color = g_cur_color f\<rparr>"

definition set_cell :: "nat \<Rightarrow> nat \<Rightarrow> fb_cell \<Rightarrow> fb \<Rightarrow> fb" where
  "set_cell row col cell f = f\<lparr>g_text := (g_text f)(row := (g_text f row)(col := cell))\<rparr>"

definition fb_scroll_up :: "fb \<Rightarrow> fb" where
  "fb_scroll_up f =
     (let text = (\<lambda>row col.
            if int col < g_cols f \<and> int row < g_rows f - 1 then g_text f (row + 1) col
            else if int col < g_cols f \<and> int row = g_rows f - 1 then blank_cell f
            else g_text f row col);
          bytes = g_text_top f * g_pitch_bytes f;
          line_bytes = FONT_HEIGHT * g_pitch_bytes f;
          total_bytes = nat (g_rows f - 1) * line_bytes;
          f = f\<lparr>g_text := text\<rparr>;
          f = vram_move bytes (bytes + line_bytes) total_bytes f
      in vram_clear (bytes + total_bytes) line_bytes f)"

text \<open>The part of \<open>g_text\<close> that is on the screen, all blank.\<close>

definition blank_text :: "fb \<Rightarrow> nat \<Rightarrow> nat \<Rightarrow> fb_cell" where
  "blank_text f = (\<lambda>row col. if int row < g_rows f \<and> int col < g_cols f then blank_cell f else g_text f row col)"

definition fb_clear :: "fb \<Rightarrow> fb" where
  "fb_clear f =
     (let f = f\<lparr>g_text := blank_text f\<rparr>;
          f = vram_clear 0 (g_pitch_bytes f * g_height f) f
      in f\<lparr>g_text_top := 0, g_cursor_x := 0, g_cursor_y := 0, g_hist_head := 0, g_hist_count := 0, g_view_back := 0\<rparr>)"

section \<open>Escape sequences\<close>

primrec csi_number :: "string \<Rightarrow> int \<Rightarrow> bool \<Rightarrow> int \<times> bool \<times> string" where
  "csi_number [] v seen = (v, seen, [])"
| "csi_number (c # s) v seen =
     (if is_digit_char c
      then let v = v * 10 + (int (of_char c) - 48) in csi_number s (if v > 9999 then 9999 else v) True
      else (v, seen, c # s))"

primrec ansi_parse_params :: "nat \<Rightarrow> int \<Rightarrow> string \<Rightarrow> int list" where
  "ansi_parse_params 0 dflt buf = []"
| "ansi_parse_params (Suc n) dflt buf =
     (if buf = [] then replicate (Suc n) dflt
      else let (v, seen, rest) = csi_number buf 0 False
           in (if seen then v else dflt) #
              (case rest of
                 [] \<Rightarrow> replicate n dflt
               | c # rest \<Rightarrow> if c = CHR '';'' then ansi_parse_params n dflt rest else replicate n dflt))"

definition ansi_erase_cells :: "int \<Rightarrow> int \<Rightarrow> int \<Rightarrow> fb \<Rightarrow> fb" where
  "ansi_erase_cells row col0 col1 f =
     (if row < 0 \<or> row \<ge> g_rows f then f
      else fold (\<lambda>c f. fb_paint_cell row (int c) (blank_cell f) False (set_cell (nat row) c (blank_cell f) f))
             (filter (\<lambda>c. col0 \<le> int c) [0..<nat (min col1 (g_cols f))]) f)"

definition ansi_alt_enter :: "fb \<Rightarrow> fb" where
  "ansi_alt_enter f =
     (if g_alt_active f then f
      else fb_clear (f\<lparr>g_alt_text := g_text f, g_alt_cursor_x := g_cursor_x f, g_alt_cursor_y := g_cursor_y f,
             g_alt_fg := g_fg f, g_alt_bg := g_bg f, g_alt_cur_color := g_cur_color f, g_alt_active := True\<rparr>))"

definition ansi_alt_exit :: "fb \<Rightarrow> fb" where
  "ansi_alt_exit f =
     (if \<not> g_alt_active f then f
      else
        let f = f\<lparr>g_alt_active := False\<rparr>;
            f = f\<lparr>g_text := blank_text f\<rparr>;
            f = vram_clear 0 (g_pitch_bytes f * g_height f) f
        in fb_redraw_live (f\<lparr>g_text := g_alt_text f, g_cursor_x := g_alt_cursor_x f, g_cursor_y := g_alt_cursor_y f,
             g_fg := g_alt_fg f, g_bg := g_alt_bg f, g_cur_color := g_alt_cur_color f\<rparr>))"

definition ansi_private :: "char \<Rightarrow> int \<Rightarrow> fb \<Rightarrow> fb" where
  "ansi_private final m f =
     (if final = CHR ''h''
      then if m = 25 then f\<lparr>g_cursor_visible := True\<rparr>
           else if m = 47 \<or> m = 1049 then ansi_alt_enter f
           else if m = 1048 then f\<lparr>g_alt_cursor_x := g_cursor_x f, g_alt_cursor_y := g_cursor_y f\<rparr>
           else f
      else if final = CHR ''l''
      then if m = 25 then f\<lparr>g_cursor_visible := False\<rparr>
           else if m = 47 \<or> m = 1049 then ansi_alt_exit f
           else if m = 1048 then f\<lparr>g_cursor_x := g_alt_cursor_x f, g_cursor_y := g_alt_cursor_y f\<rparr>
           else f
      else f)"

definition clamp :: "int \<Rightarrow> int \<Rightarrow> int" where
  "clamp v n = (let v = (if v < 0 then 0 else v) in if v \<ge> n then n - 1 else v)"

definition sgr_param :: "int \<Rightarrow> fb \<Rightarrow> fb" where
  "sgr_param p f =
     (if p = 0 then f\<lparr>g_reverse := False, g_fg := COLOR_FG, g_bg := COLOR_BG\<rparr>
      else if p = 7 then f\<lparr>g_reverse := True\<rparr>
      else if p = 27 then f\<lparr>g_reverse := False\<rparr>
      else if p = 1 \<or> p = 4 then f
      else if 30 \<le> p \<and> p \<le> 37 then f\<lparr>g_fg := ansi_colors ! nat (p - 30)\<rparr>
      else if 40 \<le> p \<and> p \<le> 47 then f\<lparr>g_bg := ansi_colors ! nat (p - 40)\<rparr>
      else if 90 \<le> p \<and> p \<le> 97 then f\<lparr>g_fg := ansi_colors ! nat (p - 90 + 8)\<rparr>
      else if 100 \<le> p \<and> p \<le> 107 then f\<lparr>g_bg := ansi_colors ! nat (p - 100 + 8)\<rparr>
      else if p = 39 then f\<lparr>g_fg := COLOR_FG\<rparr>
      else if p = 49 then f\<lparr>g_bg := COLOR_BG\<rparr>
      else f)"

definition erase_display :: "int \<Rightarrow> fb \<Rightarrow> fb" where
  "erase_display p f =
     (if p = 2 \<or> p = 3 then fold (\<lambda>r. ansi_erase_cells (int r) 0 (g_cols f)) [0..<nat (g_rows f)] f
      else if p = 1
      then fold (\<lambda>r. ansi_erase_cells (int r) 0 (if int r = g_cursor_y f then g_cursor_x f + 1 else g_cols f))
             [0..<nat (g_cursor_y f + 1)] f
      else fold (\<lambda>r. ansi_erase_cells (int r) 0 (g_cols f)) [nat (g_cursor_y f + 1)..<nat (g_rows f)]
             (ansi_erase_cells (g_cursor_y f) (g_cursor_x f) (g_cols f) f))"

definition erase_line :: "int \<Rightarrow> fb \<Rightarrow> fb" where
  "erase_line p f =
     (if p = 2 then ansi_erase_cells (g_cursor_y f) 0 (g_cols f) f
      else if p = 1 then ansi_erase_cells (g_cursor_y f) 0 (g_cursor_x f + 1) f
      else ansi_erase_cells (g_cursor_y f) (g_cursor_x f) (g_cols f) f)"

definition ansi_dispatch :: "char \<Rightarrow> int list \<Rightarrow> fb \<Rightarrow> fb" where
  "ansi_dispatch final params f =
     (let p = params ! 0
      in if final = CHR ''H'' \<or> final = CHR ''f''
         then f\<lparr>g_cursor_y := clamp (p - 1) (g_rows f), g_cursor_x := clamp (params ! 1 - 1) (g_cols f)\<rparr>
         else if final = CHR ''A'' then f\<lparr>g_cursor_y := (if g_cursor_y f - p < 0 then 0 else g_cursor_y f - p)\<rparr>
         else if final = CHR ''B'' then f\<lparr>g_cursor_y := (if g_cursor_y f + p \<ge> g_rows f then g_rows f - 1 else g_cursor_y f + p)\<rparr>
         else if final = CHR ''C'' then f\<lparr>g_cursor_x := (if g_cursor_x f + p \<ge> g_cols f then g_cols f - 1 else g_cursor_x f + p)\<rparr>
         else if final = CHR ''D'' then f\<lparr>g_cursor_x := (if g_cursor_x f - p < 0 then 0 else g_cursor_x f - p)\<rparr>
         else if final = CHR ''G'' \<or> final = CHR 0x60 then f\<lparr>g_cursor_x := clamp (p - 1) (g_cols f)\<rparr>
         else if final = CHR ''d'' then f\<lparr>g_cursor_y := clamp (p - 1) (g_rows f)\<rparr>
         else if final = CHR ''J'' then erase_display p f
         else if final = CHR ''K'' then erase_line p f
         else if final = CHR ''X'' then ansi_erase_cells (g_cursor_y f) (g_cursor_x f) (g_cursor_x f + p) f
         else if final = CHR ''m'' then fb_update_color (fold sgr_param params f)
         else f)"

definition ansi_exec :: "char \<Rightarrow> fb \<Rightarrow> fb" where
  "ansi_exec final f =
     (let params = ansi_parse_params 8 1 (g_csi_buf f)
      in if g_csi_private f then ansi_private final (params ! 0) f
         else fb_repaint_cursor (ansi_dispatch final params (fb_draw_cell (g_cursor_y f) (g_cursor_x f) False f)))"

definition ansi_consume :: "char \<Rightarrow> fb \<Rightarrow> bool \<times> fb" where
  "ansi_consume c f =
     (case g_ansi_state f of
        ANSI_NORMAL \<Rightarrow> if c = CHR 0x1B then (True, f\<lparr>g_ansi_state := ANSI_ESC\<rparr>) else (False, f)
      | ANSI_ESC \<Rightarrow>
          if c = CHR ''['' then (True, f\<lparr>g_ansi_state := ANSI_CSI, g_csi_buf := [], g_csi_private := False\<rparr>)
          else if c = CHR ''O'' then (True, f\<lparr>g_ansi_state := ANSI_SS3\<rparr>)
          else (True, f\<lparr>g_ansi_state := ANSI_NORMAL\<rparr>)
      | ANSI_SS3 \<Rightarrow> (True, f\<lparr>g_ansi_state := ANSI_NORMAL\<rparr>)
      | ANSI_CSI \<Rightarrow>
          if CHR 0x40 \<le> c \<and> c \<le> CHR 0x7E then (True, ansi_exec c (f\<lparr>g_ansi_state := ANSI_NORMAL\<rparr>))
          else if g_csi_buf f = [] \<and> c = CHR ''?'' then (True, f\<lparr>g_csi_private := True\<rparr>)
          else if is_digit_char c \<or> c = CHR '';''
          then (True, if length (g_csi_buf f) < 31 then f\<lparr>g_csi_buf := g_csi_buf f @ [c]\<rparr> else f)
          else (True, f\<lparr>g_ansi_state := ANSI_NORMAL\<rparr>))"

section \<open>Output\<close>

definition fb_newline :: "fb \<Rightarrow> fb" where
  "fb_newline f = (history_push f)\<lparr>g_cursor_x := 0, g_cursor_y := g_cursor_y f + 1\<rparr>"

text \<open>The switch of \<open>fb_putchar\<close> on a character other than the tab.\<close>

definition fb_glyph :: "char \<Rightarrow> fb \<Rightarrow> fb" where
  "fb_glyph c f =
     (if c = CHR 0x0A then fb_newline f
      else if c = CHR 0x0D then f\<lparr>g_cursor_x := 0\<rparr>
      else if c = CHR 0x08
      then if g_cursor_x f > 0
           then let f = f\<lparr>g_cursor_x := g_cursor_x f - 1\<rparr>;
                    f = set_cell (nat (g_cursor_y f)) (nat (g_cursor_x f)) (blank_cell f) f
                in fb_draw_cell (g_cursor_y f) (g_cursor_x f) False f
           else f
      else if FONT_FIRST \<le> of_char c \<and> of_char c \<le> FONT_LAST
      then let f = set_cell (nat (g_cursor_y f)) (nat (g_cursor_x f)) \<lparr>cell_c = c, cell_color = g_cur_color f\<rparr> f;
               f = fb_draw_cell (g_cursor_y f) (g_cursor_x f) False f
           in f\<lparr>g_cursor_x := g_cursor_x f + 1\<rparr>
      else f)"

definition fb_settle :: "fb \<Rightarrow> fb" where
  "fb_settle f =
     (let f = (if g_cursor_x f \<ge> g_cols f then fb_newline f else f);
          f = (if g_cursor_y f \<ge> g_rows f then (fb_scroll_up f)\<lparr>g_cursor_y := g_rows f - 1\<rparr> else f)
      in if g_cursor_visible f then fb_draw_cell (g_cursor_y f) (g_cursor_x f) True f else f)"

definition fb_begin_char :: "fb \<Rightarrow> fb" where
  "fb_begin_char f =
     (let f = (if g_view_back f \<noteq> 0 then fb_redraw_live (f\<lparr>g_view_back := 0\<rparr>) else f)
      in fb_draw_cell (g_cursor_y f) (g_cursor_x f) False f)"

text \<open>A character other than the tab, and the loop of the tab: one to eight spaces.\<close>

definition fb_putchar_plain :: "char \<Rightarrow> fb \<Rightarrow> fb" where
  "fb_putchar_plain c f =
     (let (consumed, f) = ansi_consume c f
      in if consumed then f else fb_settle (fb_glyph c (fb_begin_char f)))"

primrec fb_tab :: "nat \<Rightarrow> fb \<Rightarrow> fb" where
  "fb_tab 0 f = f"
| "fb_tab (Suc n) f =
     (let f = fb_putchar_plain (CHR '' '') f in if g_cursor_x f mod 8 \<noteq> 0 then fb_tab n f else f)"

definition fb_putchar :: "char \<Rightarrow> fb \<Rightarrow> fb" where
  "fb_putchar c f =
     (if c = CHR 0x09
      then let (consumed, f) = ansi_consume c f in if consumed then f else fb_tab 8 (fb_begin_char f)
      else fb_putchar_plain c f)"

section \<open>Set-up and graphics\<close>

record limine_framebuffer =
  lf_address :: u64
  lf_width :: u64
  lf_height :: u64
  lf_pitch :: u64
  lf_bpp :: u16
  lf_memory_model :: u8

definition fb_init :: "limine_framebuffer option \<Rightarrow> fb \<Rightarrow> int \<times> fb" where
  "fb_init lf f =
     (case lf of
        None \<Rightarrow> (-1, f)
      | Some lf \<Rightarrow>
          if lf_memory_model lf \<noteq> 1 \<or> lf_bpp lf \<noteq> 32 then (-1, f)
          else
            let width = unat (ucast (lf_width lf) :: u32); height = unat (ucast (lf_height lf) :: u32);
                cols = width div FONT_WIDTH; rows = height div FONT_HEIGHT;
                f = f\<lparr>g_fb_bpp := ucast (lf_bpp lf), g_pixels := lf_address lf, g_pitch_bytes := unat (lf_pitch lf),
                      g_pitch_words := unat (lf_pitch lf) div 4, g_width := width, g_height := height,
                      g_cols := int (if cols > FB_MAX_COLS then FB_MAX_COLS else cols),
                      g_rows := int (if rows > FB_MAX_ROWS then FB_MAX_ROWS else rows),
                      g_palette_count := 0\<rparr>;
                (color, f) = palette_lookup COLOR_FG COLOR_BG f
            in (0, fb_clear (f\<lparr>g_cur_color := color\<rparr>)))"

definition fb_set_color :: "u32 \<Rightarrow> u32 \<Rightarrow> fb \<Rightarrow> fb" where
  "fb_set_color fg bg f = fb_update_color (f\<lparr>g_fg := fg, g_bg := bg\<rparr>)"

definition fb_get_grid :: "fb \<Rightarrow> int \<times> int" where
  "fb_get_grid f = (g_cols f, g_rows f)"

definition fb_fill :: "u32 \<Rightarrow> fb \<Rightarrow> fb" where
  "fb_fill color f = fold (\<lambda>i. put_pixel i color) [0..<(g_pitch_bytes f div 4) * g_height f] f"

definition fb_set_text_top :: "nat \<Rightarrow> fb \<Rightarrow> fb" where
  "fb_set_text_top pixel_y f = f\<lparr>g_text_top := pixel_y\<rparr>"

text \<open>Coordinates are 32-bit; \<open>rgb\<close> is the image, \<open>None\<close> for NULL.\<close>

definition scaled :: "nat \<Rightarrow> nat \<Rightarrow> nat" where
  "scaled n scale = (n * scale div 2 ^ 16) mod 2 ^ 32"

definition blit_pixel :: "(nat \<Rightarrow> u8) \<Rightarrow> nat \<Rightarrow> u32" where
  "blit_pixel rgb i = (push_bit 16 (ucast (rgb i)) OR push_bit 8 (ucast (rgb (i + 1)))) OR ucast (rgb (i + 2))"

definition fb_blit_scaled :: "nat \<Rightarrow> nat \<Rightarrow> nat \<Rightarrow> nat \<Rightarrow> (nat \<Rightarrow> u8) option \<Rightarrow> nat \<Rightarrow> fb \<Rightarrow> fb" where
  "fb_blit_scaled x y w h rgb scale f =
     (case rgb of
        None \<Rightarrow> f
      | Some rgb \<Rightarrow>
          if g_pixels f = NULL \<or> scale = 0 then f
          else
            let out_w = scaled w scale; out_h = scaled h scale
            in if out_w = 0 \<or> out_h = 0 then f
               else
                 fold (\<lambda>oy f.
                     let sy = oy * h div out_h; sy = (if sy \<ge> h then h - 1 else sy); py = (y + oy) mod 2 ^ 32
                     in fold (\<lambda>ox f.
                            let sx = ox * w div out_w; sx = (if sx \<ge> w then w - 1 else sx)
                            in put_pixel (py * g_pitch_words f + x + ox) (blit_pixel rgb (sy * w * 3 + sx * 3)) f)
                          (takeWhile (\<lambda>ox. (x + ox) mod 2 ^ 32 < g_width f) [0..<out_w]) f)
                   (takeWhile (\<lambda>oy. (y + oy) mod 2 ^ 32 < g_height f) [0..<out_h]) f)"

text \<open>The width, height, depth, pitch and address.\<close>

definition fb_get_info :: "fb \<Rightarrow> nat \<times> nat \<times> u32 \<times> nat \<times> u64" where
  "fb_get_info f = (g_width f, g_height f, g_fb_bpp f, g_pitch_bytes f, g_pixels f)"

end
