(* ===== verification/Fb_Console.thy ===== *)
theory Fb_Console
  imports Fb
begin

text \<open>
  Proofs about the framebuffer console of theory \<open>Fb\<close>: every operation keeps the console well-formed and
  writes only inside the framebuffer, the effect of escape sequences without parameters, and the end of
  the tab loop.
\<close>

section \<open>The console stays inside the framebuffer\<close>

definition fb_end :: "fb \<Rightarrow> nat" where
  "fb_end f = g_pitch_bytes f * g_height f"

definition fb_geometry :: "fb \<Rightarrow> bool" where
  "fb_geometry f \<longleftrightarrow> 0 < g_rows f \<and> g_rows f \<le> int FB_MAX_ROWS \<and> 0 < g_cols f \<and> g_cols f \<le> int FB_MAX_COLS \<and>
     4 * g_pitch_words f \<le> g_pitch_bytes f \<and> nat (g_cols f) * FONT_WIDTH \<le> g_pitch_words f \<and> g_width f \<le> g_pitch_words f \<and>
     nat (g_rows f) * FONT_HEIGHT \<le> g_height f \<and> g_text_top f + nat (g_rows f) * FONT_HEIGHT \<le> g_height f \<and> g_height f < 2 ^ 32"

definition fb_inv :: "fb \<Rightarrow> bool" where
  "fb_inv f \<longleftrightarrow> fb_geometry f \<and> in_grid (g_cursor_y f) (g_cursor_x f) f \<and> in_grid (g_alt_cursor_y f) (g_alt_cursor_x f) f \<and>
     length (g_csi_buf f) \<le> 31 \<and> length (g_palette_fg f) = FB_PALETTE_SIZE \<and> length (g_palette_bg f) = FB_PALETTE_SIZE \<and>
     g_palette_count f \<le> FB_PALETTE_SIZE \<and> g_cur_color f < FB_PALETTE_SIZE \<and> g_alt_cur_color f < FB_PALETTE_SIZE \<and>
     g_hist_head f < FB_HISTORY_ROWS \<and> 0 \<le> g_hist_count f \<and> g_hist_count f \<le> int FB_HISTORY_ROWS \<and> 0 \<le> g_view_back f"

text \<open>Operations that change only the text and pixels inside the framebuffer.\<close>

definition edits :: "fb \<Rightarrow> fb \<Rightarrow> bool" where
  "edits f f' \<longleftrightarrow> (\<exists>v t. f' = f\<lparr>vram := v, g_text := t\<rparr> \<and> (\<forall>i \<ge> fb_end f. v i = vram f i))"

lemma edits_fields:
  assumes "edits f f'"
  shows "fb_end f' = fb_end f" "fb_geometry f' = fb_geometry f" "fb_inv f' = fb_inv f" "in_grid r c f' = in_grid r c f"
    "g_rows f' = g_rows f" "g_cols f' = g_cols f" "g_cursor_x f' = g_cursor_x f" "g_cursor_y f' = g_cursor_y f"
    "g_pitch_words f' = g_pitch_words f" "g_cursor_visible f' = g_cursor_visible f" "g_width f' = g_width f"
    "g_height f' = g_height f" "g_pitch_bytes f' = g_pitch_bytes f" "g_text_top f' = g_text_top f"
    "g_alt_cursor_x f' = g_alt_cursor_x f" "g_alt_cursor_y f' = g_alt_cursor_y f"
proof -
  obtain v t where f': "f' = f\<lparr>vram := v, g_text := t\<rparr>" using assms unfolding edits_def by blast
  show "fb_end f' = fb_end f" "fb_geometry f' = fb_geometry f" "fb_inv f' = fb_inv f" "in_grid r c f' = in_grid r c f"
    "g_rows f' = g_rows f" "g_cols f' = g_cols f" "g_cursor_x f' = g_cursor_x f" "g_cursor_y f' = g_cursor_y f"
    "g_pitch_words f' = g_pitch_words f" "g_cursor_visible f' = g_cursor_visible f" "g_width f' = g_width f"
    "g_height f' = g_height f" "g_pitch_bytes f' = g_pitch_bytes f" "g_text_top f' = g_text_top f"
    "g_alt_cursor_x f' = g_alt_cursor_x f" "g_alt_cursor_y f' = g_alt_cursor_y f"
    unfolding f' by (simp_all add: fb_end_def fb_geometry_def fb_inv_def in_grid_def)
qed

lemma edits_vram: "edits f f' \<Longrightarrow> fb_end f \<le> i \<Longrightarrow> vram f' i = vram f i"
  by (auto simp: edits_def)

lemma editsI: "(\<And>i. fb_end f \<le> i \<Longrightarrow> v i = vram f i) \<Longrightarrow> edits f (f\<lparr>vram := v, g_text := t\<rparr>)"
  by (auto simp: edits_def)

lemma edits_refl [simp]: "edits f f"
  using editsI [of f "vram f" "g_text f"] by simp

lemma edits_trans:
  assumes "edits f g" "edits g h"
  shows "edits f h"
proof -
  obtain v t where g: "g = f\<lparr>vram := v, g_text := t\<rparr>" "\<forall>i \<ge> fb_end f. v i = vram f i" using assms(1) unfolding edits_def by blast
  obtain w u where h: "h = g\<lparr>vram := w, g_text := u\<rparr>" "\<forall>i \<ge> fb_end g. w i = vram g i" using assms(2) unfolding edits_def by blast
  have "h = f\<lparr>vram := w, g_text := u\<rparr>" using g(1) h(1) by simp
  then show ?thesis using g h edits_fields(1) [OF assms(1)] editsI [of f w u] by simp
qed

lemma edits_fold:
  assumes "\<And>x g. x \<in> set xs \<Longrightarrow> edits f g \<Longrightarrow> edits g (op x g)"
  shows "edits f (fold op xs f)"
proof -
  have "edits f g \<Longrightarrow> set ys \<subseteq> set xs \<Longrightarrow> edits f (fold op ys g)" for ys g
  proof (induction ys arbitrary: g)
    case (Cons y ys)
    then show ?case using assms [of y g] by (simp add: edits_trans)
  qed simp
  then show ?thesis by simp
qed

lemma edits_put_pixel: "4 * i + 3 < fb_end f \<Longrightarrow> edits f (put_pixel i c f)"
  using editsI [of f "vram (put_pixel i c f)" "g_text f"] by (simp add: put_pixel_def)

lemma edits_set_cell: "edits f (set_cell r c x f)"
  using editsI [of f "vram f" "g_text (set_cell r c x f)"] by (simp add: set_cell_def)

lemma edits_text: "edits f (f\<lparr>g_text := t\<rparr>)"
  using editsI [of f "vram f" t] by simp

lemma edits_vram_clear: "a + n \<le> fb_end f \<Longrightarrow> edits f (vram_clear a n f)"
  using editsI [of f "vram (vram_clear a n f)" "g_text f"] by (simp add: vram_clear_def)

lemma edits_vram_move: "a + n \<le> fb_end f \<Longrightarrow> edits f (vram_move a b n f)"
  using editsI [of f "vram (vram_move a b n f)" "g_text f"] by (simp add: vram_move_def)

lemma pixel_bytes: "i < (k :: nat) \<Longrightarrow> k \<le> n \<Longrightarrow> 4 * n \<le> e \<Longrightarrow> 4 * i + 4 \<le> e"
  by simp

lemma cell_pixel_bound:
  assumes "fb_geometry f" "in_grid row col f" "y < 16" "x < 8"
  shows "4 * (((g_text_top f + nat row * FONT_HEIGHT) mod 2 ^ 32) * g_pitch_words f + nat col * FONT_WIDTH + y * g_pitch_words f + x) + 3
    < fb_end f"
proof -
  define p where "p = g_pitch_words f"
  define r where "r = g_text_top f + nat row * 16"
  have g: "nat row < nat (g_rows f)" "nat col < nat (g_cols f)" using assms(2) by (auto simp: in_grid_def)
  have h: "r + 16 \<le> g_height f" "g_height f < 2 ^ 32" using g(1) assms(1) by (auto simp: fb_geometry_def r_def)
  have c: "nat col * 8 + x < p" using g(2) assms(1,4) by (auto simp: fb_geometry_def p_def)
  have m: "r mod 2 ^ 32 = r" using h by simp
  have "r * p + nat col * 8 + y * p + x < (r + y + 1) * p" using c by (simp add: algebra_simps)
  moreover have "(r + y + 1) * p \<le> g_height f * p" using h assms(3) by (intro mult_le_mono1) simp
  moreover have "4 * (g_height f * p) \<le> fb_end f"
    using assms(1) mult_le_mono2 [of "4 * p" "g_pitch_bytes f" "g_height f"] by (simp add: fb_geometry_def fb_end_def p_def algebra_simps)
  ultimately have "4 * (r * p + nat col * 8 + y * p + x) + 4 \<le> fb_end f"
    by (rule pixel_bytes)
  then have "4 * ((r mod 2 ^ 32) * p + nat col * 8 + y * p + x) + 3 < fb_end f" unfolding m by linarith
  then show ?thesis unfolding r_def p_def .
qed

lemma edits_paint_cell:
  assumes "fb_geometry f"
  shows "edits f (fb_paint_cell row col cell sc f)"
proof (cases "in_grid row col f")
  case True
  have "edits f (fold (\<lambda>(y, x) g. put_pixel (((g_text_top f + nat row * FONT_HEIGHT) mod 2 ^ 32) * g_pitch_words f + nat col * FONT_WIDTH
      + y * g_pitch_words g + x) (k y x) g) (List.product [0..<FONT_HEIGHT] [0..<FONT_WIDTH]) f)" for k
  proof (rule edits_fold)
    fix yx g assume m: "yx \<in> set (List.product [0..<FONT_HEIGHT] [0..<FONT_WIDTH])" and e: "edits f g"
    obtain y x where yx: "yx = (y, x)" by (cases yx)
    have b: "y < 16" "x < 8" using m by (auto simp: yx)
    show "edits g ((\<lambda>(y, x) g. put_pixel (((g_text_top f + nat row * FONT_HEIGHT) mod 2 ^ 32) * g_pitch_words f + nat col * FONT_WIDTH
      + y * g_pitch_words g + x) (k y x) g) yx g)"
      using cell_pixel_bound [OF assms True b] edits_fields(1,9) [OF e] by (simp add: yx edits_put_pixel)
  qed
  then show ?thesis using True by (simp add: fb_paint_cell_def Let_def)
qed (simp add: fb_paint_cell_def)

lemma edits_draw_cell: "fb_geometry f \<Longrightarrow> edits f (fb_draw_cell row col sc f)"
  unfolding fb_draw_cell_def by (rule edits_paint_cell)

lemma edits_repaint_cursor: "fb_geometry f \<Longrightarrow> edits f (fb_repaint_cursor f)"
  by (simp add: fb_repaint_cursor_def edits_draw_cell)

lemma edits_redraw_live:
  assumes "fb_geometry f"
  shows "edits f (fb_redraw_live f)"
proof -
  let ?g = "fold (\<lambda>(row, col). fb_draw_cell (int row) (int col) False) (grid_cells f) f"
  have e: "edits f ?g"
    by (rule edits_fold) (auto split: prod.splits intro: edits_draw_cell simp: edits_fields(2) assms)
  have "edits ?g (if g_cursor_visible ?g then fb_draw_cell (g_cursor_y ?g) (g_cursor_x ?g) True ?g else ?g)"
    using edits_fields(2) [OF e] assms by (simp add: edits_draw_cell)
  with e show ?thesis unfolding fb_redraw_live_def Let_def by (rule edits_trans)
qed

lemma edits_redraw_history: "fb_geometry f \<Longrightarrow> edits f (fb_redraw_history f)"
  unfolding fb_redraw_history_def
  by (rule edits_fold) (auto split: prod.splits intro: edits_paint_cell simp: edits_fields(2) Let_def)

lemma edits_erase_cells:
  assumes "fb_geometry f"
  shows "edits f (ansi_erase_cells row a b f)"
proof -
  have "edits g (fb_paint_cell row (int c) (blank_cell g) False (set_cell (nat row) c (blank_cell g) g))" if "edits f g" for c g
  proof (rule edits_trans [OF edits_set_cell])
    have "fb_geometry (set_cell (nat row) c (blank_cell g) g)" using edits_fields(2) [OF edits_set_cell] edits_fields(2) [OF that] assms by simp
    then show "edits (set_cell (nat row) c (blank_cell g) g)
      (fb_paint_cell row (int c) (blank_cell g) False (set_cell (nat row) c (blank_cell g) g))" by (rule edits_paint_cell)
  qed
  then show ?thesis by (auto simp: ansi_erase_cells_def intro: edits_fold)
qed

lemma edits_erase_rows:
  assumes "fb_geometry f" "edits f g"
  shows "edits f (fold (\<lambda>r. ansi_erase_cells (int r) 0 (b r)) rs g)"
proof -
  have "edits g (fold (\<lambda>r. ansi_erase_cells (int r) 0 (b r)) rs g)"
    by (rule edits_fold) (simp add: edits_erase_cells edits_fields(2) edits_fields(2) [OF assms(2)] assms(1))
  with assms(2) show ?thesis by (rule edits_trans)
qed

lemma edits_erase_display: "fb_geometry f \<Longrightarrow> edits f (erase_display p f)"
  by (simp add: erase_display_def edits_erase_rows edits_erase_cells)

lemma edits_erase_line: "fb_geometry f \<Longrightarrow> edits f (erase_line p f)"
  by (simp add: erase_line_def edits_erase_cells)

lemma edits_scroll_up:
  assumes "fb_geometry f"
  shows "edits f (fb_scroll_up f)"
proof -
  let ?b = "g_text_top f * g_pitch_bytes f" and ?l = "16 * g_pitch_bytes f" and ?n = "nat (g_rows f - 1)"
  have "g_text_top f + (?n * 16 + 16) \<le> g_height f" using assms by (auto simp: fb_geometry_def)
  then have "(g_text_top f + (?n * 16 + 16)) * g_pitch_bytes f \<le> fb_end f" by (simp add: fb_end_def mult.commute)
  then have "?b + ?n * ?l + ?l \<le> fb_end f" by (simp add: algebra_simps)
  moreover define g where "g = f\<lparr>g_text := g_text (fb_scroll_up f)\<rparr>"
  have up: "fb_scroll_up f = vram_clear (?b + ?n * ?l) ?l (vram_move ?b (?b + ?l) (?n * ?l) g)"
    by (simp add: fb_scroll_up_def Let_def g_def vram_move_def vram_clear_def)
  have e: "edits f g" unfolding g_def by (rule edits_text)
  ultimately have e2: "edits f (vram_move ?b (?b + ?l) (?n * ?l) g)"
    using edits_trans [OF e edits_vram_move] edits_fields(1) [OF e] by simp
  show ?thesis unfolding up using edits_trans [OF e2 edits_vram_clear] edits_fields(1) [OF e2] \<open>?b + ?n * ?l + ?l \<le> fb_end f\<close> by simp
qed

definition fb_dims :: "fb \<Rightarrow> nat \<times> nat \<times> nat \<times> nat \<times> int \<times> int" where
  "fb_dims f = (g_pitch_bytes f, g_pitch_words f, g_width f, g_height f, g_cols f, g_rows f)"

text \<open>From a well-formed console to a well-formed one, with nothing written behind the framebuffer.\<close>

definition fb_safe :: "fb \<Rightarrow> fb \<Rightarrow> bool" where
  "fb_safe f f' \<longleftrightarrow> (fb_inv f \<longrightarrow> fb_inv f' \<and> fb_dims f' = fb_dims f \<and> (\<forall>i \<ge> fb_end f. vram f' i = vram f i))"

lemma fb_end_dims: "fb_dims f' = fb_dims f \<Longrightarrow> fb_end f' = fb_end f"
  by (simp add: fb_dims_def fb_end_def)

lemma fb_safe_refl [simp]: "fb_safe f f"
  by (simp add: fb_safe_def)

lemma fb_safe_trans:
  assumes "fb_safe f g" "fb_safe g h"
  shows "fb_safe f h"
  unfolding fb_safe_def
proof
  assume "fb_inv f"
  then have g: "fb_inv g" "fb_dims g = fb_dims f" "\<forall>i \<ge> fb_end f. vram g i = vram f i" using assms(1) by (simp_all add: fb_safe_def)
  then have "fb_inv h" "fb_dims h = fb_dims g" "\<forall>i \<ge> fb_end g. vram h i = vram g i" using assms(2) by (simp_all add: fb_safe_def)
  with g fb_end_dims [OF g(2)] show "fb_inv h \<and> fb_dims h = fb_dims f \<and> (\<forall>i \<ge> fb_end f. vram h i = vram f i)" by simp
qed

lemma fb_inv_geometry: "fb_inv f \<Longrightarrow> fb_geometry f"
  by (simp add: fb_inv_def)

lemma edits_safe: "(fb_inv f \<Longrightarrow> edits f f') \<Longrightarrow> fb_safe f f'"
  unfolding fb_safe_def
proof
  assume "fb_inv f \<Longrightarrow> edits f f'" "fb_inv f"
  then have i: "fb_inv f" and e: "edits f f'" by simp_all
  show "fb_inv f' \<and> fb_dims f' = fb_dims f \<and> (\<forall>i \<ge> fb_end f. vram f' i = vram f i)"
    using i edits_fields(3,5,6,9,11,12,13) [OF e] edits_vram [OF e] by (simp add: fb_dims_def)
qed

text \<open>Updates of the fields the invariant bounds.\<close>

lemma fb_safe_cursor:
  assumes "fb_inv f \<Longrightarrow> in_grid y x f"
  shows "fb_safe f (f\<lparr>g_cursor_y := y, g_cursor_x := x\<rparr>)"
  using assms by (auto simp: fb_safe_def fb_inv_def fb_geometry_def in_grid_def fb_dims_def)

lemma fb_safe_flags [simp]:
  "fb_safe f (f\<lparr>g_cursor_visible := b\<rparr>)" "fb_safe f (f\<lparr>g_reverse := b\<rparr>)" "fb_safe f (f\<lparr>g_fg := c\<rparr>)" "fb_safe f (f\<lparr>g_bg := c\<rparr>)"
  "fb_safe f (f\<lparr>g_reverse := b, g_fg := c, g_bg := d\<rparr>)" "fb_safe f (f\<lparr>g_ansi_state := a\<rparr>)" "fb_safe f (f\<lparr>g_csi_private := b\<rparr>)"
  "fb_safe f (f\<lparr>g_ansi_state := a, g_csi_buf := [], g_csi_private := b\<rparr>)" "fb_safe f (f\<lparr>g_fg := c, g_bg := d\<rparr>)"
  by (simp_all add: fb_safe_def fb_inv_def fb_geometry_def in_grid_def fb_dims_def)

lemma palette_lookup_safe:
  assumes "fb_inv f" "palette_lookup fg bg f = (i, f')"
  shows "fb_safe f (f'\<lparr>g_cur_color := i\<rparr>)"
proof (cases "find (\<lambda>i. g_palette_fg f ! i = fg \<and> g_palette_bg f ! i = bg) [0..<g_palette_count f]")
  case None
  then show ?thesis using assms
    by (auto simp: palette_lookup_def Let_def fb_safe_def fb_inv_def fb_geometry_def in_grid_def fb_dims_def split: if_splits)
next
  case (Some j)
  then have "i = j" "f' = f" using assms(2) by (simp_all add: palette_lookup_def)
  moreover have "j < g_palette_count f" using Some by (simp add: find_upt_Some)
  ultimately show ?thesis using assms
    by (auto simp: fb_safe_def fb_inv_def fb_geometry_def in_grid_def fb_dims_def)
qed

lemma fb_update_color_safe: "fb_safe f (fb_update_color f)"
proof (cases "fb_inv f")
  case True
  then show ?thesis using palette_lookup_safe [OF True] by (auto simp: fb_update_color_def split: prod.splits)
qed (simp add: fb_safe_def)

lemma sgr_safe: "fb_safe f (fold sgr_param ps f)"
proof (induction ps arbitrary: f)
  case (Cons p ps)
  have "fb_safe f (sgr_param p f)" by (simp add: sgr_param_def)
  with Cons show ?case by (auto intro: fb_safe_trans)
qed simp

lemma fb_clear_safe: "fb_safe f (fb_clear f)"
proof -
  let ?g = "f\<lparr>g_text := blank_text f\<rparr>"
  let ?h = "vram_clear 0 (g_pitch_bytes ?g * g_height ?g) ?g"
  have "edits f ?h" by (rule edits_trans [OF edits_text edits_vram_clear]) (simp add: fb_end_def)
  then have "fb_safe f ?h" by (rule edits_safe)
  moreover have "fb_safe ?h (?h\<lparr>g_text_top := 0, g_cursor_x := 0, g_cursor_y := 0, g_hist_head := 0, g_hist_count := 0, g_view_back := 0\<rparr>)"
    by (auto simp: fb_safe_def fb_inv_def fb_geometry_def in_grid_def fb_dims_def)
  ultimately show ?thesis unfolding fb_clear_def Let_def by (rule fb_safe_trans)
qed

lemma alt_enter_safe: "fb_safe f (ansi_alt_enter f)"
proof -
  have "fb_safe f (f\<lparr>g_alt_text := t, g_alt_cursor_x := g_cursor_x f, g_alt_cursor_y := g_cursor_y f,
             g_alt_fg := c, g_alt_bg := d, g_alt_cur_color := g_cur_color f, g_alt_active := True\<rparr>)" for t c d
    by (simp add: fb_safe_def fb_inv_def fb_geometry_def in_grid_def fb_dims_def)
  from fb_safe_trans [OF this fb_clear_safe] show ?thesis by (simp add: ansi_alt_enter_def)
qed

lemma alt_exit_safe: "fb_safe f (ansi_alt_exit f)"
proof -
  define g where "g = f\<lparr>g_alt_active := False, g_text := blank_text (f\<lparr>g_alt_active := False\<rparr>)\<rparr>"
  define h where "h = vram_clear 0 (g_pitch_bytes g * g_height g) g"
  define k where "k = h\<lparr>g_text := g_alt_text h, g_cursor_x := g_alt_cursor_x h, g_cursor_y := g_alt_cursor_y h,
             g_fg := g_alt_fg h, g_bg := g_alt_bg h, g_cur_color := g_alt_cur_color h\<rparr>"
  have "fb_safe f g" by (simp add: g_def fb_safe_def fb_inv_def fb_geometry_def in_grid_def fb_dims_def)
  moreover have "fb_safe g h" unfolding h_def by (rule edits_safe [OF edits_vram_clear]) (simp add: fb_end_def)
  moreover have "fb_safe h k" by (simp add: k_def fb_safe_def fb_inv_def fb_geometry_def in_grid_def fb_dims_def)
  moreover have "fb_safe k (fb_redraw_live k)" by (intro edits_safe edits_redraw_live fb_inv_geometry)
  ultimately have "fb_safe f (fb_redraw_live k)" by (blast intro: fb_safe_trans)
  then show ?thesis by (simp add: ansi_alt_exit_def Let_def g_def h_def k_def)
qed

lemma ansi_private_safe: "fb_safe f (ansi_private final m f)"
proof -
  have "fb_safe f (f\<lparr>g_alt_cursor_x := g_cursor_x f, g_alt_cursor_y := g_cursor_y f\<rparr>)"
    "fb_safe f (f\<lparr>g_cursor_x := g_alt_cursor_x f, g_cursor_y := g_alt_cursor_y f\<rparr>)"
    by (simp_all add: fb_safe_def fb_inv_def fb_geometry_def in_grid_def fb_dims_def)
  then show ?thesis by (simp add: ansi_private_def alt_enter_safe alt_exit_safe)
qed

lemma csi_number_bounds:
  assumes "csi_number s v seen = (v', seen', rest)" "0 \<le> v" "v \<le> 9999"
  shows "0 \<le> v' \<and> v' \<le> 9999"
  using assms
proof (induction s arbitrary: v seen)
  case (Cons c s)
  have "0 \<le> int (of_char c) - 48" if "is_digit_char c" using that by (simp add: is_digit_char_def less_eq_char_def)
  with Cons.prems show ?case
    by (cases "is_digit_char c") (auto simp: Let_def split: if_splits elim!: Cons.IH)
qed simp

lemma ansi_parse_params_bounds:
  assumes d: "0 \<le> d \<and> d \<le> 9999"
  shows "length (ansi_parse_params n d buf) = n \<and> (\<forall>p \<in> set (ansi_parse_params n d buf). 0 \<le> p \<and> p \<le> 9999)"
proof (induction n arbitrary: buf)
  case (Suc n)
  obtain v seen rest where c: "csi_number buf 0 False = (v, seen, rest)" by (cases "csi_number buf 0 False") auto
  have r: "length (case rest of [] \<Rightarrow> replicate n d | c # rest \<Rightarrow> if c = CHR '';'' then ansi_parse_params n d rest else replicate n d) = n"
    "\<forall>p \<in> set (case rest of [] \<Rightarrow> replicate n d | c # rest \<Rightarrow> if c = CHR '';'' then ansi_parse_params n d rest else replicate n d).
       0 \<le> p \<and> p \<le> 9999"
    using Suc [of "tl rest"] d by (cases rest; simp)+
  moreover have "0 \<le> v \<and> v \<le> 9999" using csi_number_bounds [OF c] by simp
  ultimately show ?case using c d by (cases "buf = []") simp_all
qed simp

lemma in_grid_cong: "g_rows f' = g_rows f \<Longrightarrow> g_cols f' = g_cols f \<Longrightarrow> in_grid r c f' = in_grid r c f"
  by (simp add: in_grid_def)

lemma clamp_grid: "0 < n \<Longrightarrow> 0 \<le> clamp v n \<and> clamp v n < n"
  by (simp add: clamp_def Let_def)

lemma fb_safe_cursor_x: "(fb_inv f \<Longrightarrow> 0 \<le> x \<and> x < g_cols f) \<Longrightarrow> fb_safe f (f\<lparr>g_cursor_x := x\<rparr>)"
  using fb_safe_cursor [of f "g_cursor_y f" x] by (auto simp: fb_inv_def in_grid_def)

lemma fb_safe_cursor_y: "(fb_inv f \<Longrightarrow> 0 \<le> y \<and> y < g_rows f) \<Longrightarrow> fb_safe f (f\<lparr>g_cursor_y := y\<rparr>)"
  using fb_safe_cursor [of f y "g_cursor_x f"] by (auto simp: fb_inv_def in_grid_def)

lemma fb_inv_grid:
  assumes "fb_inv f"
  shows "0 < g_rows f" "0 < g_cols f" "0 \<le> g_cursor_x f" "g_cursor_x f < g_cols f" "0 \<le> g_cursor_y f" "g_cursor_y f < g_rows f"
  using assms by (simp_all add: fb_inv_def fb_geometry_def in_grid_def)

lemma fb_safe_if: "(b \<Longrightarrow> fb_safe f x) \<Longrightarrow> (\<not> b \<Longrightarrow> fb_safe f y) \<Longrightarrow> fb_safe f (if b then x else y)"
  by simp

lemma fb_safe_snd_if:
  "(b \<Longrightarrow> fb_safe f (snd x)) \<Longrightarrow> (\<not> b \<Longrightarrow> fb_safe f (snd y)) \<Longrightarrow> fb_safe f (snd (if b then x else y))"
  by simp

lemma fb_safe_moves:
  assumes "0 \<le> p"
  shows "fb_safe f (f\<lparr>g_cursor_y := clamp a (g_rows f), g_cursor_x := clamp b (g_cols f)\<rparr>)"
    "fb_safe f (f\<lparr>g_cursor_y := clamp a (g_rows f)\<rparr>)" "fb_safe f (f\<lparr>g_cursor_x := clamp a (g_cols f)\<rparr>)"
    "fb_safe f (f\<lparr>g_cursor_y := (if g_cursor_y f - p < 0 then 0 else g_cursor_y f - p)\<rparr>)"
    "fb_safe f (f\<lparr>g_cursor_y := (if g_cursor_y f + p \<ge> g_rows f then g_rows f - 1 else g_cursor_y f + p)\<rparr>)"
    "fb_safe f (f\<lparr>g_cursor_x := (if g_cursor_x f + p \<ge> g_cols f then g_cols f - 1 else g_cursor_x f + p)\<rparr>)"
    "fb_safe f (f\<lparr>g_cursor_x := (if g_cursor_x f - p < 0 then 0 else g_cursor_x f - p)\<rparr>)"
proof -
  note g = fb_inv_grid [of f]
  show "fb_safe f (f\<lparr>g_cursor_y := clamp a (g_rows f), g_cursor_x := clamp b (g_cols f)\<rparr>)"
    by (rule fb_safe_cursor) (use g clamp_grid in \<open>simp add: in_grid_def\<close>)
qed (rule fb_safe_cursor_y fb_safe_cursor_x; use fb_inv_grid [of f] clamp_grid assms in simp)+

lemma fb_safe_erase:
  "fb_safe f (erase_display p f)" "fb_safe f (erase_line p f)" "fb_safe f (ansi_erase_cells r a b f)"
  by (rule edits_safe, erule fb_inv_geometry [THEN edits_erase_display] fb_inv_geometry [THEN edits_erase_line]
      fb_inv_geometry [THEN edits_erase_cells])+

lemma ansi_dispatch_safe:
  assumes "0 \<le> params ! 0"
  shows "fb_safe f (ansi_dispatch final params f)"
  unfolding ansi_dispatch_def Let_def
  by (intro fb_safe_if fb_safe_moves [OF assms] fb_safe_erase fb_safe_refl fb_safe_trans [OF sgr_safe fb_update_color_safe])

lemma ansi_exec_safe: "fb_safe f (ansi_exec final f)"
proof -
  define ps where "ps = ansi_parse_params 8 1 (g_csi_buf f)"
  have "length ps = 8" "\<forall>p \<in> set ps. 0 \<le> p" using ansi_parse_params_bounds [of 1 8 "g_csi_buf f"] by (simp_all add: ps_def)
  then have p: "0 \<le> ps ! 0" by simp
  have "fb_safe f (fb_draw_cell (g_cursor_y f) (g_cursor_x f) False f)" by (intro edits_safe edits_draw_cell fb_inv_geometry)
  also have d: "fb_safe \<dots> (ansi_dispatch final ps \<dots>)" by (rule ansi_dispatch_safe [OF p])
  finally (fb_safe_trans) have "fb_safe f (ansi_dispatch final ps (fb_draw_cell (g_cursor_y f) (g_cursor_x f) False f))" .
  also have "fb_safe \<dots> (fb_repaint_cursor \<dots>)" by (intro edits_safe edits_repaint_cursor fb_inv_geometry)
  finally (fb_safe_trans) show ?thesis by (simp add: ansi_exec_def ps_def [symmetric] ansi_private_safe)
qed

lemma ansi_consume_safe: "fb_safe f (snd (ansi_consume c f))"
proof -
  have a: "fb_safe f (f\<lparr>g_csi_buf := g_csi_buf f @ [c]\<rparr>)" if "length (g_csi_buf f) < 31"
    using that by (simp add: fb_safe_def fb_inv_def fb_geometry_def in_grid_def fb_dims_def)
  have b: "fb_safe f (ansi_exec c (f\<lparr>g_ansi_state := ANSI_NORMAL\<rparr>))" using fb_safe_trans [OF fb_safe_flags(6) ansi_exec_safe] .
  show ?thesis
    by (cases "g_ansi_state f"; simp only: ansi_consume_def ansi_state.case)
      ((intro fb_safe_snd_if)?; simp only: snd_conv; intro fb_safe_if a b fb_safe_flags fb_safe_refl; assumption?)+
qed

text \<open>Between a glyph and the wrap-around the cursor may stand one column or one row outside the grid.\<close>

definition fb_loose :: "fb \<Rightarrow> bool" where
  "fb_loose f \<longleftrightarrow> fb_inv (f\<lparr>g_cursor_x := 0, g_cursor_y := 0\<rparr>) \<and> 0 \<le> g_cursor_x f \<and> g_cursor_x f \<le> g_cols f \<and>
     0 \<le> g_cursor_y f \<and> g_cursor_y f \<le> g_rows f \<and> (g_cursor_x f < g_cols f \<or> g_cursor_y f < g_rows f)"

text \<open>From any console whose cursor is loose in this sense.\<close>

definition fb_step :: "fb \<Rightarrow> fb \<Rightarrow> bool" where
  "fb_step f f' \<longleftrightarrow> fb_dims f' = fb_dims f \<and> (\<forall>i \<ge> fb_end f. vram f' i = vram f i)"

lemma fb_step_trans: "fb_step f g \<Longrightarrow> fb_step g h \<Longrightarrow> fb_step f h"
  using fb_end_dims [of g f] by (simp add: fb_step_def)

lemma fb_safe_step: "fb_safe f f' \<Longrightarrow> fb_inv f \<Longrightarrow> fb_inv f' \<and> fb_step f f'"
  by (simp add: fb_safe_def fb_step_def)

lemma edits_step: "edits f f' \<Longrightarrow> fb_step f f'"
  using edits_fields(5,6,9,11,12,13) [of f f'] edits_vram [of f f'] by (simp add: fb_step_def fb_dims_def)

lemma edits_loose: "edits f f' \<Longrightarrow> fb_loose f \<Longrightarrow> fb_loose f'"
proof -
  assume e: "edits f f'" and l: "fb_loose f"
  obtain v t where f': "f' = f\<lparr>vram := v, g_text := t\<rparr>" using e unfolding edits_def by blast
  show ?thesis using l unfolding f' by (simp add: fb_loose_def fb_inv_def fb_geometry_def in_grid_def)
qed

lemma fb_newline_loose:
  assumes "fb_loose f" "g_cursor_y f < g_rows f"
  shows "fb_loose (fb_newline f) \<and> fb_step f (fb_newline f) \<and> g_cursor_x (fb_newline f) = 0"
  using assms
  by (simp add: fb_newline_def history_push_def fb_loose_def fb_inv_def fb_geometry_def in_grid_def fb_step_def fb_dims_def)

lemma fb_inv_loose: "fb_inv f \<Longrightarrow> fb_loose f"
  by (simp add: fb_loose_def fb_inv_def fb_geometry_def in_grid_def)

lemma loose_inv: "fb_loose f \<Longrightarrow> g_cursor_x f < g_cols f \<Longrightarrow> g_cursor_y f < g_rows f \<Longrightarrow> fb_inv f"
  by (simp add: fb_loose_def fb_inv_def fb_geometry_def in_grid_def)

lemma loose_geometry: "fb_loose f \<Longrightarrow> fb_geometry f"
  by (simp add: fb_loose_def fb_inv_def fb_geometry_def)

lemma fb_settle_safe:
  assumes "fb_loose f"
  shows "fb_inv (fb_settle f) \<and> fb_step f (fb_settle f)"
proof -
  define g where "g = (if g_cursor_x f \<ge> g_cols f then fb_newline f else f)"
  define h where "h = (if g_cursor_y g \<ge> g_rows g then (fb_scroll_up g)\<lparr>g_cursor_y := g_rows g - 1\<rparr> else g)"
  have c: "g_cols f > 0" "g_rows f > 0" using loose_geometry [OF assms] by (simp_all add: fb_geometry_def)
  have g: "fb_loose g \<and> fb_step f g \<and> g_cursor_x g < g_cols g"
  proof (cases "g_cursor_x f \<ge> g_cols f")
    case True
    then have "g_cursor_y f < g_rows f" using assms by (auto simp: fb_loose_def)
    from fb_newline_loose [OF assms this] True c show ?thesis by (simp add: g_def fb_step_def fb_dims_def)
  qed (use assms in \<open>simp add: g_def fb_step_def\<close>)
  then have gg: "fb_geometry g" by (simp add: loose_geometry)
  have h: "fb_inv h \<and> fb_step g h"
  proof (cases "g_cursor_y g \<ge> g_rows g")
    case True
    note e = edits_scroll_up [OF gg]
    have "fb_loose (fb_scroll_up g)" using edits_loose [OF e] g by simp
    moreover have "g_rows (fb_scroll_up g) = g_rows g" "g_cols (fb_scroll_up g) = g_cols g" "g_cursor_x (fb_scroll_up g) = g_cursor_x g"
      using edits_fields(5,6,7) [OF e] by simp_all
    ultimately have "fb_inv h" using True g gg by (simp add: h_def fb_loose_def fb_inv_def fb_geometry_def in_grid_def)
    moreover have "fb_step g h" using edits_step [OF e] True by (simp add: h_def fb_step_def fb_dims_def)
    ultimately show ?thesis by simp
  next
    case False
    then show ?thesis using g loose_inv [of g] by (simp add: h_def fb_step_def)
  qed
  have "fb_safe h (if g_cursor_visible h then fb_draw_cell (g_cursor_y h) (g_cursor_x h) True h else h)"
    by (intro fb_safe_if fb_safe_refl edits_safe edits_draw_cell fb_inv_geometry)
  with h have "fb_inv (fb_settle f) \<and> fb_step h (fb_settle f)"
    by (simp only: fb_settle_def Let_def g_def [symmetric] h_def [symmetric] fb_safe_step)
  with g h show ?thesis by (blast intro: fb_step_trans)
qed

lemma fb_glyph_loose:
  assumes "fb_inv f"
  shows "fb_loose (fb_glyph c f) \<and> fb_step f (fb_glyph c f)"
proof -
  note g = fb_inv_grid [OF assms]
  have cell: "fb_inv h \<and> fb_step g h \<and> g_cursor_x h = g_cursor_x g \<and> g_cursor_y h = g_cursor_y g \<and> g_cols h = g_cols g \<and> g_rows h = g_rows g"
    if "fb_inv g" "h = fb_draw_cell (g_cursor_y g) (g_cursor_x g) False (set_cell r k x g)" for g h r k x
  proof -
    have "fb_geometry (set_cell r k x g)" using edits_fields(2) [OF edits_set_cell] that(1) fb_inv_geometry by simp
    then have e: "edits g h" unfolding that(2) using edits_trans [OF edits_set_cell edits_draw_cell] by blast
    show ?thesis using edits_step [OF e] edits_fields(3,5-8) [OF e] that(1) by simp
  qed
  consider (nl) "c = CHR 0x0A" | (cr) "c = CHR 0x0D" | (bs) "c = CHR 0x08" | (other) "c \<noteq> CHR 0x0A" "c \<noteq> CHR 0x0D" "c \<noteq> CHR 0x08"
    by blast
  then show ?thesis
  proof cases
    case nl
    then show ?thesis using fb_newline_loose [OF fb_inv_loose [OF assms] g(6)] by (simp add: fb_glyph_def)
  next
    case cr
    have "fb_safe f (f\<lparr>g_cursor_x := 0\<rparr>)" by (rule fb_safe_cursor_x) (use g in simp)
    with cr assms show ?thesis by (simp add: fb_glyph_def fb_safe_step fb_inv_loose)
  next
    case bs
    show ?thesis
    proof (cases "g_cursor_x f > 0")
      case True
      let ?g = "f\<lparr>g_cursor_x := g_cursor_x f - 1\<rparr>"
      have "fb_safe f ?g" by (rule fb_safe_cursor_x) (use g True in simp)
      then have i: "fb_inv ?g" "fb_step f ?g" using assms by (simp_all add: fb_safe_step)
      have "fb_inv (fb_glyph c f) \<and> fb_step ?g (fb_glyph c f)"
        using cell [OF i(1) refl, of "nat (g_cursor_y f)" "nat (g_cursor_x f - 1)" "blank_cell ?g"] bs True
        by (simp add: fb_glyph_def Let_def set_cell_def)
      with i(2) show ?thesis by (blast intro: fb_step_trans fb_inv_loose)
    next
      case False
      with bs assms show ?thesis by (simp add: fb_glyph_def fb_inv_loose fb_step_def)
    qed
  next
    case other
    let ?x = "\<lparr>cell_c = c, cell_color = g_cur_color f\<rparr>"
    define h where "h = fb_draw_cell (g_cursor_y f) (g_cursor_x f) False (set_cell (nat (g_cursor_y f)) (nat (g_cursor_x f)) ?x f)"
    have h: "fb_inv h" "fb_step f h" "g_cursor_x h = g_cursor_x f" "g_cols h = g_cols f" "g_cursor_y h = g_cursor_y f"
      using cell [OF assms h_def] by simp_all
    have "fb_glyph c f = (if 32 \<le> (of_char c :: nat) \<and> of_char c \<le> (127 :: nat) then h\<lparr>g_cursor_x := g_cursor_x h + 1\<rparr> else f)"
      using other by (simp add: fb_glyph_def Let_def h_def set_cell_def)
    moreover have "fb_loose (h\<lparr>g_cursor_x := g_cursor_x h + 1\<rparr>)"
      using h(1) by (simp add: fb_loose_def fb_inv_def fb_geometry_def in_grid_def)
    moreover have "fb_step f (h\<lparr>g_cursor_x := g_cursor_x h + 1\<rparr>)" using h(2) by (simp add: fb_step_def fb_dims_def)
    ultimately show ?thesis using assms by (simp add: fb_inv_loose fb_step_def)
  qed
qed

lemma fb_begin_char_safe: "fb_safe f (fb_begin_char f)"
proof -
  let ?g = "if g_view_back f \<noteq> 0 then fb_redraw_live (f\<lparr>g_view_back := 0\<rparr>) else f"
  have "fb_safe f (f\<lparr>g_view_back := 0\<rparr>)" by (simp add: fb_safe_def fb_inv_def fb_geometry_def in_grid_def fb_dims_def)
  moreover have "fb_safe (f\<lparr>g_view_back := 0\<rparr>) (fb_redraw_live (f\<lparr>g_view_back := 0\<rparr>))"
    by (intro edits_safe edits_redraw_live fb_inv_geometry)
  ultimately have "fb_safe f ?g" by (intro fb_safe_if fb_safe_refl) (rule fb_safe_trans)
  moreover have "fb_safe ?g (fb_draw_cell (g_cursor_y ?g) (g_cursor_x ?g) False ?g)" by (intro edits_safe edits_draw_cell fb_inv_geometry)
  ultimately show ?thesis unfolding fb_begin_char_def Let_def by (rule fb_safe_trans)
qed

lemma fb_putchar_plain_safe: "fb_safe f (fb_putchar_plain c f)"
proof (cases "fb_inv f")
  case True
  obtain b g where cg: "ansi_consume c f = (b, g)" by (cases "ansi_consume c f")
  have g: "fb_inv g" "fb_step f g" using ansi_consume_safe [of f c] True by (simp_all add: cg fb_safe_step)
  have b: "fb_inv (fb_begin_char g)" "fb_step g (fb_begin_char g)" using fb_begin_char_safe [of g] g(1) by (simp_all add: fb_safe_step)
  note l = fb_glyph_loose [OF b(1), of c]
  have "fb_inv (fb_settle (fb_glyph c (fb_begin_char g)))" "fb_step f (fb_settle (fb_glyph c (fb_begin_char g)))"
    using fb_settle_safe l b(2) g(2) by (blast intro: fb_step_trans)+
  then show ?thesis using g by (simp add: fb_putchar_plain_def cg fb_safe_def fb_step_def)
qed (simp add: fb_safe_def)

lemma fb_tab_safe: "fb_safe f (fb_tab n f)"
proof (induction n arbitrary: f)
  case (Suc n)
  show ?case using fb_putchar_plain_safe [of f "CHR '' ''"] Suc [of "fb_putchar_plain (CHR '' '') f"]
    by (auto simp: Let_def intro: fb_safe_trans)
qed simp

lemma fb_putchar_safe: "fb_safe f (fb_putchar c f)"
proof -
  obtain b g where cg: "ansi_consume c f = (b, g)" by (cases "ansi_consume c f")
  have g: "fb_safe f g" using ansi_consume_safe [of f c] by (simp add: cg)
  have "fb_safe f (fb_tab 8 (fb_begin_char g))" using g fb_begin_char_safe fb_tab_safe fb_safe_trans by blast
  with g show ?thesis by (simp only: fb_putchar_def cg Let_def prod.case) (intro fb_safe_if fb_putchar_plain_safe)
qed

lemma fb_view_safe:
  assumes "0 \<le> b"
  shows "fb_safe f (if b = 0 then fb_redraw_live (f\<lparr>g_view_back := b\<rparr>) else fb_redraw_history (f\<lparr>g_view_back := b\<rparr>))"
proof -
  let ?g = "f\<lparr>g_view_back := b\<rparr>"
  have "fb_safe f ?g" using assms by (simp add: fb_safe_def fb_inv_def fb_geometry_def in_grid_def fb_dims_def)
  moreover have "fb_safe ?g (if b = 0 then fb_redraw_live ?g else fb_redraw_history ?g)"
    by (intro fb_safe_if edits_safe edits_redraw_live edits_redraw_history fb_inv_geometry)
  ultimately show ?thesis by (rule fb_safe_trans)
qed

lemma fb_scroll_page_safe: "fb_safe f (fb_scroll_page dir f)"
  unfolding fb_scroll_page_def Let_def by (rule fb_view_safe) simp

lemma fb_set_color_safe: "fb_safe f (fb_set_color fg bg f)"
  unfolding fb_set_color_def by (rule fb_safe_trans [OF fb_safe_flags(9) fb_update_color_safe])

lemma fb_fill_safe: "fb_safe f (fb_fill color f)"
proof (rule edits_safe)
  show "edits f (fb_fill color f)" unfolding fb_fill_def
  proof (rule edits_fold)
    fix i g assume i: "i \<in> set [0..<g_pitch_bytes f div 4 * g_height f]" and e: "edits f g"
    have "4 * (g_pitch_bytes f div 4 * g_height f) \<le> fb_end f"
      using mult_le_mono1 [of "4 * (g_pitch_bytes f div 4)" "g_pitch_bytes f" "g_height f"] by (simp add: fb_end_def)
    then have "4 * i + 4 \<le> fb_end f" using i by (intro pixel_bytes [of i]) auto
    then show "edits g (put_pixel i color g)" using edits_fields(1) [OF e] by (intro edits_put_pixel) simp
  qed
qed

text \<open>The operations of \<open>console.h\<close> on the screen.\<close>

datatype fb_op = Put char | Set_color u32 u32 | Scroll_page int | Clear | Fill u32

fun fb_do :: "fb_op \<Rightarrow> fb \<Rightarrow> fb" where
  "fb_do (Put c) f = fb_putchar c f"
| "fb_do (Set_color fg bg) f = fb_set_color fg bg f"
| "fb_do (Scroll_page dir) f = fb_scroll_page dir f"
| "fb_do Clear f = fb_clear f"
| "fb_do (Fill color) f = fb_fill color f"

lemma fb_do_safe: "fb_safe f (fold fb_do ops f)"
proof (induction ops arbitrary: f)
  case (Cons op ops)
  have "fb_safe f (fb_do op f)"
    by (cases op) (simp_all add: fb_putchar_safe fb_set_color_safe fb_scroll_page_safe fb_clear_safe fb_fill_safe)
  with Cons show ?case by (auto intro: fb_safe_trans)
qed simp

lemma palette_seed:
  assumes "g_palette_count f = 0"
  shows "palette_lookup fg bg f = (0, f\<lparr>g_palette_count := 1, g_palette_fg := (g_palette_fg f)[0 := fg], g_palette_bg := (g_palette_bg f)[0 := bg]\<rparr>)"
  using assms by (simp add: palette_lookup_def)

lemma fb_init_inv:
  assumes init: "fb_init (Some lf) fb_boot = (0, f)"
    and lf: "lf_width lf < 2 ^ 32" "lf_height lf < 2 ^ 32" "8 \<le> lf_width lf" "16 \<le> lf_height lf" "4 * unat (lf_width lf) \<le> unat (lf_pitch lf)"
  shows "fb_inv f" "fb_end f = unat (lf_pitch lf) * unat (lf_height lf)"
proof -
  define w where "w = unat (lf_width lf)"
  define h where "h = unat (lf_height lf)"
  define p where "p = unat (lf_pitch lf)"
  have b: "8 \<le> w" "16 \<le> h" "w < 2 ^ 32" "h < 2 ^ 32" "4 * w \<le> p"
    using lf by (simp_all add: w_def h_def p_def word_le_nat_alt word_less_nat_alt)
  have c: "unat (ucast (lf_width lf) :: u32) = w" "unat (ucast (lf_height lf) :: u32) = h"
    using b by (simp_all add: w_def h_def unsigned_ucast_eq take_bit_nat_eq_self)
  define cols where "cols = (if w div 8 > 512 then 512 else w div 8)"
  define rows where "rows = (if h div 16 > 256 then 256 else h div 16)"
  have d: "0 < cols" "cols \<le> 512" "cols * 8 \<le> w" "0 < rows" "rows \<le> 256" "rows * 16 \<le> h"
    using b by (auto simp: cols_def rows_def)
  define f1 where "f1 = fb_boot\<lparr>g_fb_bpp := ucast (lf_bpp lf), g_pixels := lf_address lf, g_pitch_bytes := p,
      g_pitch_words := p div 4, g_width := w, g_height := h, g_cols := int cols, g_rows := int rows, g_palette_count := 1,
      g_palette_fg := (g_palette_fg fb_boot)[0 := COLOR_FG], g_palette_bg := (g_palette_bg fb_boot)[0 := COLOR_BG], g_cur_color := 0\<rparr>"
  have f: "f = fb_clear f1" using init c
    by (simp add: fb_init_def palette_seed Let_def f1_def cols_def rows_def w_def h_def p_def split: if_splits)
  have "w \<le> p div 4" using b(5) by simp
  then have "fb_inv f1" using b d
    by (simp add: f1_def fb_boot_def fb_inv_def fb_geometry_def in_grid_def)
  then show "fb_inv f" "fb_end f = unat (lf_pitch lf) * unat (lf_height lf)"
    using fb_clear_safe [of f1] fb_end_dims [of f f1] by (simp_all add: f fb_safe_def) (simp add: f1_def fb_end_def p_def h_def)
qed

section \<open>Text and escape sequences\<close>

lemma fold_put_pixel_keeps:
  "\<exists>v. fold (\<lambda>(y, x) g. put_pixel (a + y * g_pitch_words g + x) (k y x) g) ps f = f\<lparr>vram := v\<rparr>"
proof (induction ps arbitrary: f)
  case Nil
  show ?case by (rule exI [of _ "vram f"]) simp
next
  case (Cons p ps)
  obtain y x where p: "p = (y, x)" by (cases p)
  let ?g = "put_pixel (a + y * g_pitch_words f + x) (k y x) f"
  obtain v where "fold (\<lambda>(y, x) g. put_pixel (a + y * g_pitch_words g + x) (k y x) g) ps ?g = ?g\<lparr>vram := v\<rparr>"
    using Cons by blast
  moreover have "?g\<lparr>vram := v\<rparr> = f\<lparr>vram := v\<rparr>" by (simp add: put_pixel_def)
  ultimately show ?case by (intro exI [of _ v]) (simp add: p)
qed

lemma paint_cell_keeps: "\<exists>v. fb_paint_cell row col cell sc f = f\<lparr>vram := v\<rparr>"
proof (cases "in_grid row col f")
  case True
  then show ?thesis unfolding fb_paint_cell_def Let_def by (simp only: if_False not_True_eq_False) (rule fold_put_pixel_keeps)
next
  case False
  then show ?thesis by (intro exI [of _ "vram f"]) (simp add: fb_paint_cell_def)
qed

lemma paint_cell_fields [simp]:
  "g_text (fb_paint_cell row col cell sc f) = g_text f" "g_cur_color (fb_paint_cell row col cell sc f) = g_cur_color f"
  "g_fg (fb_paint_cell row col cell sc f) = g_fg f" "g_bg (fb_paint_cell row col cell sc f) = g_bg f"
  "g_reverse (fb_paint_cell row col cell sc f) = g_reverse f" "g_ansi_state (fb_paint_cell row col cell sc f) = g_ansi_state f"
  "g_cursor_x (fb_paint_cell row col cell sc f) = g_cursor_x f" "g_cursor_y (fb_paint_cell row col cell sc f) = g_cursor_y f"
  "g_rows (fb_paint_cell row col cell sc f) = g_rows f" "g_cols (fb_paint_cell row col cell sc f) = g_cols f"
  "g_csi_buf (fb_paint_cell row col cell sc f) = g_csi_buf f"
proof -
  obtain v where v: "fb_paint_cell row col cell sc f = f\<lparr>vram := v\<rparr>" using paint_cell_keeps by blast
  show "g_text (fb_paint_cell row col cell sc f) = g_text f" "g_cur_color (fb_paint_cell row col cell sc f) = g_cur_color f"
    "g_fg (fb_paint_cell row col cell sc f) = g_fg f" "g_bg (fb_paint_cell row col cell sc f) = g_bg f"
    "g_reverse (fb_paint_cell row col cell sc f) = g_reverse f" "g_ansi_state (fb_paint_cell row col cell sc f) = g_ansi_state f"
    "g_cursor_x (fb_paint_cell row col cell sc f) = g_cursor_x f" "g_cursor_y (fb_paint_cell row col cell sc f) = g_cursor_y f"
    "g_rows (fb_paint_cell row col cell sc f) = g_rows f" "g_cols (fb_paint_cell row col cell sc f) = g_cols f"
    "g_csi_buf (fb_paint_cell row col cell sc f) = g_csi_buf f"
    unfolding v by simp_all
qed

lemma erase_fold_text:
  "g_text (fold (\<lambda>c f. fb_paint_cell row (int c) (blank_cell f) False (set_cell (nat row) c (blank_cell f) f)) cs f) r c =
     (if r = nat row \<and> c \<in> set cs then blank_cell f else g_text f r c)"
  by (induction cs arbitrary: f) (auto simp: set_cell_def blank_cell_def)

lemma ansi_erase_cells_text:
  assumes "0 \<le> row" "row < g_rows f"
  shows "g_text (ansi_erase_cells row a b f) r c =
    (if r = nat row \<and> a \<le> int c \<and> int c < b \<and> int c < g_cols f then blank_cell f else g_text f r c)"
  using assms by (auto simp: ansi_erase_cells_def erase_fold_text)

lemma draw_cell_fields [simp]:
  "g_text (fb_draw_cell row col sc f) = g_text f" "g_cur_color (fb_draw_cell row col sc f) = g_cur_color f"
  "g_fg (fb_draw_cell row col sc f) = g_fg f" "g_bg (fb_draw_cell row col sc f) = g_bg f"
  "g_reverse (fb_draw_cell row col sc f) = g_reverse f" "g_ansi_state (fb_draw_cell row col sc f) = g_ansi_state f"
  "g_cursor_x (fb_draw_cell row col sc f) = g_cursor_x f" "g_cursor_y (fb_draw_cell row col sc f) = g_cursor_y f"
  "g_rows (fb_draw_cell row col sc f) = g_rows f" "g_cols (fb_draw_cell row col sc f) = g_cols f"
  by (simp_all add: fb_draw_cell_def)

lemma repaint_cursor_fields [simp]:
  "g_text (fb_repaint_cursor f) = g_text f" "g_fg (fb_repaint_cursor f) = g_fg f" "g_bg (fb_repaint_cursor f) = g_bg f"
  "g_reverse (fb_repaint_cursor f) = g_reverse f" "g_ansi_state (fb_repaint_cursor f) = g_ansi_state f"
  by (simp_all add: fb_repaint_cursor_def)

text \<open>An escape sequence without parameters.\<close>

lemma fb_putchar_csi:
  assumes "g_ansi_state f = ANSI_NORMAL" "CHR 0x40 \<le> final" "final \<le> CHR 0x7E"
  shows "fold fb_putchar [CHR 0x1B, CHR ''['', final] f =
    ansi_exec final (f\<lparr>g_csi_buf := [], g_csi_private := False, g_ansi_state := ANSI_NORMAL\<rparr>)"
proof -
  have "final \<noteq> CHR 0x09" using assms(2) by (auto simp: less_eq_char_def)
  with assms show ?thesis by (simp add: fb_putchar_def fb_putchar_plain_def ansi_consume_def)
qed

lemma csi_defaults: "ansi_parse_params 8 1 [] = [1, 1, 1, 1, 1, 1, 1, 1]"
  by (simp add: numeral_eq_Suc)

lemma sgr_one [simp]: "sgr_param 1 f = f"
  by (simp add: sgr_param_def)

lemma palette_lookup_fields:
  assumes "palette_lookup fg bg f = (i, f')"
  shows "g_fg f' = g_fg f \<and> g_bg f' = g_bg f \<and> g_reverse f' = g_reverse f"
  using assms by (auto simp: palette_lookup_def Let_def split: option.splits if_splits)

lemma fb_update_color_fields [simp]:
  "g_fg (fb_update_color f) = g_fg f" "g_bg (fb_update_color f) = g_bg f" "g_reverse (fb_update_color f) = g_reverse f"
  using palette_lookup_fields [of _ _ f] by (auto simp: fb_update_color_def split: prod.splits)

lemma erase_line_empty_params:
  assumes "g_ansi_state f = ANSI_NORMAL" "fb_inv f"
  shows "g_text (fold fb_putchar [CHR 0x1B, CHR ''['', CHR ''K''] f) r c =
    (if r = nat (g_cursor_y f) \<and> int c \<le> g_cursor_x f then blank_cell f else g_text f r c)"
proof -
  note g = fb_inv_grid [OF assms(2)]
  let ?f = "f\<lparr>g_csi_buf := [], g_csi_private := False, g_ansi_state := ANSI_NORMAL\<rparr>"
  let ?d = "fb_draw_cell (g_cursor_y f) (g_cursor_x f) False ?f"
  have "fold fb_putchar [CHR 0x1B, CHR ''['', CHR ''K''] f = ansi_exec (CHR ''K'') ?f"
    using assms(1) by (rule fb_putchar_csi) (simp_all add: less_eq_char_def)
  also have "\<dots> = fb_repaint_cursor (erase_line 1 ?d)" by (simp add: ansi_exec_def csi_defaults ansi_dispatch_def)
  finally have "g_text (fold fb_putchar [CHR 0x1B, CHR ''['', CHR ''K''] f) r c = g_text (ansi_erase_cells (g_cursor_y f) 0 (g_cursor_x f + 1) ?d) r c"
    by (simp add: erase_line_def)
  then show ?thesis using g by (auto simp: ansi_erase_cells_text blank_cell_def)
qed

lemma sgr_empty_params:
  assumes "g_ansi_state f = ANSI_NORMAL"
  shows "g_fg (fold fb_putchar [CHR 0x1B, CHR ''['', CHR ''m''] f) = g_fg f \<and>
    g_bg (fold fb_putchar [CHR 0x1B, CHR ''['', CHR ''m''] f) = g_bg f \<and>
    g_reverse (fold fb_putchar [CHR 0x1B, CHR ''['', CHR ''m''] f) = g_reverse f"
proof -
  let ?f = "f\<lparr>g_csi_buf := [], g_csi_private := False, g_ansi_state := ANSI_NORMAL\<rparr>"
  let ?d = "fb_draw_cell (g_cursor_y f) (g_cursor_x f) False ?f"
  have "fold fb_putchar [CHR 0x1B, CHR ''['', CHR ''m''] f = ansi_exec (CHR ''m'') ?f"
    using assms by (rule fb_putchar_csi) (simp_all add: less_eq_char_def)
  also have "\<dots> = fb_repaint_cursor (fb_update_color ?d)" by (simp add: ansi_exec_def csi_defaults ansi_dispatch_def)
  finally show ?thesis by simp
qed

text \<open>A space in normal text moves the cursor by one column or to the next line.\<close>

lemma edits_ansi: "edits f f' \<Longrightarrow> g_ansi_state f' = g_ansi_state f"
  by (auto simp: edits_def)

lemma fb_settle_ansi:
  assumes "fb_loose f"
  shows "g_ansi_state (fb_settle f) = g_ansi_state f \<and> g_cursor_x (fb_settle f) = (if g_cursor_x f \<ge> g_cols f then 0 else g_cursor_x f) \<and>
    g_cols (fb_settle f) = g_cols f"
proof -
  define g where "g = (if g_cursor_x f \<ge> g_cols f then fb_newline f else f)"
  have g: "g_ansi_state g = g_ansi_state f" "g_cursor_x g = (if g_cursor_x f \<ge> g_cols f then 0 else g_cursor_x f)" "g_cols g = g_cols f"
    by (simp_all add: g_def fb_newline_def history_push_def)
  have "fb_geometry g" using loose_geometry [OF assms] by (simp add: g_def fb_newline_def history_push_def fb_geometry_def)
  note e = edits_scroll_up [OF this]
  show ?thesis unfolding fb_settle_def Let_def g_def [symmetric] using g edits_ansi [OF e] edits_fields(6,7) [OF e] by simp
qed

lemma fb_space:
  assumes "fb_inv f" "g_ansi_state f = ANSI_NORMAL"
  shows "fb_inv (fb_putchar_plain (CHR '' '') f) \<and> g_ansi_state (fb_putchar_plain (CHR '' '') f) = ANSI_NORMAL \<and>
    g_cursor_x (fb_putchar_plain (CHR '' '') f) = (if g_cursor_x f + 1 \<ge> g_cols f then 0 else g_cursor_x f + 1)"
proof -
  let ?b = "fb_begin_char f"
  have live: "edits (f\<lparr>g_view_back := 0\<rparr>) (fb_redraw_live (f\<lparr>g_view_back := 0\<rparr>))"
    using assms(1) by (intro edits_redraw_live) (simp add: fb_inv_def fb_geometry_def)
  have b: "g_ansi_state ?b = ANSI_NORMAL" "g_cursor_x ?b = g_cursor_x f" "g_cols ?b = g_cols f"
    using edits_ansi [OF live] edits_fields(6,7) [OF live] assms(2) by (simp_all add: fb_begin_char_def Let_def)
  have bi: "fb_inv ?b" using fb_begin_char_safe [of f] assms(1) by (simp add: fb_safe_def)
  have g: "g_ansi_state (fb_glyph (CHR '' '') ?b) = ANSI_NORMAL" "g_cursor_x (fb_glyph (CHR '' '') ?b) = g_cursor_x f + 1"
    "g_cols (fb_glyph (CHR '' '') ?b) = g_cols f"
    using b by (simp_all add: fb_glyph_def Let_def set_cell_def)
  have "fb_putchar_plain (CHR '' '') f = fb_settle (fb_glyph (CHR '' '') ?b)"
    using assms(2) by (simp add: fb_putchar_plain_def ansi_consume_def)
  moreover have "fb_loose (fb_glyph (CHR '' '') ?b)" using fb_glyph_loose [OF bi] by blast
  ultimately show ?thesis using fb_settle_ansi g fb_putchar_plain_safe [of f "CHR '' ''"] assms(1) by (simp add: fb_safe_def)
qed

text \<open>With \<open>k\<close> columns to the next tab stop, \<open>k\<close> rounds reach it or the start of the next line.\<close>

lemma fb_tab_rounds:
  assumes "fb_inv f" "g_ansi_state f = ANSI_NORMAL" "8 - g_cursor_x f mod 8 \<le> int k" "k \<le> n"
  shows "fb_tab n f = fb_tab k f \<and> g_cursor_x (fb_tab k f) mod 8 = 0"
  using assms
proof (induction k arbitrary: f n)
  case 0
  have "g_cursor_x f mod 8 < 8" by simp
  with 0 show ?case by simp
next
  case (Suc k)
  obtain m where m: "n = Suc m" "k \<le> m" using Suc.prems(4) by (cases n) auto
  let ?g = "fb_putchar_plain (CHR '' '') f"
  note s = fb_space [OF Suc.prems(1,2)]
  show ?case
  proof (cases "g_cursor_x ?g mod 8 = 0")
    case False
    then have x: "g_cursor_x ?g = g_cursor_x f + 1" using s by (auto split: if_splits)
    then have "8 - g_cursor_x ?g mod 8 \<le> int k" using False Suc.prems(3) by presburger
    from Suc.IH [OF _ _ this m(2)] s False m(1) show ?thesis by simp
  qed (simp add: m(1))
qed

text \<open>\<open>fb_set_text_top\<close> moves the grid down without taking rows away: painting a blank cell of a row that
  now lies below the screen clears memory behind the framebuffer.\<close>

lemma fold_put_pixel_black:
  assumes "p \<in> set ps \<or> vram f (4 * (a + fst p * g_pitch_words f + snd p)) = 0"
  shows "vram (fold (\<lambda>(y, x) g. put_pixel (a + y * g_pitch_words g + x) 0 g) ps f) (4 * (a + fst p * g_pitch_words f + snd p)) = 0"
  using assms
proof (induction ps arbitrary: f)
  case (Cons q qs)
  obtain y x where q: "q = (y, x)" by (cases q)
  let ?g = "put_pixel (a + y * g_pitch_words f + x) 0 f"
  have w: "g_pitch_words ?g = g_pitch_words f" by (simp add: put_pixel_def)
  have "p \<in> set qs \<or> vram ?g (4 * (a + fst p * g_pitch_words ?g + snd p)) = 0"
    using Cons.prems by (auto simp: put_pixel_def q)
  from Cons.IH [OF this] show ?case by (simp add: q w)
qed simp

lemma text_top_below_screen:
  assumes "in_grid row col f" "g_height f \<le> g_text_top f + nat row * FONT_HEIGHT" "g_text_top f + nat row * FONT_HEIGHT < 2 ^ 32"
    "g_pitch_bytes f = 4 * g_pitch_words f" "g_palette_bg f ! 0 = 0" "\<forall>i \<ge> fb_end f. vram f i = 1"
  shows "\<exists>i \<ge> fb_end f. vram (fb_paint_cell row col \<lparr>cell_c = CHR '' '', cell_color = 0\<rparr> False f) i \<noteq> vram f i"
proof -
  define a where "a = (g_text_top f + nat row * FONT_HEIGHT) * g_pitch_words f + nat col * FONT_WIDTH"
  have glyph: "font8x16 ! 0 ! y = 0" if "y < 16" for y
    using that by (simp add: font8x16_def numeral_eq_Suc less_Suc_eq) (elim disjE; simp)
  have m: "(0, 0) \<in> set (List.product [0..<FONT_HEIGHT] [0..<FONT_WIDTH])" by simp
  have "fb_paint_cell row col \<lparr>cell_c = CHR '' '', cell_color = 0\<rparr> False f =
    fold (\<lambda>(y, x) g. put_pixel (a + y * g_pitch_words g + x) 0 g) (List.product [0..<FONT_HEIGHT] [0..<FONT_WIDTH]) f"
    unfolding fb_paint_cell_def Let_def
    by (subst if_not_P, simp add: assms(1), rule fold_cong) (use assms(3,5) glyph in \<open>auto simp: a_def\<close>)
  then have "vram (fb_paint_cell row col \<lparr>cell_c = CHR '' '', cell_color = 0\<rparr> False f) (4 * a) = 0"
    using fold_put_pixel_black [of "(0, 0)" "List.product [0..<FONT_HEIGHT] [0..<FONT_WIDTH]" f a] m by simp
  moreover have "fb_end f \<le> 4 * a"
    using mult_le_mono1 [OF assms(2), of "g_pitch_words f"] assms(4) by (simp add: fb_end_def a_def algebra_simps)
  ultimately show ?thesis using assms(6) by (intro exI [of _ "4 * a"]) simp
qed

text \<open>A console on a 640 by 480 screen, for the examples.\<close>

definition vga_screen :: limine_framebuffer where
  "vga_screen = \<lparr>lf_address = 0xFFFF8000FD000000, lf_width = 640, lf_height = 480, lf_pitch = 2560, lf_bpp = 32, lf_memory_model = 1\<rparr>"

lemma vga_init:
  obtains f where "fb_init (Some vga_screen) fb_boot = (0, f)" "fb_inv f" "g_ansi_state f = ANSI_NORMAL"
proof -
  define f where "f = snd (fb_init (Some vga_screen) fb_boot)"
  have f: "fb_init (Some vga_screen) fb_boot = (0, f)" by (simp add: f_def fb_init_def vga_screen_def palette_seed Let_def)
  have "g_ansi_state f = ANSI_NORMAL"
    by (simp add: f_def fb_init_def vga_screen_def palette_seed Let_def fb_boot_def fb_clear_def vram_clear_def)
  moreover have "fb_inv f" by (rule fb_init_inv(1) [OF f]) (simp_all add: vga_screen_def)
  ultimately show ?thesis using that f by blast
qed

section \<open>Properties\<close>



text \<open>C29: escape sequences without parameters do not do what their comments say: ESC [ K erases the line from
  its start up to the cursor and leaves the rest, and ESC [ m keeps colours and reverse video.\<close>

theorem ansi_empty_params:
  assumes "fb_inv f" "g_ansi_state f = ANSI_NORMAL"
  shows "(\<forall>r c. g_text (fold fb_putchar [CHR 0x1B, CHR ''['', CHR ''K''] f) r c =
      (if r = nat (g_cursor_y f) \<and> int c \<le> g_cursor_x f then blank_cell f else g_text f r c)) \<and>
    (let f' = fold fb_putchar [CHR 0x1B, CHR ''['', CHR ''m''] f in g_fg f' = g_fg f \<and> g_bg f' = g_bg f \<and> g_reverse f' = g_reverse f)"
  using erase_line_empty_params [OF assms(2,1)] sgr_empty_params [OF assms(2)] by (simp only: Let_def) blast

theorem ansi_empty_params_witness:
  "\<exists>f. fb_init (Some vga_screen) fb_boot = (0, f) \<and> g_fg (fold fb_putchar [CHR 0x1B, CHR ''['', CHR ''m''] f) = g_fg f"
proof -
  obtain f where f: "fb_init (Some vga_screen) fb_boot = (0, f)" "fb_inv f" "g_ansi_state f = ANSI_NORMAL" by (rule vga_init)
  with ansi_empty_params [OF f(2,3)] show ?thesis by (auto simp: Let_def)
qed

text \<open>C30: the loop that prints a tab ends: after at most eight spaces the cursor is at a multiple of eight columns,
  and further rounds are never taken.\<close>

theorem fb_tab_terminates:
  assumes "fb_inv f" "g_ansi_state f = ANSI_NORMAL"
  shows "g_cursor_x (fb_putchar (CHR 0x09) f) mod 8 = 0 \<and> (\<forall>n \<ge> 8. fb_putchar (CHR 0x09) f = fb_tab n (fb_begin_char f))"
proof -
  let ?b = "fb_begin_char f"
  have live: "edits (f\<lparr>g_view_back := 0\<rparr>) (fb_redraw_live (f\<lparr>g_view_back := 0\<rparr>))"
    using assms(1) by (intro edits_redraw_live) (simp add: fb_inv_def fb_geometry_def)
  have b: "fb_inv ?b" "g_ansi_state ?b = ANSI_NORMAL"
    using fb_begin_char_safe [of f] assms edits_ansi [OF live] by (simp_all add: fb_safe_def fb_begin_char_def Let_def)
  have p: "fb_putchar (CHR 0x09) f = fb_tab 8 ?b" using assms(2) by (simp add: fb_putchar_def ansi_consume_def)
  have "8 - g_cursor_x ?b mod 8 \<le> int 8" by simp
  from fb_tab_rounds [OF b this] show ?thesis by (metis p order_refl)
qed

theorem fb_tab_terminates_witness:
  "\<exists>f. fb_init (Some vga_screen) fb_boot = (0, f) \<and> g_cursor_x (fb_putchar (CHR 0x09) f) mod 8 = 0"
proof -
  obtain f where f: "fb_init (Some vga_screen) fb_boot = (0, f)" "fb_inv f" "g_ansi_state f = ANSI_NORMAL" by (rule vga_init)
  then show ?thesis using conjunct1 [OF fb_tab_terminates [OF f(2,3)]] by (intro exI [of _ f] conjI)
qed

end
