(* ===== verification/Hardware.thy ===== *)
theory Hardware
  imports Keyboard
begin

text \<open>
  The other port drivers: the interrupt controllers (\<open>kernel/arch/x86_64/pic.c\<close>), the timer
  (\<open>kernel/drivers/pit.c\<close>) and the serial line (\<open>kernel/drivers/serial.c\<close>). The ports are the same
  arguments as in theory \<open>Keyboard\<close>.
\<close>

section \<open>Interrupt controllers\<close>

abbreviation PIC1_CMD_PORT :: u16 where "PIC1_CMD_PORT \<equiv> 0x20"
abbreviation PIC1_DATA_PORT :: u16 where "PIC1_DATA_PORT \<equiv> 0x21"
abbreviation PIC2_CMD_PORT :: u16 where "PIC2_CMD_PORT \<equiv> 0xA0"
abbreviation PIC2_DATA_PORT :: u16 where "PIC2_DATA_PORT \<equiv> 0xA1"

record pic =
  g_master_mask :: u8
  g_slave_mask :: u8

definition pic_boot :: pic where
  "pic_boot = \<lparr>g_master_mask = 0xFF, g_slave_mask = 0xFF\<rparr>"

definition io_wait :: "'h outb \<Rightarrow> 'h \<Rightarrow> 'h" where
  "io_wait outb h = outb 0x80 0 h"

definition outb_wait :: "'h outb \<Rightarrow> u16 \<Rightarrow> u8 \<Rightarrow> 'h \<Rightarrow> 'h" where
  "outb_wait outb port v h = io_wait outb (outb port v h)"

definition pic_init :: "'h outb \<Rightarrow> pic \<Rightarrow> 'h \<Rightarrow> 'h" where
  "pic_init outb p h =
     (let h = outb_wait outb PIC1_CMD_PORT 0x11 h;
          h = outb_wait outb PIC2_CMD_PORT 0x11 h;
          h = outb_wait outb PIC1_DATA_PORT 0x20 h;
          h = outb_wait outb PIC2_DATA_PORT 0x28 h;
          h = outb_wait outb PIC1_DATA_PORT 0x04 h;
          h = outb_wait outb PIC2_DATA_PORT 0x02 h;
          h = outb_wait outb PIC1_DATA_PORT 0x01 h;
          h = outb_wait outb PIC2_DATA_PORT 0x01 h;
          h = outb PIC1_DATA_PORT (g_master_mask p) h
      in outb PIC2_DATA_PORT (g_slave_mask p) h)"

definition pic_enable_irq :: "'h outb \<Rightarrow> nat \<Rightarrow> pic \<Rightarrow> 'h \<Rightarrow> pic \<times> 'h" where
  "pic_enable_irq outb irq p h =
     (if irq < 8
      then let p = p\<lparr>g_master_mask := g_master_mask p AND NOT (push_bit irq 1)\<rparr> in (p, outb PIC1_DATA_PORT (g_master_mask p) h)
      else if irq < 16
      then let p = p\<lparr>g_slave_mask := g_slave_mask p AND NOT (push_bit (irq - 8) 1)\<rparr> in (p, outb PIC2_DATA_PORT (g_slave_mask p) h)
      else (p, h))"

definition pic_disable_irq :: "'h outb \<Rightarrow> nat \<Rightarrow> pic \<Rightarrow> 'h \<Rightarrow> pic \<times> 'h" where
  "pic_disable_irq outb irq p h =
     (if irq < 8
      then let p = p\<lparr>g_master_mask := g_master_mask p OR push_bit irq 1\<rparr> in (p, outb PIC1_DATA_PORT (g_master_mask p) h)
      else if irq < 16
      then let p = p\<lparr>g_slave_mask := g_slave_mask p OR push_bit (irq - 8) 1\<rparr> in (p, outb PIC2_DATA_PORT (g_slave_mask p) h)
      else (p, h))"

definition pic_send_eoi :: "'h outb \<Rightarrow> nat \<Rightarrow> 'h \<Rightarrow> 'h" where
  "pic_send_eoi outb irq h = outb PIC1_CMD_PORT 0x20 (if irq \<ge> 8 then outb PIC2_CMD_PORT 0x20 h else h)"

text \<open>The lines that can interrupt: those whose mask bit is clear.\<close>

definition pic_enabled :: "pic \<Rightarrow> nat set" where
  "pic_enabled p = {irq. irq < 8 \<and> \<not> bit (g_master_mask p) irq} \<union> {irq. 8 \<le> irq \<and> irq < 16 \<and> \<not> bit (g_slave_mask p) (irq - 8)}"

lemma pic_boot_enabled: "pic_enabled pic_boot = {}"
proof -
  have m: "(0xFF :: u8) = - 1" by simp
  have "bit (0xFF :: u8) n" if "n < 8" for n using that unfolding m bit_minus_1_iff by simp
  then show ?thesis by (auto simp: pic_enabled_def pic_boot_def)
qed

lemma pic_enable_irq_enabled:
  "irq < 16 \<Longrightarrow> pic_enabled (fst (pic_enable_irq outb irq p h)) = insert irq (pic_enabled p)"
  by (auto simp: pic_enable_irq_def pic_enabled_def Let_def bit_simps)

lemma pic_disable_irq_enabled:
  "irq < 16 \<Longrightarrow> pic_enabled (fst (pic_disable_irq outb irq p h)) = pic_enabled p - {irq}"
  by (auto simp: pic_disable_irq_def pic_enabled_def Let_def bit_simps)

section \<open>Timer\<close>

definition pit_tick :: "u64 \<Rightarrow> u64" where
  "pit_tick g_ticks = g_ticks + 1"

definition pit_init :: "'h outb \<Rightarrow> pic \<Rightarrow> 'h \<Rightarrow> pic \<times> 'h" where
  "pit_init outb p h =
     (let h = outb 0x43 0x36 h;
          h = outb 0x40 (ucast (11932 AND 0xFF :: u32)) h;
          h = outb 0x40 (ucast (drop_bit 8 11932 AND 0xFF :: u32)) h
      in pic_enable_irq outb 0 p h)"

definition pit_uptime_ms :: "u64 \<Rightarrow> u64" where
  "pit_uptime_ms g_ticks = g_ticks * 10"

text \<open>The tick count at which \<open>timer_sleep_ms\<close> returns; the sum is in 32 bits. One round of its loop.\<close>

definition sleep_target :: "u32 \<Rightarrow> u64 \<Rightarrow> u64" where
  "sleep_target ms g_ticks = g_ticks + ucast (ms + 9) div 10"

definition timer_sleep_ms :: "u64 \<Rightarrow> u64 \<Rightarrow> (unit, u64) io" where
  "timer_sleep_ms target g_ticks = (if g_ticks < target then Hlt 0 g_ticks else Ret () g_ticks)"

lemma sleep_wraps: "sleep_target (- 9) g_ticks = g_ticks"
  by (simp add: sleep_target_def)

section \<open>Serial line\<close>

definition serial_init :: "'h outb \<Rightarrow> 'h \<Rightarrow> bool \<times> 'h" where
  "serial_init outb h =
     (let h = outb 0x3F9 0x00 h;
          h = outb 0x3FB 0x80 h;
          h = outb 0x3F8 0x01 h;
          h = outb 0x3F9 0x00 h;
          h = outb 0x3FB 0x03 h;
          h = outb 0x3FA 0xC7 h
      in (True, outb 0x3FC 0x0B h))"

primrec serial_wait :: "'h inb \<Rightarrow> nat \<Rightarrow> 'h \<Rightarrow> 'h" where
  "serial_wait inb 0 h = h"
| "serial_wait inb (Suc n) h =
     (let (status, h) = inb 0x3FD h in if status AND 0x20 \<noteq> 0 then h else serial_wait inb n h)"

definition serial_putchar :: "'h inb \<Rightarrow> 'h outb \<Rightarrow> bool \<Rightarrow> char \<Rightarrow> 'h \<Rightarrow> 'h" where
  "serial_putchar inb outb g_ready c h =
     (if \<not> g_ready then h else outb 0x3F8 (of_nat (of_char c)) (serial_wait inb 100000 h))"

definition serial_write :: "'h inb \<Rightarrow> 'h outb \<Rightarrow> bool \<Rightarrow> string \<Rightarrow> 'h \<Rightarrow> 'h" where
  "serial_write inb outb g_ready s h = fold (serial_putchar inb outb g_ready) s h"

end
