(* ===== verification/Console.thy ===== *)
theory Console
  imports Fb Hardware
begin

text \<open>
  The console layer, \<open>kernel/core/console.c\<close>, and \<open>kprintf\<close> of \<open>kernel/core/klib.c\<close>: each character goes to
  the serial line and, if there is one, to the framebuffer console.
\<close>

record 'h console =
  g_fb_active :: bool
  g_ready :: bool
  screen :: fb
  ports :: 'h

definition console_init :: "'h outb \<Rightarrow> limine_framebuffer option \<Rightarrow> 'h console \<Rightarrow> 'h console" where
  "console_init outb lf c =
     (let (ready, h) = serial_init outb (ports c); c = c\<lparr>g_ready := ready, ports := h\<rparr>
      in case lf of
           None \<Rightarrow> c\<lparr>g_fb_active := False\<rparr>
         | Some _ \<Rightarrow> (let (r, f) = fb_init lf (screen c) in c\<lparr>g_fb_active := (r = 0), screen := f\<rparr>))"

definition console_putchar :: "'h inb \<Rightarrow> 'h outb \<Rightarrow> char \<Rightarrow> 'h console \<Rightarrow> 'h console" where
  "console_putchar inb outb ch c =
     (let c = c\<lparr>ports := serial_putchar inb outb (g_ready c) ch (ports c)\<rparr>
      in if g_fb_active c then c\<lparr>screen := fb_putchar ch (screen c)\<rparr> else c)"

definition console_write :: "'h inb \<Rightarrow> 'h outb \<Rightarrow> string \<Rightarrow> 'h console \<Rightarrow> 'h console" where
  "console_write inb outb s c = fold (console_putchar inb outb) s c"

definition on_screen :: "(fb \<Rightarrow> fb) \<Rightarrow> 'h console \<Rightarrow> 'h console" where
  "on_screen g c = (if g_fb_active c then c\<lparr>screen := g (screen c)\<rparr> else c)"

definition console_clear :: "'h console \<Rightarrow> 'h console" where
  "console_clear = on_screen fb_clear"

definition console_scroll_page :: "int \<Rightarrow> 'h console \<Rightarrow> 'h console" where
  "console_scroll_page dir = on_screen (fb_scroll_page dir)"

definition console_set_color :: "u32 \<Rightarrow> u32 \<Rightarrow> 'h console \<Rightarrow> 'h console" where
  "console_set_color fg bg = on_screen (fb_set_color fg bg)"

definition console_set_text_top :: "nat \<Rightarrow> 'h console \<Rightarrow> 'h console" where
  "console_set_text_top pixel_y = on_screen (fb_set_text_top pixel_y)"

definition console_has_framebuffer :: "'h console \<Rightarrow> bool" where
  "console_has_framebuffer = g_fb_active"

text \<open>\<open>None\<close> if the format walk leaves the format or the arguments. The preemption counter is not part of
  the state: what runs between two waits is atomic.\<close>

definition kprintf :: "'h inb \<Rightarrow> 'h outb \<Rightarrow> string \<Rightarrow> karg list \<Rightarrow> 'h console \<Rightarrow> 'h console option" where
  "kprintf inb outb fmt args c = map_option (\<lambda>s. console_write inb outb s c) (kvprintf fmt args)"

end
