(* ===== verification/Pmm.thy ===== *)
theory Pmm
  imports Tus_Prelude
begin

text \<open>
  The physical memory manager, \<open>kernel/mm/pmm.c\<close>: a bitmap with one bit per 4 KiB frame
  (set = used), filled from the boot loader's memory map, with a first-fit search that starts
  at the position after the last allocation. The file's static variables are the fields of the
  record \<open>pmm\<close>; every later layer of the kernel state extends that record, so the operations
  here apply to it unchanged. Frame numbers and counters are \<open>nat\<close> (they stay below
  \<open>2\<^sup>5\<^sup>2\<close>, so the code's 64-bit arithmetic on them never wraps); physical addresses and the
  entries of the memory map are 64-bit words, and \<open>g_allocated_frames\<close> is one too, because
  freeing a frame that was never allocated decrements it below zero.
\<close>

section \<open>State and operations\<close>

definition FRAME_SHIFT :: nat where "FRAME_SHIFT = 12"

definition MAX_FRAMES :: nat where "MAX_FRAMES = 1048576"

definition LIMINE_MEMMAP_USABLE :: u64 where "LIMINE_MEMMAP_USABLE = 0"

record limine_memmap_entry =
  me_base :: u64
  me_length :: u64
  me_type :: u64

record pmm =
  g_bitmap :: "nat \<Rightarrow> u8"
  g_total_frames :: nat
  g_allocated_frames :: u64
  g_hhdm_offset :: u64
  g_last_hint :: nat

definition frame_is_free :: "'a pmm_scheme \<Rightarrow> nat \<Rightarrow> bool" where
  "frame_is_free s frame = (g_bitmap s (frame div 8) AND push_bit (frame mod 8) 1 = 0)"

definition frame_set_used :: "nat \<Rightarrow> 'a pmm_scheme \<Rightarrow> 'a pmm_scheme" where
  "frame_set_used frame s =
     s\<lparr>g_bitmap := (g_bitmap s)(frame div 8 := g_bitmap s (frame div 8) OR push_bit (frame mod 8) 1)\<rparr>"

definition frame_set_free :: "nat \<Rightarrow> 'a pmm_scheme \<Rightarrow> 'a pmm_scheme" where
  "frame_set_free frame s =
     s\<lparr>g_bitmap := (g_bitmap s)(frame div 8 := g_bitmap s (frame div 8) AND NOT (push_bit (frame mod 8) 1))\<rparr>"

text \<open>The bodies of the two nested loops of \<open>pmm_init\<close>: one frame, and one memory-map entry.\<close>

definition pmm_init_frame :: "nat \<Rightarrow> 'a pmm_scheme \<Rightarrow> 'a pmm_scheme" where
  "pmm_init_frame frame s = (frame_set_free frame s)\<lparr>g_total_frames := g_total_frames s + 1\<rparr>"

definition pmm_init_entry :: "limine_memmap_entry \<Rightarrow> 'a pmm_scheme \<Rightarrow> 'a pmm_scheme" where
  "pmm_init_entry entry s =
     (if me_type entry \<noteq> LIMINE_MEMMAP_USABLE then s
      else let start = unat (drop_bit FRAME_SHIFT (me_base entry + 4096 - 1));
               end0 = unat (drop_bit FRAME_SHIFT (me_base entry + me_length entry));
               end1 = (if end0 > MAX_FRAMES then MAX_FRAMES else end0)
           in fold pmm_init_frame [start..<end1] s)"

definition pmm_init :: "limine_memmap_entry list option \<Rightarrow> u64 \<Rightarrow> 'a pmm_scheme \<Rightarrow> 'a pmm_scheme" where
  "pmm_init memmap hhdm_offset s =
     (let s = s\<lparr>g_hhdm_offset := hhdm_offset, g_bitmap := (\<lambda>_. 0xFF),
                g_total_frames := 0, g_allocated_frames := 0\<rparr>
      in case memmap of None \<Rightarrow> s
         | Some entries \<Rightarrow> (fold pmm_init_entry entries s)\<lparr>g_last_hint := 0\<rparr>)"

text \<open>Both search loops of \<open>pmm_alloc_frame\<close> end in the same four statements.\<close>

definition pmm_take :: "nat \<Rightarrow> 'a pmm_scheme \<Rightarrow> u64 \<times> 'a pmm_scheme" where
  "pmm_take i s =
     (push_bit FRAME_SHIFT (of_nat i),
      (frame_set_used i s)\<lparr>g_allocated_frames := g_allocated_frames s + 1, g_last_hint := i + 1\<rparr>)"

definition pmm_alloc_frame :: "'a pmm_scheme \<Rightarrow> u64 \<times> 'a pmm_scheme" where
  "pmm_alloc_frame s =
     (case find (frame_is_free s) [g_last_hint s..<g_total_frames s] of
        Some i \<Rightarrow> pmm_take i s
      | None \<Rightarrow>
          (case find (frame_is_free s) [0..<min (g_last_hint s) (g_total_frames s)] of
             Some i \<Rightarrow> pmm_take i s
           | None \<Rightarrow> (0, s)))"

definition pmm_run_free :: "'a pmm_scheme \<Rightarrow> nat \<Rightarrow> nat \<Rightarrow> bool" where
  "pmm_run_free s count i = (\<forall>j\<in>set [0..<count]. frame_is_free s (i + j))"

definition pmm_alloc_frames :: "nat \<Rightarrow> 'a pmm_scheme \<Rightarrow> u64 \<times> 'a pmm_scheme" where
  "pmm_alloc_frames count s =
     (if count = 0 then (0, s)
      else case find (pmm_run_free s count) [0..<Suc (g_total_frames s) - count] of
        Some i \<Rightarrow>
          (push_bit FRAME_SHIFT (of_nat i),
           (fold (\<lambda>j. frame_set_used (i + j)) [0..<count] s)
             \<lparr>g_allocated_frames := g_allocated_frames s + of_nat count, g_last_hint := i + count\<rparr>)
      | None \<Rightarrow> (0, s))"

definition pmm_free_frame :: "u64 \<Rightarrow> 'a pmm_scheme \<Rightarrow> 'a pmm_scheme" where
  "pmm_free_frame phys s =
     (let frame = unat (drop_bit FRAME_SHIFT phys)
      in if frame \<ge> g_total_frames s then s
         else if frame_is_free s frame then s
         else (frame_set_free frame s)\<lparr>g_allocated_frames := g_allocated_frames s - 1\<rparr>)"

definition pmm_free_frames :: "u64 \<Rightarrow> nat \<Rightarrow> 'a pmm_scheme \<Rightarrow> 'a pmm_scheme" where
  "pmm_free_frames phys count s =
     fold (\<lambda>i. pmm_free_frame (phys + of_nat i * 4096)) [0..<count] s"

definition pmm_phys_to_virt :: "'a pmm_scheme \<Rightarrow> u64 \<Rightarrow> u64" where
  "pmm_phys_to_virt s phys = phys + g_hhdm_offset s"

text \<open>The two results of \<open>pmm_get_stats\<close>: total and free frames.\<close>

definition pmm_get_stats :: "'a pmm_scheme \<Rightarrow> u64 \<times> u64" where
  "pmm_get_stats s =
     (of_nat (g_total_frames s), of_nat (g_total_frames s) - g_allocated_frames s)"

section \<open>The bitmap as a set of free frames\<close>

lemma frame_is_free_bit: "frame_is_free s f \<longleftrightarrow> \<not> bit (g_bitmap s (f div 8)) (f mod 8)"
  by (simp add: frame_is_free_def push_bit_of_1 and_exp_eq_0_iff_not_bit)

lemma same_bit: "g div 8 = f div 8 \<and> g mod 8 = f mod 8 \<longleftrightarrow> g = (f::nat)"
  by (metis div_mult_mod_eq)

lemma frame_is_free_set_used [simp]:
  "frame_is_free (frame_set_used f s) g \<longleftrightarrow> g \<noteq> f \<and> frame_is_free s g"
  by (auto simp: frame_is_free_bit frame_set_used_def bit_or_iff bit_exp_iff possible_bit_word push_bit_of_1
        simp flip: same_bit [of g f])

lemma frame_is_free_set_free [simp]:
  "frame_is_free (frame_set_free f s) g \<longleftrightarrow> g = f \<or> frame_is_free s g"
  by (auto simp: frame_is_free_bit frame_set_free_def bit_and_iff bit_not_iff bit_exp_iff possible_bit_word push_bit_of_1
        simp flip: same_bit [of g f])

lemma frame_set_fields [simp, frame_simps]:
  "g_total_frames (frame_set_used f s) = g_total_frames s"
  "g_total_frames (frame_set_free f s) = g_total_frames s"
  "g_last_hint (frame_set_used f s) = g_last_hint s"
  "g_last_hint (frame_set_free f s) = g_last_hint s"
  "g_allocated_frames (frame_set_used f s) = g_allocated_frames s"
  "g_allocated_frames (frame_set_free f s) = g_allocated_frames s"
  "g_hhdm_offset (frame_set_used f s) = g_hhdm_offset s"
  "g_hhdm_offset (frame_set_free f s) = g_hhdm_offset s"
  "pmm.more (frame_set_used f s) = pmm.more s"
  "pmm.more (frame_set_free f s) = pmm.more s"
  by (simp_all add: frame_set_used_def frame_set_free_def)

lemma frame_is_free_upd [simp]:
  "frame_is_free (s\<lparr>g_total_frames := a\<rparr>) = frame_is_free s"
  "frame_is_free (s\<lparr>g_allocated_frames := b\<rparr>) = frame_is_free s"
  "frame_is_free (s\<lparr>g_last_hint := c\<rparr>) = frame_is_free s"
  by (simp_all add: frame_is_free_def fun_eq_iff)

text \<open>The abstract state: the frames an allocation may still hand out.\<close>

definition free_set :: "'a pmm_scheme \<Rightarrow> nat set" where
  "free_set s = {f. f < g_total_frames s \<and> frame_is_free s f}"

lemma finite_free_set [simp]: "finite (free_set s)"
  by (rule finite_subset [of _ "{..<g_total_frames s}"]) (auto simp: free_set_def)

text \<open>The invariant: the scan stays inside the bitmap, and frame 0 is never handed out (its
  address is the failure value).\<close>

definition pmm_inv :: "'a pmm_scheme \<Rightarrow> bool" where
  "pmm_inv s \<longleftrightarrow> g_total_frames s \<le> MAX_FRAMES \<and> \<not> frame_is_free s 0"

lemma free_set_bound: "pmm_inv s \<Longrightarrow> f \<in> free_set s \<Longrightarrow> 0 < f \<and> f < 2 ^ 52"
  by (auto simp: pmm_inv_def free_set_def MAX_FRAMES_def intro!: gr0I)

lemma pmm_take_effect:
  assumes "f \<in> free_set s"
  shows "free_set (snd (pmm_take f s)) = free_set s - {f}"
    and "g_total_frames (snd (pmm_take f s)) = g_total_frames s"
    and "g_allocated_frames (snd (pmm_take f s)) = g_allocated_frames s + 1"
    and "pmm.more (snd (pmm_take f s)) = pmm.more s"
    and "pmm_inv s \<Longrightarrow> pmm_inv (snd (pmm_take f s))"
  using assms by (auto simp: pmm_take_def free_set_def pmm_inv_def)

text \<open>The two loops together: the first free frame at or after the hint, else the first one
  below it, else failure with the state untouched.\<close>

definition first_fit :: "nat \<Rightarrow> nat set \<Rightarrow> nat" where
  "first_fit hint F = (if \<exists>f\<in>F. hint \<le> f then Min {f \<in> F. hint \<le> f} else Min F)"

lemma find_least:
  assumes "find P [a..<b] = Some i"
  shows "Min {j. a \<le> j \<and> j < b \<and> P j} = i"
  using assms unfolding find_upt_Some by (intro Min_eqI) (auto simp: not_less [symmetric])

lemma pmm_alloc_frame_spec:
  "pmm_alloc_frame s =
     (if free_set s = {} then (0, s) else pmm_take (first_fit (g_last_hint s) (free_set s)) s)"
proof (cases "find (frame_is_free s) [g_last_hint s..<g_total_frames s]")
  case (Some i)
  have set: "{j. g_last_hint s \<le> j \<and> j < g_total_frames s \<and> frame_is_free s j} =
      {f \<in> free_set s. g_last_hint s \<le> f}"
    by (auto simp: free_set_def)
  from Some have "i \<in> free_set s" "g_last_hint s \<le> i"
    by (auto simp: find_upt_Some free_set_def)
  with find_least [OF Some] show ?thesis
    unfolding set by (auto simp: pmm_alloc_frame_def Some first_fit_def)
next
  case None
  then have none: "\<not> (\<exists>f\<in>free_set s. g_last_hint s \<le> f)"
    by (auto simp: find_upt_None free_set_def)
  have set: "{j. 0 \<le> j \<and> j < min (g_last_hint s) (g_total_frames s) \<and> frame_is_free s j} = free_set s"
    using none by (auto simp: free_set_def not_le)
  show ?thesis
  proof (cases "find (frame_is_free s) [0..<min (g_last_hint s) (g_total_frames s)]")
    case (Some i)
    from find_least [OF Some] Some have "i = Min (free_set s)" "free_set s \<noteq> {}"
      unfolding set by (auto simp: find_upt_Some free_set_def)
    with none show ?thesis by (auto simp: pmm_alloc_frame_def None Some first_fit_def)
  next
    case None2: None
    then have "free_set s = {}"
      using set by (auto simp: find_upt_None)
    then show ?thesis by (simp add: pmm_alloc_frame_def None None2)
  qed
qed

lemma first_fit_mem: "finite F \<Longrightarrow> F \<noteq> {} \<Longrightarrow> first_fit h F \<in> F"
proof (cases "\<exists>f\<in>F. h \<le> f")
  case True
  moreover assume "finite F"
  ultimately have "Min {f \<in> F. h \<le> f} \<in> {f \<in> F. h \<le> f}" by (intro Min_in) auto
  with True show ?thesis by (simp add: first_fit_def)
qed (auto simp: first_fit_def)

lemma pmm_free_frame_effect:
  assumes "unat (drop_bit 12 phys) = f" and "f < g_total_frames s" and "\<not> frame_is_free s f"
  shows "free_set (pmm_free_frame phys s) = insert f (free_set s)"
    and "g_allocated_frames (pmm_free_frame phys s) = g_allocated_frames s - 1"
    and "g_total_frames (pmm_free_frame phys s) = g_total_frames s"
    and "f \<noteq> 0 \<Longrightarrow> pmm_inv s \<Longrightarrow> pmm_inv (pmm_free_frame phys s)"
  using assms by (auto simp: pmm_free_frame_def free_set_def pmm_inv_def FRAME_SHIFT_def)

lemma pmm_frame [frame_simps]:
  "pmm.more (snd (pmm_alloc_frame s)) = pmm.more s"
  "pmm.more (pmm_free_frame phys s) = pmm.more s"
  "g_total_frames (snd (pmm_alloc_frame s)) = g_total_frames s"
  "g_hhdm_offset (snd (pmm_alloc_frame s)) = g_hhdm_offset s"
  "g_total_frames (pmm_free_frame phys s) = g_total_frames s"
  "g_hhdm_offset (pmm_free_frame phys s) = g_hhdm_offset s"
  by (auto simp: pmm_alloc_frame_def pmm_take_def pmm_free_frame_def Let_def split: option.splits)

subsection \<open>Contiguous runs\<close>

lemma fold_set_used:
  "frame_is_free (fold (\<lambda>j. frame_set_used (i + j)) xs s) g \<longleftrightarrow>
     frame_is_free s g \<and> g \<notin> (+) i ` set xs"
  "g_total_frames (fold (\<lambda>j. frame_set_used (i + j)) xs s) = g_total_frames s"
  "pmm.more (fold (\<lambda>j. frame_set_used (i + j)) xs s) = pmm.more s"
  by (induction xs arbitrary: s) auto

lemma pmm_run_free_iff: "pmm_run_free s count i \<longleftrightarrow> (\<forall>f. i \<le> f \<and> f < i + count \<longrightarrow> frame_is_free s f)"
  unfolding pmm_run_free_def by (auto simp: nat_le_iff_add)

lemma image_plus_upt: "(+) i ` set [0..<count] = {i..<i + (count::nat)}"
  by (auto simp: image_iff nat_le_iff_add)

lemma pmm_alloc_frames_spec:
  assumes "0 < count"
  shows "(\<exists>i. {i..<i + count} \<subseteq> free_set s \<and>
            (\<forall>i'<i. \<not> {i'..<i' + count} \<subseteq> free_set s) \<and>
            fst (pmm_alloc_frames count s) = push_bit 12 (of_nat i) \<and>
            free_set (snd (pmm_alloc_frames count s)) = free_set s - {i..<i + count}) \<or>
         (\<forall>i. \<not> {i..<i + count} \<subseteq> free_set s) \<and> pmm_alloc_frames count s = (0, s)"
proof -
  have run: "{i..<i + count} \<subseteq> free_set s \<longleftrightarrow>
      i < Suc (g_total_frames s) - count \<and> pmm_run_free s count i" for i
  proof
    assume sub: "{i..<i + count} \<subseteq> free_set s"
    have "i + count - 1 \<in> {i..<i + count}" using assms by auto
    with sub have "i + count - 1 < g_total_frames s" by (auto simp: free_set_def)
    with assms have "i < Suc (g_total_frames s) - count" by linarith
    with sub show "i < Suc (g_total_frames s) - count \<and> pmm_run_free s count i"
      by (auto simp: pmm_run_free_iff free_set_def subset_iff)
  qed (auto simp: pmm_run_free_iff free_set_def)
  show ?thesis
  proof (cases "find (pmm_run_free s count) [0..<Suc (g_total_frames s) - count]")
    case (Some i)
    have "free_set (snd (pmm_alloc_frames count s)) = free_set s - {i..<i + count}"
      using assms Some by (auto simp: pmm_alloc_frames_def free_set_def fold_set_used image_plus_upt)
    then show ?thesis
      using Some assms unfolding run find_upt_Some
      by (intro disjI1 exI [of _ i]) (auto simp: pmm_alloc_frames_def Some FRAME_SHIFT_def)
  next
    case None
    then show ?thesis using assms unfolding run find_upt_None
      by (intro disjI2) (auto simp: pmm_alloc_frames_def None)
  qed
qed

subsection \<open>Initialisation\<close>

text \<open>The frames that lie wholly inside a usable entry of the memory map.\<close>

definition entry_frames :: "limine_memmap_entry \<Rightarrow> nat set" where
  "entry_frames e =
     (if me_type e = LIMINE_MEMMAP_USABLE
      then {unat (drop_bit 12 (me_base e + 4096 - 1))..<min MAX_FRAMES (unat (drop_bit 12 (me_base e + me_length e)))}
      else {})"

lemma finite_entry_frames [simp]: "finite (entry_frames e)"
  by (simp add: entry_frames_def)

lemma fold_init_frames:
  "frame_is_free (fold pmm_init_frame xs s) g
     \<longleftrightarrow> frame_is_free s g \<or> g \<in> set xs"
  "g_total_frames (fold pmm_init_frame xs s)
     = g_total_frames s + length xs"
  "g_allocated_frames (fold pmm_init_frame xs s)
     = g_allocated_frames s"
  by (induction xs arbitrary: s) (auto simp: pmm_init_frame_def)

lemma pmm_init_entry_effect:
  "frame_is_free (pmm_init_entry e s) g \<longleftrightarrow> frame_is_free s g \<or> g \<in> entry_frames e"
  "g_total_frames (pmm_init_entry e s) = g_total_frames s + card (entry_frames e)"
  "g_allocated_frames (pmm_init_entry e s) = g_allocated_frames s"
  by (auto simp: pmm_init_entry_def entry_frames_def Let_def fold_init_frames FRAME_SHIFT_def min_def)

lemma fold_pmm_init_entry:
  "frame_is_free (fold pmm_init_entry es s) g \<longleftrightarrow> frame_is_free s g \<or> (\<exists>e\<in>set es. g \<in> entry_frames e)"
  "g_total_frames (fold pmm_init_entry es s) = g_total_frames s + (\<Sum>e\<leftarrow>es. card (entry_frames e))"
  "g_allocated_frames (fold pmm_init_entry es s) = g_allocated_frames s"
  by (induction es arbitrary: s) (auto simp: pmm_init_entry_effect)

fun regions_disjoint :: "limine_memmap_entry list \<Rightarrow> bool" where
  "regions_disjoint [] = True"
| "regions_disjoint (e # es) =
     ((\<forall>e'\<in>set es. entry_frames e \<inter> entry_frames e' = {}) \<and> regions_disjoint es)"

lemma sum_card_disjoint:
  "regions_disjoint es \<Longrightarrow> (\<Sum>e\<leftarrow>es. card (entry_frames e)) = card (\<Union>e\<in>set es. entry_frames e)"
proof (induction es)
  case (Cons e es)
  then have "entry_frames e \<inter> (\<Union>e\<in>set es. entry_frames e) = {}" by auto
  with Cons show ?case by (simp add: card_Un_disjoint)
qed simp

lemma all_ones_u8: "bit (255 :: u8) (f mod 8)"
proof -
  have "(255 :: u8) = mask 8" by (simp add: mask_eq_exp_minus_1)
  then show ?thesis by (simp only: bit_mask_iff) simp
qed

lemma pmm_init_effect:
  fixes s :: "'a pmm_scheme"
  shows "frame_is_free (pmm_init (Some es) hhdm s) f \<longleftrightarrow> (\<exists>e\<in>set es. f \<in> entry_frames e)"
    and "g_total_frames (pmm_init (Some es) hhdm s) = (\<Sum>e\<leftarrow>es. card (entry_frames e))"
    and "g_allocated_frames (pmm_init (Some es) hhdm s) = 0"
  by (simp_all add: pmm_init_def fold_pmm_init_entry)
     (use all_ones_u8 [of f] in \<open>simp add: frame_is_free_bit\<close>)

lemma fold_init_more:
  "pmm.more (fold pmm_init_frame fs s) = pmm.more s" "pmm.more (fold pmm_init_entry es s) = pmm.more s"
proof -
  show f: "pmm.more (fold pmm_init_frame fs s) = pmm.more s" for fs s
    by (induction fs arbitrary: s) (simp_all add: pmm_init_frame_def)
  show "pmm.more (fold pmm_init_entry es s) = pmm.more s"
    by (induction es arbitrary: s) (simp_all add: pmm_init_entry_def Let_def f)
qed

lemma pmm_init_more: "pmm.more (pmm_init m h s) = pmm.more s"
  by (cases m) (simp_all add: pmm_init_def fold_init_more)

section \<open>The allocator interface\<close>

text \<open>What the page-table code and the kernel heap rely on: \<open>frames\<close> are the addresses that may
  still be handed out, \<open>pool\<close> those that may ever be; an allocation removes its result from
  \<open>frames\<close> or fails with 0 exactly when there is none, and a release puts its argument back.\<close>

locale frame_allocator =
  fixes inv :: "'s \<Rightarrow> bool"
    and pool :: "'s \<Rightarrow> u64 set"
    and frames :: "'s \<Rightarrow> u64 set"
    and alloc :: "'s \<Rightarrow> u64 \<times> 's"
    and release :: "u64 \<Rightarrow> 's \<Rightarrow> 's"
  assumes alloc_empty: "inv s \<Longrightarrow> frames s = {} \<Longrightarrow> alloc s = (0, s)"
    and alloc_mem: "inv s \<Longrightarrow> frames s \<noteq> {} \<Longrightarrow> fst (alloc s) \<in> frames s"
    and alloc_frames: "inv s \<Longrightarrow> frames (snd (alloc s)) = frames s - {fst (alloc s)}"
    and alloc_inv: "inv s \<Longrightarrow> inv (snd (alloc s))"
    and alloc_pool: "inv s \<Longrightarrow> pool (snd (alloc s)) = pool s"
    and release_frames: "inv s \<Longrightarrow> p \<in> pool s \<Longrightarrow> frames (release p s) = insert p (frames s)"
    and release_inv: "inv s \<Longrightarrow> p \<in> pool s \<Longrightarrow> inv (release p s)"
    and release_pool: "inv s \<Longrightarrow> pool (release p s) = pool s"
    and frames_pool: "inv s \<Longrightarrow> frames s \<subseteq> pool s"
    and pool_page: "inv s \<Longrightarrow> p \<in> pool s \<Longrightarrow> p \<noteq> 0 \<and> p AND 0xFFF = 0"
    and finite_pool: "inv s \<Longrightarrow> finite (pool s)"

fun alloc_many :: "('s \<Rightarrow> u64 \<times> 's) \<Rightarrow> nat \<Rightarrow> 's \<Rightarrow> u64 list \<times> 's" where
  "alloc_many alloc 0 s = ([], s)"
| "alloc_many alloc (Suc n) s =
     (let (p, s) = alloc s; (ps, s) = alloc_many alloc n s in (p # ps, s))"

context frame_allocator
begin

lemma finite_frames: "inv s \<Longrightarrow> finite (frames s)"
  using finite_pool frames_pool finite_subset by blast

lemma alloc_zero_iff: "inv s \<Longrightarrow> fst (alloc s) = 0 \<longleftrightarrow> frames s = {}"
  using alloc_empty alloc_mem frames_pool pool_page by (metis fst_conv subset_eq)

lemma alloc_page: "inv s \<Longrightarrow> fst (alloc s) AND 0xFFF = 0"
  using alloc_empty alloc_mem frames_pool pool_page
  by (cases "frames s = {}") (auto simp: subset_eq)

lemma alloc_card: "inv s \<Longrightarrow> frames s \<noteq> {} \<Longrightarrow> card (frames s) = Suc (card (frames (snd (alloc s))))"
  by (simp add: alloc_frames alloc_mem finite_frames card_gt_0_iff)

lemma alloc_release:
  assumes "inv s" "alloc s = (p, t)" "p \<noteq> 0"
  shows "frames (release p t) = frames s"
proof -
  from assms have "p \<in> frames s" using alloc_mem [of s] alloc_zero_iff [of s] by auto
  moreover from this assms have "p \<in> pool t" using frames_pool alloc_pool [of s] by auto
  moreover have "inv t" "frames t = frames s - {p}"
    using assms alloc_inv [of s] alloc_frames [of s] by auto
  ultimately show ?thesis by (auto simp: release_frames)
qed

text \<open>As many allocations as there are frames succeed, with pairwise different results.\<close>

lemma alloc_many_distinct:
  assumes "inv s" "n \<le> card (frames s)" "alloc_many alloc n s = (ps, t)"
  shows "distinct ps \<and> set ps \<subseteq> frames s \<and> frames t = frames s - set ps \<and> inv t \<and> length ps = n"
  using assms
proof (induction n arbitrary: s ps)
  case (Suc n)
  obtain p u where p: "alloc s = (p, u)" by (cases "alloc s")
  obtain qs where qs: "alloc_many alloc n u = (qs, t)" "ps = p # qs"
    using Suc.prems(3) by (auto simp: p split: prod.splits)
  from Suc.prems have ne: "frames s \<noteq> {}" by auto
  with Suc.prems(1) p have u: "inv u" "frames u = frames s - {p}" "p \<in> frames s"
    using alloc_inv [of s] alloc_frames [of s] alloc_mem [of s] by auto
  moreover have "n \<le> card (frames u)" using Suc.prems alloc_card [OF Suc.prems(1) ne] p by simp
  ultimately show ?case using Suc.IH [OF u(1) _ qs(1)] qs(2) by auto
qed simp

end

definition frame_addr :: "nat \<Rightarrow> u64" where
  "frame_addr f = push_bit 12 (of_nat f)"

definition free_addrs :: "'a pmm_scheme \<Rightarrow> u64 set" where
  "free_addrs s = frame_addr ` free_set s"

definition pool_addrs :: "'a pmm_scheme \<Rightarrow> u64 set" where
  "pool_addrs s = frame_addr ` {0<..<g_total_frames s}"

lemma frame_addr_eq_iff: "f < 2 ^ 52 \<Longrightarrow> g < 2 ^ 52 \<Longrightarrow> frame_addr f = frame_addr g \<longleftrightarrow> f = g"
  unfolding frame_addr_def using push_bit_12_inj by blast

lemma frame_addr_0_iff: "f < 2 ^ 52 \<Longrightarrow> frame_addr f = 0 \<longleftrightarrow> f = 0"
  by (simp add: frame_addr_def push_bit_12_eq_0_iff)

lemma unat_frame_addr: "f < 2 ^ 52 \<Longrightarrow> unat (drop_bit 12 (frame_addr f)) = f"
  by (simp add: frame_addr_def drop_push_bit_12)

lemma frame_addr_low: "frame_addr f AND 0xFFF = 0"
proof -
  have "(0xFFF :: u64) = mask 12" by (simp add: mask_eq_exp_minus_1)
  moreover have "frame_addr f AND mask 12 = 0"
    by (rule bit_word_eqI) (auto simp: frame_addr_def bit_and_iff bit_mask_iff bit_push_bit_iff)
  ultimately show ?thesis by (simp only:)
qed

lemma pmm_alloc_frame_result:
  "fst (pmm_alloc_frame s) = (if free_set s = {} then 0 else frame_addr (first_fit (g_last_hint s) (free_set s)))"
  by (simp add: pmm_alloc_frame_spec pmm_take_def FRAME_SHIFT_def frame_addr_def)

lemma pmm_alloc_frame_state:
  "free_set (snd (pmm_alloc_frame s)) = free_set s - {first_fit (g_last_hint s) (free_set s)}"
  "pmm_inv s \<Longrightarrow> pmm_inv (snd (pmm_alloc_frame s))"
  by (auto simp: pmm_alloc_frame_spec pmm_take_effect first_fit_mem)

lemma image_minus_addr:
  assumes "pmm_inv s" and "f \<in> free_set s"
  shows "frame_addr ` (free_set s - {f}) = frame_addr ` free_set s - {frame_addr f}"
  using free_set_bound [OF assms(1)] assms(2) by (auto simp: frame_addr_eq_iff)

lemma pmm_free_frame_free_set:
  "pmm_inv s \<Longrightarrow> 0 < f \<Longrightarrow> f < g_total_frames s \<Longrightarrow>
     free_set (pmm_free_frame (frame_addr f) s) = insert f (free_set s) \<and> pmm_inv (pmm_free_frame (frame_addr f) s)"
  using unat_frame_addr [of f]
  by (auto simp: pmm_free_frame_def Let_def FRAME_SHIFT_def free_set_def pmm_inv_def MAX_FRAMES_def)

interpretation pmm: frame_allocator pmm_inv pool_addrs free_addrs pmm_alloc_frame pmm_free_frame
proof unfold_locales
  fix s :: "'a pmm_scheme" and p
  assume inv: "pmm_inv s"
  have bnd: "g_total_frames s \<le> 2 ^ 20" using inv by (simp add: pmm_inv_def MAX_FRAMES_def)
  show "free_addrs s = {} \<Longrightarrow> pmm_alloc_frame s = (0, s)"
    by (simp add: free_addrs_def pmm_alloc_frame_spec)
  show "free_addrs s \<noteq> {} \<Longrightarrow> fst (pmm_alloc_frame s) \<in> free_addrs s"
    by (auto simp: free_addrs_def pmm_alloc_frame_result intro!: imageI first_fit_mem)
  show "free_addrs (snd (pmm_alloc_frame s)) = free_addrs s - {fst (pmm_alloc_frame s)}"
    by (cases "free_set s = {}")
      (simp_all add: free_addrs_def pmm_alloc_frame_result pmm_alloc_frame_state image_minus_addr inv first_fit_mem)
  show "pmm_inv (snd (pmm_alloc_frame s))" by (simp add: pmm_alloc_frame_state inv)
  show "pool_addrs (snd (pmm_alloc_frame s)) = pool_addrs s" by (simp add: pool_addrs_def pmm_frame)
  show "p \<in> pool_addrs s \<Longrightarrow> free_addrs (pmm_free_frame p s) = insert p (free_addrs s)"
    "p \<in> pool_addrs s \<Longrightarrow> pmm_inv (pmm_free_frame p s)"
    using pmm_free_frame_free_set [OF inv] by (auto simp: pool_addrs_def free_addrs_def)
  show "pool_addrs (pmm_free_frame p s) = pool_addrs s"
    by (simp add: pool_addrs_def pmm_free_frame_def Let_def)
  show "free_addrs s \<subseteq> pool_addrs s"
    using free_set_bound [OF inv] by (auto simp: free_addrs_def pool_addrs_def free_set_def)
  show "p \<in> pool_addrs s \<Longrightarrow> p \<noteq> 0 \<and> p AND 0xFFF = 0"
    using bnd by (auto simp: pool_addrs_def frame_addr_low frame_addr_0_iff)
  show "finite (pool_addrs s)" by (simp add: pool_addrs_def)
qed

lemma or_and_not_cancel:
  assumes "\<not> bit x n"
  shows "(x OR 2 ^ n) AND NOT (2 ^ n) = (x :: u8)"
  by (rule bit_word_eqI) (use assms in \<open>auto simp: bit_and_iff bit_or_iff bit_not_iff bit_exp_iff possible_bit_word\<close>)

lemma frame_set_free_used:
  "frame_is_free s f \<Longrightarrow> frame_set_free f (frame_set_used f s\<lparr>g_allocated_frames := a, g_last_hint := h\<rparr>) =
     s\<lparr>g_allocated_frames := a, g_last_hint := h\<rparr>"
  by (cases s) (simp add: frame_set_free_def frame_set_used_def frame_is_free_bit push_bit_of_1 or_and_not_cancel)

section \<open>Properties\<close>

text \<open>C1: \<open>pmm_alloc_frame\<close> refines removal from a set: it fails with 0 and changes nothing exactly
  when no frame below \<open>g_total_frames\<close> is free, and otherwise returns the page address of the
  first free frame at or after the hint (wrapping to the lowest), takes exactly that frame out of
  the free set, counts it, and keeps the invariant.\<close>

theorem pmm_alloc_frame_refines:
  assumes "pmm_inv s"
  shows "pmm_alloc_frame s = (0, s) \<and> free_set s = {} \<or>
    (\<exists>f t. pmm_alloc_frame s = (frame_addr f, t) \<and> frame_addr f \<noteq> 0 \<and>
       f = first_fit (g_last_hint s) (free_set s) \<and> f \<in> free_set s \<and>
       free_set t = free_set s - {f} \<and> pmm_inv t \<and> g_last_hint t = f + 1 \<and>
       g_allocated_frames t = g_allocated_frames s + 1)"
proof (cases "free_set s = {}")
  case False
  define f where "f = first_fit (g_last_hint s) (free_set s)"
  from False have f: "f \<in> free_set s" by (simp add: f_def first_fit_mem)
  with assms have "frame_addr f \<noteq> 0"
    using free_set_bound [of s f] by (auto simp: frame_addr_0_iff)
  moreover have "pmm_alloc_frame s = (frame_addr f, snd (pmm_take f s))"
    using False by (simp add: pmm_alloc_frame_spec f_def pmm_take_def FRAME_SHIFT_def frame_addr_def)
  moreover have "g_last_hint (snd (pmm_take f s)) = f + 1" by (simp add: pmm_take_def)
  ultimately show ?thesis using pmm_take_effect [OF f] f assms
    by (intro disjI2 exI [of _ f] exI [of _ "snd (pmm_take f s)"]) (simp add: f_def [symmetric])
qed (simp add: pmm_alloc_frame_spec)

text \<open>A small machine for the examples: one usable region of seven frames from address 0x1000 on.\<close>

definition small_region :: limine_memmap_entry where
  "small_region = \<lparr>me_base = 0x1000, me_length = 0x7000, me_type = 0\<rparr>"

lemma small_region_frames: "entry_frames small_region = {1..<8}"
  by (simp add: small_region_def entry_frames_def LIMINE_MEMMAP_USABLE_def MAX_FRAMES_def)

lemma small_region_init:
  "free_set (pmm_init (Some [small_region]) h s) = {1..<7}"
  "g_total_frames (pmm_init (Some [small_region]) h s) = 7"
  "pmm_inv (pmm_init (Some [small_region]) h s)"
  "g_last_hint (pmm_init (Some [small_region]) h s) = 0"
proof -
  show t: "g_total_frames (pmm_init (Some [small_region]) h s) = 7"
    by (simp add: pmm_init_effect small_region_frames)
  show "free_set (pmm_init (Some [small_region]) h s) = {1..<7}"
    using t by (auto simp: free_set_def pmm_init_effect small_region_frames)
  have "\<not> frame_is_free (pmm_init (Some [small_region]) h s) 0"
    by (simp add: pmm_init_effect small_region_frames)
  with t show "pmm_inv (pmm_init (Some [small_region]) h s)" by (simp add: pmm_inv_def MAX_FRAMES_def)
  show "g_last_hint (pmm_init (Some [small_region]) h s) = 0" by (simp add: pmm_init_def)
qed

definition pmm_example :: pmm where
  "pmm_example = pmm_init (Some [small_region]) 0
     \<lparr>g_bitmap = \<lambda>_. 0, g_total_frames = 0, g_allocated_frames = 0, g_hhdm_offset = 0, g_last_hint = 0\<rparr>"

lemmas pmm_example_state = small_region_init [where h = 0 and
    s = "\<lparr>g_bitmap = \<lambda>_. 0, g_total_frames = 0, g_allocated_frames = 0, g_hhdm_offset = 0, g_last_hint = 0\<rparr>",
    folded pmm_example_def]

theorem pmm_alloc_frame_refines_witness:
  "pmm_inv pmm_example \<and> fst (pmm_alloc_frame pmm_example) = frame_addr 1"
proof -
  have "first_fit 0 {1..<7} = 1" by (auto simp: first_fit_def intro!: Min_eqI)
  with pmm_alloc_frame_refines [OF pmm_example_state(3)] pmm_example_state show ?thesis by force
qed

text \<open>C2: a frame returned by \<open>pmm_alloc_frame\<close> and given back to \<open>pmm_free_frame\<close> leaves the
  manager as it was, the bitmap and the counters included; only the search hint has moved.\<close>

theorem pmm_alloc_free_roundtrip:
  assumes "pmm_inv s" and "pmm_alloc_frame s = (p, t)" and "p \<noteq> 0"
  shows "\<exists>f. p = frame_addr f \<and> pmm_free_frame p t = s\<lparr>g_last_hint := f + 1\<rparr>"
proof -
  define f where "f = first_fit (g_last_hint s) (free_set s)"
  from assms have ne: "free_set s \<noteq> {}" by (auto simp: pmm_alloc_frame_spec)
  then have f: "f \<in> free_set s" by (simp add: f_def first_fit_mem)
  have pt: "p = frame_addr f" "t = snd (pmm_take f s)"
    using assms(2) ne by (auto simp: pmm_alloc_frame_spec f_def pmm_take_def FRAME_SHIFT_def frame_addr_def)
  have "unat (drop_bit FRAME_SHIFT p) = f"
    using free_set_bound [OF assms(1) f] by (simp add: pt unat_frame_addr FRAME_SHIFT_def)
  moreover from f have "frame_is_free s f" "f < g_total_frames s" by (simp_all add: free_set_def)
  ultimately have "pmm_free_frame p t = s\<lparr>g_last_hint := f + 1\<rparr>"
    by (simp add: pmm_free_frame_def Let_def) (simp add: pt pmm_take_def frame_set_free_used)
  with pt(1) show ?thesis by blast
qed

theorem pmm_alloc_free_roundtrip_witness:
  "\<exists>p t f. pmm_alloc_frame pmm_example = (p, t) \<and> p = frame_addr f \<and>
     pmm_free_frame p t = pmm_example\<lparr>g_last_hint := f + 1\<rparr>"
proof -
  obtain p t where pt: "pmm_alloc_frame pmm_example = (p, t)" by (cases "pmm_alloc_frame pmm_example")
  moreover from pt have "p \<noteq> 0"
    using pmm.alloc_zero_iff [OF pmm_example_state(3)] by (simp add: free_addrs_def pmm_example_state)
  ultimately show ?thesis using pmm_alloc_free_roundtrip [OF pmm_example_state(3)] by blast
qed

text \<open>C3: as many consecutive \<open>pmm_alloc_frame\<close> calls as there are free frames all succeed, and
  the addresses they return are pairwise different, page-aligned and were all free before.\<close>

theorem pmm_alloc_frame_no_overlap:
  assumes "pmm_inv s" and "n \<le> card (free_set s)" and "alloc_many pmm_alloc_frame n s = (ps, t)"
  shows "distinct ps \<and> length ps = n \<and> 0 \<notin> set ps \<and> set ps \<subseteq> frame_addr ` free_set s \<and>
    frame_addr ` free_set t = frame_addr ` free_set s - set ps \<and> (\<forall>p\<in>set ps. p AND 0xFFF = 0)"
proof -
  have "inj_on frame_addr (free_set s)"
    using free_set_bound [OF assms(1)] by (auto simp: inj_on_def frame_addr_eq_iff)
  then have "n \<le> card (free_addrs s)" using assms(2) by (simp add: free_addrs_def card_image)
  from pmm.alloc_many_distinct [OF assms(1) this assms(3)]
  have *: "distinct ps" "length ps = n" "set ps \<subseteq> free_addrs s" "free_addrs t = free_addrs s - set ps"
    by auto
  moreover from * have "p \<noteq> 0 \<and> p AND 0xFFF = 0" if "p \<in> set ps" for p
    using that pmm.frames_pool [OF assms(1)] pmm.pool_page [OF assms(1)] by blast
  ultimately show ?thesis unfolding free_addrs_def by auto
qed

theorem pmm_alloc_frame_no_overlap_witness:
  "distinct (fst (alloc_many pmm_alloc_frame 6 pmm_example))"
  using pmm_alloc_frame_no_overlap [OF pmm_example_state(3), of 6 "fst (alloc_many pmm_alloc_frame 6 pmm_example)"
      "snd (alloc_many pmm_alloc_frame 6 pmm_example)"]
  by (simp add: pmm_example_state)

text \<open>C4: \<open>pmm_alloc_frames\<close> takes the lowest run of \<open>count\<close> free frames below \<open>g_total_frames\<close>,
  returns the address of its first frame and removes exactly that run from the free set; when
  there is no such run it returns 0 and changes nothing.\<close>

theorem pmm_alloc_frames_lowest_run:
  assumes "0 < count"
  shows "(\<exists>i. {i..<i + count} \<subseteq> free_set s \<and>
            (\<forall>i'<i. \<not> {i'..<i' + count} \<subseteq> free_set s) \<and>
            fst (pmm_alloc_frames count s) = frame_addr i \<and>
            free_set (snd (pmm_alloc_frames count s)) = free_set s - {i..<i + count}) \<or>
         (\<forall>i. \<not> {i..<i + count} \<subseteq> free_set s) \<and> pmm_alloc_frames count s = (0, s)"
  using pmm_alloc_frames_spec [OF assms, of s] by (simp add: frame_addr_def)

theorem pmm_alloc_frames_lowest_run_witness:
  "\<exists>i. {i..<i + 3} \<subseteq> free_set pmm_example \<and> fst (pmm_alloc_frames 3 pmm_example) = frame_addr i"
proof -
  have "{1..<1 + 3} \<subseteq> free_set pmm_example" by (simp add: pmm_example_state)
  moreover have "(0::nat) < 3" by simp
  ultimately show ?thesis using pmm_alloc_frames_lowest_run [of 3 pmm_example] by blast
qed

text \<open>C5: after \<open>pmm_init\<close> a frame is free exactly when some usable entry of the memory map covers
  it wholly (below the 4 GiB limit), and with disjoint entries \<open>g_total_frames\<close> is the number of
  such frames, all of them reported free by \<open>pmm_get_stats\<close>.\<close>

theorem pmm_init_usable:
  assumes "regions_disjoint es"
  shows "{f. frame_is_free (pmm_init (Some es) hhdm s) f} = (\<Union>e\<in>set es. entry_frames e) \<and>
    g_total_frames (pmm_init (Some es) hhdm s) = card (\<Union>e\<in>set es. entry_frames e) \<and>
    pmm_get_stats (pmm_init (Some es) hhdm s) =
      (of_nat (card (\<Union>e\<in>set es. entry_frames e)), of_nat (card (\<Union>e\<in>set es. entry_frames e)))"
  by (auto simp: pmm_init_effect sum_card_disjoint [OF assms] pmm_get_stats_def)

theorem pmm_init_usable_witness:
  "regions_disjoint [small_region] \<and> {f. frame_is_free pmm_example f} = {1..<8}"
  using pmm_init_usable [of "[small_region]" 0
      "\<lparr>g_bitmap = \<lambda>_. 0, g_total_frames = 0, g_allocated_frames = 0, g_hhdm_offset = 0, g_last_hint = 0\<rparr>"]
  unfolding pmm_example_def [symmetric] by (simp add: small_region_frames)



end
