(* ===== verification/Vmm.thy ===== *)
theory Vmm
  imports Pmm
begin

text \<open>
  The virtual memory manager, \<open>kernel/mm/vmm.c\<close>: four-level x86-64 page tables. The record \<open>vmm\<close>
  extends the physical memory manager's state with the 64-bit table entries the kernel reads and
  writes through the higher-half direct map (\<open>pt_mem\<close>, by kernel virtual address), the CR3 register
  and the two static variables of the file. A pointer to an entry is the address of its cell, as in
  the code (\<open>pt_cell\<close>). TLB maintenance (\<open>invlpg\<close>, the reload of CR3
  after a split) has no effect on this state and is left out.
\<close>

section \<open>State and operations\<close>

definition PTE_ADDR_MASK :: u64 where "PTE_ADDR_MASK = 0x000ffffffffff000"

definition KERNEL_HALF_BASE :: u64 where "KERNEL_HALF_BASE = 0xffff800000000000"

definition SPLIT_FLAGS_MASK :: u64 where
  "SPLIT_FLAGS_MASK = 0xFFF AND NOT (push_bit 7 1) AND NOT (push_bit 63 1)"

definition VMM_PRESENT :: u64 where "VMM_PRESENT = 1"
definition VMM_WRITE :: u64 where "VMM_WRITE = 2"
definition VMM_USER :: u64 where "VMM_USER = 4"

record vmm = pmm +
  pt_mem :: "u64 \<Rightarrow> u64"
  r_cr3 :: u64
  g_cr3 :: u64
  g_root_cr3 :: u64

text \<open>\<open>&table[i]\<close> for the table in the frame \<open>phys\<close>, read through the direct map.\<close>

definition pt_cell :: "'a pmm_scheme \<Rightarrow> u64 \<Rightarrow> nat \<Rightarrow> u64" where
  "pt_cell s phys i = pmm_phys_to_virt s phys + 8 * of_nat i"

definition pt_write :: "u64 \<Rightarrow> u64 \<Rightarrow> 'a vmm_scheme \<Rightarrow> 'a vmm_scheme" where
  "pt_write p v s = s\<lparr>pt_mem := (pt_mem s)(p := v)\<rparr>"

text \<open>\<open>memset(pmm_phys_to_virt(phys), 0, PAGE_SIZE)\<close> on the 512 entries of a table.\<close>

definition pt_zero_page :: "u64 \<Rightarrow> 'a vmm_scheme \<Rightarrow> 'a vmm_scheme" where
  "pt_zero_page phys s =
     fold (\<lambda>i. pt_write (pt_cell s phys i) 0) [0..<512] s"

definition table_fetch :: "u64 \<Rightarrow> bool \<Rightarrow> 'a vmm_scheme \<Rightarrow> u64 \<times> 'a vmm_scheme" where
  "table_fetch entry allocate s =
     (if pt_mem s entry AND VMM_PRESENT \<noteq> 0 then (pt_mem s entry AND PTE_ADDR_MASK, s)
      else if \<not> allocate then (0, s)
      else let (phys, s) = pmm_alloc_frame s
           in if phys = 0 then (0, s)
              else let s = pt_zero_page phys s
                   in (phys, pt_write entry (phys OR VMM_PRESENT OR VMM_WRITE OR VMM_USER) s))"

text \<open>The three blocks of \<open>walk_pt\<close> that split a large page differ in the stride of the entries
  they write and in the flags they add; the result is \<open>None\<close> when no frame is left, else whether
  a page was split.\<close>

definition split_large :: "u64 \<Rightarrow> u64 \<Rightarrow> u64 \<Rightarrow> 'a vmm_scheme \<Rightarrow> bool option \<times> 'a vmm_scheme" where
  "split_large entry stride extra s =
     (if pt_mem s entry AND push_bit 7 1 = 0 then (Some False, s)
      else let base = pt_mem s entry AND PTE_ADDR_MASK;
               flags_l = (pt_mem s entry AND SPLIT_FLAGS_MASK) OR extra;
               (new_phys, s) = pmm_alloc_frame s
           in if new_phys = 0 then (None, s)
              else let s = pt_zero_page new_phys s;
                       s = fold (\<lambda>i. pt_write (pt_cell s new_phys i)
                                    ((base + of_nat i * stride) OR flags_l)) [0..<512] s
                   in (Some True, pt_write entry (new_phys OR (pt_mem s entry AND 0xFFF)) s))"

text \<open>One level of the walk: split the entry if it is a large page, then fetch the table below it.\<close>

definition walk_level ::
    "u64 \<Rightarrow> u64 \<Rightarrow> u64 \<Rightarrow> bool \<Rightarrow> 'a vmm_scheme \<Rightarrow> (u64 \<times> bool) option \<times> 'a vmm_scheme" where
  "walk_level entry stride extra allocate s =
     (case split_large entry stride extra s of
        (None, s) \<Rightarrow> (None, s)
      | (Some split, s) \<Rightarrow>
          (let (phys, s) = table_fetch entry allocate s
           in if phys = 0 then (None, s) else (Some (phys, split), s)))"

definition clear_nx :: "u64 \<Rightarrow> 'a vmm_scheme \<Rightarrow> 'a vmm_scheme" where
  "clear_nx p s = pt_write p (pt_mem s p AND NOT (push_bit 63 1)) s"

definition set_user :: "u64 \<Rightarrow> 'a vmm_scheme \<Rightarrow> 'a vmm_scheme" where
  "set_user p s = pt_write p (pt_mem s p OR VMM_USER) s"

definition pt_index :: "nat \<Rightarrow> u64 \<Rightarrow> nat" where
  "pt_index shift virt = unat (drop_bit shift virt AND 0x1FF)"

text \<open>The result is the address of the leaf entry and whether a page was split, or \<open>None\<close> for
  \<open>NULL\<close>.\<close>

definition walk_pt ::
    "u64 \<Rightarrow> u64 \<Rightarrow> bool \<Rightarrow> bool \<Rightarrow> 'a vmm_scheme \<Rightarrow> (u64 \<times> bool) option \<times> 'a vmm_scheme" where
  "walk_pt cr3 virt allocate user s =
     (let pml4e = pt_cell s cr3 (pt_index 39 virt) in
      case walk_level pml4e 0x40000000 0 allocate s of
        (None, s) \<Rightarrow> (None, s)
      | (Some (pdpt_phys, split4), s) \<Rightarrow>
      (let pdpte = pt_cell s pdpt_phys (pt_index 30 virt) in
       case walk_level pdpte 0x200000 (push_bit 7 1) allocate s of
         (None, s) \<Rightarrow> (None, s)
       | (Some (pd_phys, split3), s) \<Rightarrow>
       (let pde = pt_cell s pd_phys (pt_index 21 virt) in
        case walk_level pde 0x1000 0 allocate s of
          (None, s) \<Rightarrow> (None, s)
        | (Some (pt_phys, split2), s) \<Rightarrow>
            (let s = clear_nx pde (clear_nx pdpte (clear_nx pml4e s));
                 s = (if user then set_user pde (set_user pdpte (set_user pml4e s)) else s)
             in (Some (pt_cell s pt_phys (pt_index 12 virt),
                       split4 \<or> split3 \<or> split2), s)))))"

definition vmm_init :: "'a vmm_scheme \<Rightarrow> 'a vmm_scheme" where
  "vmm_init s = (let s = s\<lparr>g_cr3 := r_cr3 s\<rparr> in s\<lparr>g_root_cr3 := g_cr3 s\<rparr>)"

definition vmm_root_cr3 :: "'a vmm_scheme \<Rightarrow> u64" where
  "vmm_root_cr3 s = g_root_cr3 s"

definition vmm_space_clone :: "'a vmm_scheme \<Rightarrow> u64 \<times> 'a vmm_scheme" where
  "vmm_space_clone s =
     (let (phys, s) = pmm_alloc_frame s
      in if phys = 0 then (0, s)
         else let s = pt_zero_page phys s
              in (phys, fold (\<lambda>i s. pt_write (pt_cell s phys i) (pt_mem s (pt_cell s (g_root_cr3 s) i)) s)
                          [256..<512] s))"

definition vmm_space_switch :: "u64 \<Rightarrow> 'a vmm_scheme \<Rightarrow> 'a vmm_scheme" where
  "vmm_space_switch cr3 s = (if cr3 = g_cr3 s then s else s\<lparr>g_cr3 := cr3, r_cr3 := cr3\<rparr>)"

definition vmm_map_page_in :: "u64 \<Rightarrow> u64 \<Rightarrow> u64 \<Rightarrow> u64 \<Rightarrow> 'a vmm_scheme \<Rightarrow> int \<times> 'a vmm_scheme" where
  "vmm_map_page_in cr3 virt phys flags s =
     (if virt AND 0xFFF \<noteq> 0 \<or> phys AND 0xFFF \<noteq> 0 then (-1, s)
      else case walk_pt cr3 virt True (flags AND VMM_USER \<noteq> 0) s of
        (None, s) \<Rightarrow> (-1, s)
      | (Some (pte, split), s) \<Rightarrow>
          (0, pt_write pte ((phys AND PTE_ADDR_MASK) OR flags OR VMM_PRESENT) s))"

definition space_of :: "u64 \<Rightarrow> 'a vmm_scheme \<Rightarrow> u64" where
  "space_of virt s = (if virt \<ge> KERNEL_HALF_BASE then g_root_cr3 s else g_cr3 s)"

definition vmm_map_page :: "u64 \<Rightarrow> u64 \<Rightarrow> u64 \<Rightarrow> 'a vmm_scheme \<Rightarrow> int \<times> 'a vmm_scheme" where
  "vmm_map_page virt phys flags s = vmm_map_page_in (space_of virt s) virt phys flags s"

text \<open>The loop of \<open>vmm_map_region\<close> over the pages still to map, \<open>off\<close> bytes done.\<close>

fun map_region_pages :: "u64 \<Rightarrow> u64 \<Rightarrow> u64 \<Rightarrow> nat list \<Rightarrow> 'a vmm_scheme \<Rightarrow> int \<times> 'a vmm_scheme" where
  "map_region_pages virt phys flags [] s = (0, s)"
| "map_region_pages virt phys flags (k # ks) s =
     (case vmm_map_page (virt + 4096 * of_nat k) (phys + 4096 * of_nat k) flags s of
        (r, s) \<Rightarrow> if r \<noteq> 0 then (-1, s) else map_region_pages virt phys flags ks s)"

definition vmm_map_region :: "u64 \<Rightarrow> u64 \<Rightarrow> nat \<Rightarrow> u64 \<Rightarrow> 'a vmm_scheme \<Rightarrow> int \<times> 'a vmm_scheme" where
  "vmm_map_region virt phys bytes flags s =
     map_region_pages virt phys flags [0..<(bytes + 4095) div 4096] s"

definition vmm_unmap_page_in :: "u64 \<Rightarrow> u64 \<Rightarrow> 'a vmm_scheme \<Rightarrow> 'a vmm_scheme" where
  "vmm_unmap_page_in cr3 virt s =
     (case walk_pt cr3 virt False False s of
        (None, s) \<Rightarrow> s
      | (Some (pte, _), s) \<Rightarrow> pt_write pte 0 s)"

definition vmm_unmap_page :: "u64 \<Rightarrow> 'a vmm_scheme \<Rightarrow> 'a vmm_scheme" where
  "vmm_unmap_page virt s = vmm_unmap_page_in (space_of virt s) virt s"

definition vmm_translate_in :: "u64 \<Rightarrow> u64 \<Rightarrow> 'a vmm_scheme \<Rightarrow> u64 \<times> 'a vmm_scheme" where
  "vmm_translate_in cr3 virt s =
     (case walk_pt cr3 virt False False s of
        (None, s) \<Rightarrow> (0, s)
      | (Some (pte, _), s) \<Rightarrow>
          (if pt_mem s pte AND VMM_PRESENT = 0 then (0, s)
           else ((pt_mem s pte AND PTE_ADDR_MASK) OR (virt AND 0xFFF), s)))"

definition vmm_translate :: "u64 \<Rightarrow> 'a vmm_scheme \<Rightarrow> u64 \<times> 'a vmm_scheme" where
  "vmm_translate virt s = vmm_translate_in (g_cr3 s) virt s"

definition vmm_reserve_tables :: "u64 \<Rightarrow> u64 \<Rightarrow> 'a vmm_scheme \<Rightarrow> 'a vmm_scheme" where
  "vmm_reserve_tables virt bytes s =
     (let first = virt AND NOT 0xFFF;
          last = (virt + bytes + 4095) AND NOT 0xFFF
      in fold (\<lambda>k s. snd (walk_pt (g_root_cr3 s) (first + 4096 * of_nat k) True False s))
           [0..<(unat last - unat first) div 4096] s)"

definition vmm_pte :: "u64 \<Rightarrow> 'a vmm_scheme \<Rightarrow> u64 \<times> 'a vmm_scheme" where
  "vmm_pte virt s =
     (case walk_pt (g_cr3 s) virt False False s of
        (None, s) \<Rightarrow> (0, s)
      | (Some (pte, _), s) \<Rightarrow> (pt_mem s pte, s))"

definition vmm_level_nx :: "u64 \<Rightarrow> 'a vmm_scheme \<Rightarrow> u64" where
  "vmm_level_nx virt s =
     (let e4 = pt_mem s (pt_cell s (g_cr3 s) (pt_index 39 virt));
          nx = e4 AND push_bit 63 1
      in if e4 AND VMM_PRESENT = 0 then nx
         else let e3 = pt_mem s (pt_cell s (e4 AND PTE_ADDR_MASK) (pt_index 30 virt));
                  nx = nx OR (e3 AND push_bit 63 1)
              in if e3 AND VMM_PRESENT = 0 then nx
                 else let e2 = pt_mem s (pt_cell s (e3 AND PTE_ADDR_MASK) (pt_index 21 virt))
                      in nx OR (e2 AND push_bit 63 1))"

definition vmm_level_entry :: "u64 \<Rightarrow> int \<Rightarrow> 'a vmm_scheme \<Rightarrow> u64" where
  "vmm_level_entry virt level s =
     (let e4 = pt_mem s (pt_cell s (g_cr3 s) (pt_index 39 virt))
      in if level = 3 then e4
         else if e4 AND VMM_PRESENT = 0 then 0
         else let e3 = pt_mem s (pt_cell s (e4 AND PTE_ADDR_MASK) (pt_index 30 virt))
              in if level = 2 then e3
                 else if e3 AND VMM_PRESENT = 0 then 0
                 else if level = 1
                 then pt_mem s (pt_cell s (e3 AND PTE_ADDR_MASK) (pt_index 21 virt))
                 else 0)"

section \<open>Cells of page tables\<close>

lemma unat_and_mask: "unat (w AND mask n) = unat w mod 2 ^ n" for w :: u64
proof -
  have "unat (take_bit n w) = take_bit n (unat w)" by (rule unsigned_take_bit_eq)
  then show ?thesis by (simp only: take_bit_eq_mask) (simp only: take_bit_eq_mod flip: take_bit_eq_mask)
qed

lemma low12_mask: "(0xFFF :: u64) = mask 12"
  and low9_mask: "(0x1FF :: u64) = mask 9"
  by (simp_all add: mask_eq_exp_minus_1)

lemma page_dvd: "w AND 0xFFF = 0 \<longleftrightarrow> 4096 dvd unat w" for w :: u64
proof -
  have "w AND 0xFFF = 0 \<longleftrightarrow> unat (w AND 0xFFF) = unat (0 :: u64)" by (simp only: word_unat_eq_iff)
  also have "\<dots> \<longleftrightarrow> unat w mod 4096 = 0" by (simp only: low12_mask unat_and_mask) simp
  finally show ?thesis by (simp add: dvd_eq_mod_eq_0)
qed

lemma pt_index_less [simp]: "pt_index n virt < 512"
  by (simp only: pt_index_def low9_mask unat_and_mask) simp

lemma unat_page_cell:
  fixes p :: u64
  assumes "p AND 0xFFF = 0" and "i < 512"
  shows "unat (p + 8 * of_nat i) = unat p + 8 * i"
proof -
  from assms(1) obtain k where k: "unat p = 4096 * k" unfolding page_dvd by (rule dvdE)
  have "unat p < 2 ^ 64" using unsigned_less [of p] by simp
  with k have "k < 2 ^ 52" by simp
  then have lt: "unat p + 8 * i < 2 ^ 64" using assms(2) k by simp
  have "unat (8 * of_nat i :: u64) = 8 * i" using assms(2) by (simp add: unat_word_ariths unat_of_nat)
  with lt show ?thesis by (simp add: unat_word_ariths)
qed

lemma pt_cell_eq_iff:
  assumes "p AND 0xFFF = 0" "q AND 0xFFF = 0" "i < 512" "j < 512"
  shows "pt_cell s p i = pt_cell s q j \<longleftrightarrow> p = q \<and> i = j"
proof
  assume "pt_cell s p i = pt_cell s q j"
  then have "p + 8 * of_nat i = q + 8 * of_nat j" by (simp add: pt_cell_def pmm_phys_to_virt_def algebra_simps)
  then have e: "unat p + 8 * i = unat q + 8 * j"
    using unat_page_cell assms by metis
  obtain k where k: "unat p = 4096 * k" using assms(1) unfolding page_dvd by (rule dvdE)
  obtain l where l: "unat q = 4096 * l" using assms(2) unfolding page_dvd by (rule dvdE)
  have "(4096 * k + 8 * i) div 4096 = k" "(4096 * l + 8 * j) div 4096 = l" using assms(3,4) by simp_all
  with k l e have "k = l" by metis
  with k l e show "p = q \<and> i = j" by (simp add: word_unat_eq_iff)
qed auto

lemma pt_mem_write [simp]: "pt_mem (pt_write p v s) = (pt_mem s)(p := v)"
  by (simp add: pt_write_def)

lemma pt_write_frame [simp]:
  "pmm_phys_to_virt (pt_write p v s) = pmm_phys_to_virt s" "pt_cell (pt_write p v s) = pt_cell s"
  "g_cr3 (pt_write p v s) = g_cr3 s" "g_root_cr3 (pt_write p v s) = g_root_cr3 s"
  "r_cr3 (pt_write p v s) = r_cr3 s"
  "free_set (pt_write p v s) = free_set s" "pmm_inv (pt_write p v s) = pmm_inv s"
  "free_addrs (pt_write p v s) = free_addrs s"
  by (auto simp: pt_write_def pmm_phys_to_virt_def pt_cell_def free_set_def pmm_inv_def frame_is_free_def free_addrs_def fun_eq_iff)

text \<open>Filling entries \<open>a..<b\<close> of the table at \<open>p\<close>.\<close>

lemma fold_pt_write_out:
  "(\<And>i. i \<in> set is \<Longrightarrow> x \<noteq> c i) \<Longrightarrow> pt_mem (fold (\<lambda>i. pt_write (c i) (f i)) is s) x = pt_mem s x"
  by (induction "is" arbitrary: s) auto

lemma fold_pt_write_in:
  "i \<in> set is \<Longrightarrow> inj_on c (set is) \<Longrightarrow> distinct is \<Longrightarrow> pt_mem (fold (\<lambda>i. pt_write (c i) (f i)) is s) (c i) = f i"
proof (induction "is" arbitrary: s)
  case (Cons j js)
  show ?case
  proof (cases "i = j")
    case True
    with Cons.prems have "\<And>k. k \<in> set js \<Longrightarrow> c j \<noteq> c k" by (auto simp: inj_on_def)
    then show ?thesis by (simp add: True fold_pt_write_out)
  qed (use Cons in \<open>auto simp: inj_on_insert\<close>)
qed simp

lemma fold_pt_write_frame [simp]:
  "pmm_phys_to_virt (fold (\<lambda>i. pt_write (c i) (f i)) is s) = pmm_phys_to_virt s"
  "pt_cell (fold (\<lambda>i. pt_write (c i) (f i)) is s) = pt_cell s"
  "g_cr3 (fold (\<lambda>i. pt_write (c i) (f i)) is s) = g_cr3 s"
  "g_root_cr3 (fold (\<lambda>i. pt_write (c i) (f i)) is s) = g_root_cr3 s"
  "r_cr3 (fold (\<lambda>i. pt_write (c i) (f i)) is s) = r_cr3 s"
  "free_set (fold (\<lambda>i. pt_write (c i) (f i)) is s) = free_set s"
  "pmm_inv (fold (\<lambda>i. pt_write (c i) (f i)) is s) = pmm_inv s"
  "free_addrs (fold (\<lambda>i. pt_write (c i) (f i)) is s) = free_addrs s"
  by (induction "is" arbitrary: s) simp_all

lemma inj_pt_cell: "p AND 0xFFF = 0 \<Longrightarrow> inj_on (pt_cell s p) (set [a..<512])"
  by (auto simp: inj_on_def pt_cell_eq_iff)

lemma pt_zero_page_mem:
  assumes "p AND 0xFFF = 0"
  shows "i < 512 \<Longrightarrow> pt_mem (pt_zero_page p s) (pt_cell s p i) = 0"
    and "(\<And>i. i < 512 \<Longrightarrow> x \<noteq> pt_cell s p i) \<Longrightarrow> pt_mem (pt_zero_page p s) x = pt_mem s x"
  unfolding pt_zero_page_def
  by (rule fold_pt_write_in, use inj_pt_cell [OF assms, of s 0] in simp_all) (rule fold_pt_write_out, simp)

lemma pt_zero_page_frame [simp]:
  "pmm_phys_to_virt (pt_zero_page p s) = pmm_phys_to_virt s" "pt_cell (pt_zero_page p s) = pt_cell s"
  "g_cr3 (pt_zero_page p s) = g_cr3 s" "g_root_cr3 (pt_zero_page p s) = g_root_cr3 s"
  "r_cr3 (pt_zero_page p s) = r_cr3 s"
  "free_set (pt_zero_page p s) = free_set s" "pmm_inv (pt_zero_page p s) = pmm_inv s"
  "free_addrs (pt_zero_page p s) = free_addrs s"
  by (simp_all add: pt_zero_page_def)

lemma pmm_alloc_frame_vmm [simp]:
  "pt_mem (snd (pmm_alloc_frame s)) = pt_mem s" "g_cr3 (snd (pmm_alloc_frame s)) = g_cr3 s"
  "g_root_cr3 (snd (pmm_alloc_frame s)) = g_root_cr3 s" "r_cr3 (snd (pmm_alloc_frame s)) = r_cr3 s"
  "pmm_phys_to_virt (snd (pmm_alloc_frame s)) = pmm_phys_to_virt s"
  "pt_cell (snd (pmm_alloc_frame s)) = pt_cell s"
  by (auto simp: pmm_alloc_frame_def pmm_take_def frame_set_used_def pmm_phys_to_virt_def pt_cell_def fun_eq_iff
        split: option.splits)

section \<open>Well-formed page tables\<close>

text \<open>A ghost map \<open>T\<close> assigns its level (4 = PML4, 1 = PT) to every table frame of an address space:
  such a frame is a page address, is not free, and every present entry of a table above level 1
  that is not a large page points to a table of the level below.\<close>

definition pt_wf :: "(u64 \<rightharpoonup> nat) \<Rightarrow> 'a vmm_scheme \<Rightarrow> bool" where
  "pt_wf T s \<longleftrightarrow> pmm_inv s \<and>
     (\<forall>p l. T p = Some l \<longrightarrow> p \<noteq> 0 \<and> p AND PTE_ADDR_MASK = p \<and> p \<notin> free_addrs s) \<and>
     (\<forall>p l i. T p = Some (Suc (Suc l)) \<longrightarrow> i < 512 \<longrightarrow>
        bit (pt_mem s (pt_cell s p i)) 0 \<longrightarrow> \<not> bit (pt_mem s (pt_cell s p i)) 7 \<longrightarrow>
        T (pt_mem s (pt_cell s p i) AND PTE_ADDR_MASK) = Some (Suc l))"

lemma PTE_ADDR_MASK_bits: "bit PTE_ADDR_MASK n \<longleftrightarrow> 12 \<le> n \<and> n < 52"
proof -
  have eq: "PTE_ADDR_MASK = push_bit 12 (mask 40)" by (simp add: PTE_ADDR_MASK_def mask_eq_exp_minus_1)
  show ?thesis by (simp only: eq bit_push_bit_iff bit_mask_iff) auto
qed

lemma addr_low12: "p AND PTE_ADDR_MASK = p \<Longrightarrow> p AND 0xFFF = 0"
proof -
  assume p: "p AND PTE_ADDR_MASK = p"
  have "p AND mask 12 = 0"
  proof (rule bit_word_eqI)
    fix n
    have "bit p n \<Longrightarrow> 12 \<le> n" using p PTE_ADDR_MASK_bits [of n] by (metis bit_and_iff)
    then show "bit (p AND mask 12) n = bit (0 :: u64) n" by (auto simp: bit_and_iff bit_mask_iff)
  qed
  then show ?thesis by (simp only: low12_mask)
qed

lemma pt_wf_page: "pt_wf T s \<Longrightarrow> T p = Some l \<Longrightarrow> p AND 0xFFF = 0 \<and> p \<noteq> 0 \<and> p AND PTE_ADDR_MASK = p \<and> p \<notin> free_addrs s"
  by (auto simp: pt_wf_def addr_low12)

lemma bit_flag_iff:
  "e AND VMM_PRESENT = 0 \<longleftrightarrow> \<not> bit e 0" "e AND push_bit 7 1 = 0 \<longleftrightarrow> \<not> bit e 7" for e :: u64
proof -
  have eq: "VMM_PRESENT = 2 ^ 0" by (simp add: VMM_PRESENT_def)
  show "e AND VMM_PRESENT = 0 \<longleftrightarrow> \<not> bit e 0" by (simp only: eq and_exp_eq_0_iff_not_bit)
  show "e AND push_bit 7 1 = 0 \<longleftrightarrow> \<not> bit e 7" by (simp only: push_bit_of_1 and_exp_eq_0_iff_not_bit)
qed

lemma flag_bits:
  "bit (VMM_PRESENT OR VMM_WRITE OR VMM_USER) n \<longleftrightarrow> n < 3" "bit VMM_USER n \<longleftrightarrow> n = 2" "bit VMM_PRESENT n \<longleftrightarrow> n = 0"
proof -
  have eq: "VMM_PRESENT OR VMM_WRITE OR VMM_USER = mask 3"
    by (simp add: VMM_PRESENT_def VMM_WRITE_def VMM_USER_def mask_eq_exp_minus_1)
  have eq2: "VMM_USER = 2 ^ 2" "VMM_PRESENT = 2 ^ 0" by (simp_all add: VMM_PRESENT_def VMM_USER_def)
  show "bit (VMM_PRESENT OR VMM_WRITE OR VMM_USER) n \<longleftrightarrow> n < 3" by (simp only: eq bit_mask_iff) auto
  show "bit VMM_USER n \<longleftrightarrow> n = 2" "bit VMM_PRESENT n \<longleftrightarrow> n = 0"
    by (simp_all only: eq2 bit_exp_iff possible_bit_word) auto
qed

lemma addr_bits: "p AND PTE_ADDR_MASK = p \<Longrightarrow> bit p n \<Longrightarrow> 12 \<le> n \<and> n < 52"
  using PTE_ADDR_MASK_bits [of n] by (metis bit_and_iff)

lemma new_entry:
  assumes "q AND PTE_ADDR_MASK = q"
  defines "e \<equiv> q OR VMM_PRESENT OR VMM_WRITE OR VMM_USER"
  shows "bit e 0" "\<not> bit e 7" "e AND PTE_ADDR_MASK = q"
proof -
  have e: "bit e n \<longleftrightarrow> bit q n \<or> n < 3" for n
    using flag_bits(1) [of n] by (simp add: e_def bit_or_iff disj_assoc)
  show "bit e 0" "\<not> bit e 7" using addr_bits [OF assms(1), of 7] by (auto simp: e)
  show "e AND PTE_ADDR_MASK = q"
    by (rule bit_word_eqI) (use addr_bits [OF assms(1)] in \<open>auto simp: bit_and_iff e PTE_ADDR_MASK_bits\<close>)
qed

lemma free_addr_mask: "pmm_inv s \<Longrightarrow> q \<in> free_addrs s \<Longrightarrow> q AND PTE_ADDR_MASK = q"
proof -
  assume inv: "pmm_inv s" and "q \<in> free_addrs s"
  then obtain f where f: "q = frame_addr f" "f < 2 ^ 20"
    by (auto simp: free_addrs_def free_set_def pmm_inv_def MAX_FRAMES_def)
  have nb: "n < 20" if "bit f n" for n
  proof (rule ccontr)
    assume "\<not> n < 20"
    then have "(2 :: nat) ^ 20 \<le> 2 ^ n" by (intro power_increasing) auto
    with f have "f < 2 ^ n" by linarith
    then have "f div 2 ^ n = 0" by simp
    with that show False by (simp add: bit_iff_odd)
  qed
  show ?thesis
    by (rule bit_word_eqI)
      (use nb in \<open>fastforce simp: f frame_addr_def bit_and_iff PTE_ADDR_MASK_bits bit_push_bit_iff bit_of_nat_iff\<close>)
qed

subsection \<open>One level\<close>

lemma pt_page_disjoint:
  assumes "pt_wf T s" "q \<in> free_addrs s" "T p = Some l" "i < 512" "j < 512"
  shows "pt_cell s p i \<noteq> pt_cell s q j"
proof
  assume eq: "pt_cell s p i = pt_cell s q j"
  have "p AND 0xFFF = 0" "q AND 0xFFF = 0" "p \<noteq> q"
    using pt_wf_page [OF assms(1,3)] assms(1,2) free_addr_mask addr_low12 by (auto simp: pt_wf_def)
  with eq assms(4,5) show False by (simp add: pt_cell_eq_iff)
qed

text \<open>Linking a fresh, zeroed table of level \<open>Suc l\<close> into entry \<open>i\<close> of table \<open>p\<close>.\<close>

definition link_table :: "u64 \<Rightarrow> u64 \<Rightarrow> 'a vmm_scheme \<Rightarrow> 'a vmm_scheme" where
  "link_table c q s = pt_write c (q OR VMM_PRESENT OR VMM_WRITE OR VMM_USER) (pt_zero_page q s)"

lemma link_table_frame [simp]:
  "pmm_phys_to_virt (link_table c q s) = pmm_phys_to_virt s" "pt_cell (link_table c q s) = pt_cell s"
  "g_cr3 (link_table c q s) = g_cr3 s" "g_root_cr3 (link_table c q s) = g_root_cr3 s"
  "r_cr3 (link_table c q s) = r_cr3 s" "pmm_inv (link_table c q s) = pmm_inv s"
  "free_addrs (link_table c q s) = free_addrs s"
  by (simp_all add: link_table_def)

lemma link_table_mem:
  assumes wf: "pt_wf T s" and p: "T p = Some (Suc (Suc l))" "i < 512" and q: "q \<in> free_addrs s"
  defines "t \<equiv> link_table (pt_cell s p i) q (snd (pmm_alloc_frame s))"
  shows "pt_mem t (pt_cell s p i) = q OR VMM_PRESENT OR VMM_WRITE OR VMM_USER"
    and "j < 512 \<Longrightarrow> pt_mem t (pt_cell s q j) = 0"
    and "T p' = Some l' \<Longrightarrow> j < 512 \<Longrightarrow> pt_cell s p' j \<noteq> pt_cell s p i \<Longrightarrow>
      pt_mem t (pt_cell s p' j) = pt_mem s (pt_cell s p' j)"
proof -
  have q0: "q AND 0xFFF = 0" using wf q free_addr_mask addr_low12 by (auto simp: pt_wf_def)
  note d = pt_page_disjoint [OF wf q]
  show "pt_mem t (pt_cell s p i) = q OR VMM_PRESENT OR VMM_WRITE OR VMM_USER"
    by (simp add: t_def link_table_def)
  show "j < 512 \<Longrightarrow> pt_mem t (pt_cell s q j) = 0"
    using d [OF p(1) p(2), of j] pt_zero_page_mem(1) [OF q0, of j "snd (pmm_alloc_frame s)"]
    by (auto simp: t_def link_table_def)
  show "T p' = Some l' \<Longrightarrow> j < 512 \<Longrightarrow> pt_cell s p' j \<noteq> pt_cell s p i \<Longrightarrow>
      pt_mem t (pt_cell s p' j) = pt_mem s (pt_cell s p' j)"
    using d pt_zero_page_mem(2) [OF q0, of "pt_cell s p' j" "snd (pmm_alloc_frame s)"]
    by (auto simp: t_def link_table_def)
qed

lemma link_table_wf:
  assumes wf: "pt_wf T s" and p: "T p = Some (Suc (Suc l))" "i < 512"
    and q: "pmm_alloc_frame s = (q, s1)" "q \<noteq> 0"
  defines "t \<equiv> link_table (pt_cell s p i) q s1"
  shows "pt_wf (T(q \<mapsto> Suc l)) t" and "T q = None" and "q AND PTE_ADDR_MASK = q" and "q \<in> free_addrs s"
    and "T \<subseteq>\<^sub>m T(q \<mapsto> Suc l)"
proof -
  have inv: "pmm_inv s" using wf by (simp add: pt_wf_def)
  show qf: "q \<in> free_addrs s" using q pmm.alloc_mem [OF inv] pmm.alloc_zero_iff [OF inv] by auto
  show qm: "q AND PTE_ADDR_MASK = q" using free_addr_mask [OF inv qf] .
  show qT: "T q = None" using pt_wf_page [OF wf] qf by (cases "T q") auto
  then show "T \<subseteq>\<^sub>m T(q \<mapsto> Suc l)" by (auto simp: map_le_def)
  have s1: "s1 = snd (pmm_alloc_frame s)" by (simp add: q)
  have fr: "free_addrs t = free_addrs s - {q}" "pmm_inv t"
    using pmm.alloc_frames [OF inv] pmm.alloc_inv [OF inv] by (simp_all add: t_def q)
  have cell: "pt_cell t = pt_cell s" by (simp add: t_def s1)
  have t: "t = link_table (pt_cell s p i) q (snd (pmm_alloc_frame s))" by (simp add: t_def s1)
  note mem = link_table_mem [OF wf p qf, folded t]
  show "pt_wf (T(q \<mapsto> Suc l)) t" unfolding pt_wf_def
  proof (intro conjI allI impI)
    show "pmm_inv t" by fact
  next
    fix p' l' assume "(T(q \<mapsto> Suc l)) p' = Some l'"
    then show "p' \<noteq> 0" "p' AND PTE_ADDR_MASK = p'" "p' \<notin> free_addrs t"
      using pt_wf_page [OF wf, of p' l'] qm q(2) by (auto simp: fr split: if_splits)
  next
    fix p' l' j
    assume T': "(T(q \<mapsto> Suc l)) p' = Some (Suc (Suc l'))" and j: "j < 512"
      and e: "bit (pt_mem t (pt_cell t p' j)) 0" "\<not> bit (pt_mem t (pt_cell t p' j)) 7"
    show "(T(q \<mapsto> Suc l)) (pt_mem t (pt_cell t p' j) AND PTE_ADDR_MASK) = Some (Suc l')"
    proof (cases "p' = q")
      case True
      with e j mem(2) show ?thesis by (simp add: cell)
    next
      case False
      with T' have T2: "T p' = Some (Suc (Suc l'))" by simp
      show ?thesis
      proof (cases "p' = p \<and> j = i")
        case True
        with T2 p have "l' = l" by simp
        with True mem(1) new_entry [OF qm] show ?thesis by (simp add: cell)
      next
        case False
        have ne: "pt_cell s p' j \<noteq> pt_cell s p i"
          using False pt_wf_page [OF wf] T2 p j by (simp add: pt_cell_eq_iff)
        from mem(3) [OF T2 j this] e have "T (pt_mem t (pt_cell t p' j) AND PTE_ADDR_MASK) = Some (Suc l')"
          using wf T2 j unfolding pt_wf_def by (simp add: cell)
        with qT show ?thesis by auto
      qed
    qed
  qed
qed

lemma walk_level_small:
  assumes "\<not> bit (pt_mem s c) 7"
  shows "walk_level c st ex al s =
    (if bit (pt_mem s c) 0 then
       (if pt_mem s c AND PTE_ADDR_MASK = 0 then None else Some (pt_mem s c AND PTE_ADDR_MASK, False), s)
     else if \<not> al then (None, s)
     else case pmm_alloc_frame s of (q, s1) \<Rightarrow>
       if q = 0 then (None, s1) else (Some (q, False), link_table c q s1))"
proof -
  have "split_large c st ex s = (Some False, s)" using assms by (simp only: split_large_def bit_flag_iff if_True not_True_eq_False simp_thms)
  then show ?thesis
    by (simp add: walk_level_def table_fetch_def bit_flag_iff link_table_def split: prod.splits)
qed

text \<open>Either the entry was present and nothing changes, or a table was linked, or the walk stops.\<close>

lemma walk_level_cases:
  assumes wf: "pt_wf T s" and p: "T p = Some (Suc (Suc l))" "i < 512"
    and small: "\<not> bit (pt_mem s (pt_cell s p i)) 7"
    and w: "walk_level (pt_cell s p i) st ex al s = (r, s')"
  obtains
    (present) "bit (pt_mem s (pt_cell s p i)) 0" "r = Some (pt_mem s (pt_cell s p i) AND PTE_ADDR_MASK, False)"
      "s' = s" "T (pt_mem s (pt_cell s p i) AND PTE_ADDR_MASK) = Some (Suc l)"
  | (stop) "\<not> bit (pt_mem s (pt_cell s p i)) 0" "r = None" "s' = s" "al \<longrightarrow> free_addrs s = {}"
  | (fresh) q where "\<not> bit (pt_mem s (pt_cell s p i)) 0" "al" "r = Some (q, False)"
      "pmm_alloc_frame s = (q, snd (pmm_alloc_frame s))" "q \<noteq> 0"
      "s' = link_table (pt_cell s p i) q (snd (pmm_alloc_frame s))"
proof -
  have inv: "pmm_inv s" using wf by (simp add: pt_wf_def)
  let ?e = "pt_mem s (pt_cell s p i)"
  consider (p) "bit ?e 0" | (n) "\<not> bit ?e 0" "\<not> al" | (z) "\<not> bit ?e 0" "al" "fst (pmm_alloc_frame s) = 0"
    | (f) "\<not> bit ?e 0" "al" "fst (pmm_alloc_frame s) \<noteq> 0" by blast
  then show thesis
  proof cases
    case p
    with wf assms(2,3) small have t: "T (?e AND PTE_ADDR_MASK) = Some (Suc l)" by (simp add: pt_wf_def)
    with pt_wf_page [OF wf t] w p small show thesis by (intro present) (auto simp: walk_level_small)
  next
    case n
    with w small show thesis by (intro stop) (auto simp: walk_level_small)
  next
    case z
    then have "free_addrs s = {}" using pmm.alloc_zero_iff [OF inv] by simp
    with z w small pmm.alloc_empty [OF inv] show thesis by (intro stop) (auto simp: walk_level_small)
  next
    case f
    with w small show thesis
      by (intro fresh [of "fst (pmm_alloc_frame s)"]) (auto simp: walk_level_small split: prod.splits)
  qed
qed

subsection \<open>The whole walk\<close>

definition links_to :: "'a vmm_scheme \<Rightarrow> u64 \<Rightarrow> nat \<Rightarrow> u64 \<Rightarrow> bool" where
  "links_to s p i q \<longleftrightarrow> bit (pt_mem s (pt_cell s p i)) 0 \<and> \<not> bit (pt_mem s (pt_cell s p i)) 7 \<and>
     pt_mem s (pt_cell s p i) AND PTE_ADDR_MASK = q"

lemma links_to_level:
  "pt_wf T s \<Longrightarrow> T p = Some (Suc (Suc l)) \<Longrightarrow> i < 512 \<Longrightarrow> links_to s p i q \<Longrightarrow> T q = Some (Suc l)"
  unfolding pt_wf_def links_to_def by blast

text \<open>Writes that keep the present bit, the size bit and the address of an entry.\<close>

definition same_link :: "u64 \<Rightarrow> u64 \<Rightarrow> bool" where
  "same_link v e \<longleftrightarrow> bit v 0 = bit e 0 \<and> bit v 7 = bit e 7 \<and> v AND PTE_ADDR_MASK = e AND PTE_ADDR_MASK"

lemma same_link_nx: "same_link (e AND NOT (push_bit 63 1)) e"
  unfolding same_link_def
proof (intro conjI)
  show "(e AND NOT (push_bit 63 1)) AND PTE_ADDR_MASK = e AND PTE_ADDR_MASK"
    by (rule bit_word_eqI)
      (auto simp: bit_and_iff bit_not_iff bit_push_bit_iff PTE_ADDR_MASK_bits simp del: push_bit_of_1)
qed (simp_all add: bit_and_iff bit_not_iff bit_push_bit_iff push_bit_of_1 bit_exp_iff del: push_bit_of_1)

lemma same_link_user: "same_link (e OR VMM_USER) e"
  unfolding same_link_def
proof (intro conjI)
  show "(e OR VMM_USER) AND PTE_ADDR_MASK = e AND PTE_ADDR_MASK"
    by (rule bit_word_eqI) (auto simp: bit_and_iff bit_or_iff flag_bits PTE_ADDR_MASK_bits)
qed (simp_all add: bit_or_iff flag_bits)

lemma pt_write_same_link:
  assumes "same_link v (pt_mem s c)"
  shows "pt_wf T (pt_write c v s) = pt_wf T s" and "links_to (pt_write c v s) = links_to s"
proof -
  have *: "bit (if x = c then v else pt_mem s x) 0 = bit (pt_mem s x) 0"
    "bit (if x = c then v else pt_mem s x) 7 = bit (pt_mem s x) 7"
    "(if x = c then v else pt_mem s x) AND PTE_ADDR_MASK = pt_mem s x AND PTE_ADDR_MASK" for x
    using assms by (auto simp: same_link_def)
  show "pt_wf T (pt_write c v s) = pt_wf T s" by (simp add: pt_wf_def * fun_upd_def)
  show "links_to (pt_write c v s) = links_to s" by (simp add: links_to_def * fun_upd_def fun_eq_iff)
qed

lemma touch_wf [simp]:
  "pt_wf T (clear_nx c s) = pt_wf T s" "links_to (clear_nx c s) = links_to s"
  "pt_wf T (set_user c s) = pt_wf T s" "links_to (set_user c s) = links_to s"
  "pt_cell (clear_nx c s) = pt_cell s" "pt_cell (set_user c s) = pt_cell s"
  "free_addrs (clear_nx c s) = free_addrs s" "free_addrs (set_user c s) = free_addrs s"
  by (simp_all only: clear_nx_def set_user_def pt_write_same_link same_link_nx same_link_user pt_write_frame)

lemma touch_mem:
  "x \<noteq> c \<Longrightarrow> pt_mem (clear_nx c s) x = pt_mem s x" "x \<noteq> c \<Longrightarrow> pt_mem (set_user c s) x = pt_mem s x"
  by (simp_all add: clear_nx_def set_user_def)

text \<open>The table reached from \<open>p\<close> along the entries for \<open>virt\<close>, and that no entry on the way maps a
  large page.\<close>

fun leaf_table :: "'a vmm_scheme \<Rightarrow> nat list \<Rightarrow> u64 \<Rightarrow> u64 \<Rightarrow> u64 option" where
  "leaf_table s [] virt p = Some p"
| "leaf_table s (n # ns) virt p =
     (let e = pt_mem s (pt_cell s p (pt_index n virt))
      in if bit e 0 \<and> \<not> bit e 7 then leaf_table s ns virt (e AND PTE_ADDR_MASK) else None)"

fun small_path :: "'a vmm_scheme \<Rightarrow> nat list \<Rightarrow> u64 \<Rightarrow> u64 \<Rightarrow> bool" where
  "small_path s [] virt p = True"
| "small_path s (n # ns) virt p =
     (let e = pt_mem s (pt_cell s p (pt_index n virt))
      in \<not> bit e 7 \<and> (bit e 0 \<longrightarrow> small_path s ns virt (e AND PTE_ADDR_MASK)))"

text \<open>No table of the space is linked from two entries.\<close>

definition unshared :: "(u64 \<rightharpoonup> nat) \<Rightarrow> 'a vmm_scheme \<Rightarrow> bool" where
  "unshared T s \<longleftrightarrow>
     (\<forall>p p' l l' i i' q. T p = Some (Suc (Suc l)) \<longrightarrow> T p' = Some (Suc (Suc l')) \<longrightarrow> i < 512 \<longrightarrow> i' < 512 \<longrightarrow>
        links_to s p i q \<longrightarrow> links_to s p' i' q \<longrightarrow> p = p' \<and> i = i')"

text \<open>What linking new tables does to a space: tables and links only get added, entries of level-1
  tables stay, a new level-1 table is empty, and a path that was not there before ends in a new table.\<close>

definition pt_grow :: "(u64 \<rightharpoonup> nat) \<Rightarrow> 'a vmm_scheme \<Rightarrow> (u64 \<rightharpoonup> nat) \<Rightarrow> 'a vmm_scheme \<Rightarrow> bool" where
  "pt_grow T s T' s' \<longleftrightarrow> T \<subseteq>\<^sub>m T' \<and> pt_wf T' s' \<and> pt_cell s' = pt_cell s \<and>
     g_cr3 s' = g_cr3 s \<and> g_root_cr3 s' = g_root_cr3 s \<and>
     (unshared T s \<longrightarrow> unshared T' s') \<and>
     (\<forall>p j. T p = Some 1 \<longrightarrow> j < 512 \<longrightarrow> pt_mem s' (pt_cell s p j) = pt_mem s (pt_cell s p j)) \<and>
     (\<forall>r j. T r = None \<longrightarrow> T' r = Some 1 \<longrightarrow> j < 512 \<longrightarrow> pt_mem s' (pt_cell s r j) = 0) \<and>
     (\<forall>p l i q. T p = Some (Suc (Suc l)) \<longrightarrow> i < 512 \<longrightarrow> links_to s p i q \<longrightarrow> links_to s' p i q) \<and>
     (\<forall>p l i q. T' p = Some (Suc (Suc l)) \<longrightarrow> i < 512 \<longrightarrow> links_to s' p i q \<longrightarrow>
        T p \<noteq> None \<and> links_to s p i q \<or> T q = None) \<and>
     dom T' \<subseteq> dom T \<union> free_addrs s \<and> free_addrs s' \<subseteq> free_addrs s"

lemma map_le_SomeD: "T \<subseteq>\<^sub>m T' \<Longrightarrow> T p = Some l \<Longrightarrow> T' p = Some l"
  unfolding map_le_def by (metis domI)

lemma pt_growD:
  assumes "pt_grow T s T' s'"
  shows "pt_wf T' s'" "pt_cell s' = pt_cell s" "T p = Some l \<Longrightarrow> T' p = Some l"
    "T p = Some (Suc (Suc l)) \<Longrightarrow> i < 512 \<Longrightarrow> links_to s p i q \<Longrightarrow> links_to s' p i q"
    "unshared T s \<Longrightarrow> unshared T' s'"
    "T p = Some 1 \<Longrightarrow> j < 512 \<Longrightarrow> pt_mem s' (pt_cell s p j) = pt_mem s (pt_cell s p j)"
    "T p = None \<Longrightarrow> T' p = Some 1 \<Longrightarrow> j < 512 \<Longrightarrow> pt_mem s' (pt_cell s p j) = 0"
    "dom T' \<subseteq> dom T \<union> free_addrs s"
  using assms map_le_SomeD [of T T' p l] unfolding pt_grow_def by (simp_all; blast)+

lemma pt_grow_refl: "pt_wf T s \<Longrightarrow> pt_grow T s T s"
  by (simp add: pt_grow_def)

lemma pt_grow_trans:
  assumes 1: "pt_grow T s T1 s1" and 2: "pt_grow T1 s1 T2 s2"
  shows "pt_grow T s T2 s2"
proof -
  have le: "T \<subseteq>\<^sub>m T1" "T1 \<subseteq>\<^sub>m T2" and c: "pt_cell s1 = pt_cell s" "pt_cell s2 = pt_cell s"
    using 1 2 by (simp_all add: pt_grow_def)
  note up = map_le_SomeD [OF le(1)]
  show ?thesis unfolding pt_grow_def
  proof (intro conjI allI impI)
    show "T \<subseteq>\<^sub>m T2" using le by (rule map_le_trans)
  next
    fix p and j :: nat assume "T p = Some 1" "j < 512"
    with up 1 2 show "pt_mem s2 (pt_cell s p j) = pt_mem s (pt_cell s p j)" by (simp add: pt_grow_def c)
  next
    fix r and j :: nat assume r: "T r = None" "T2 r = Some 1" "j < 512"
    show "pt_mem s2 (pt_cell s r j) = 0"
    proof (cases "T1 r")
      case None
      with r 2 show ?thesis by (simp add: pt_grow_def c)
    next
      case (Some l)
      with le(2) r have "T1 r = Some 1" using map_le_SomeD [OF le(2) Some] by simp
      with r 1 2 show ?thesis by (simp add: pt_grow_def c)
    qed
  next
    fix p l i q assume "T p = Some (Suc (Suc l))" "i < 512" "links_to s p i q"
    with up 1 2 show "links_to s2 p i q" by (simp add: pt_grow_def)
  next
    fix p l i q assume a: "T2 p = Some (Suc (Suc l))" "i < 512" "links_to s2 p i q"
    then have "T1 p \<noteq> None \<and> links_to s1 p i q \<or> T1 q = None" using 2 by (simp add: pt_grow_def)
    then show "T p \<noteq> None \<and> links_to s p i q \<or> T q = None"
    proof
      assume x: "T1 p \<noteq> None \<and> links_to s1 p i q"
      with a(1) map_le_SomeD [OF le(2)] have "T1 p = Some (Suc (Suc l))" by (metis option.exhaust)
      with x a(2) 1 show ?thesis by (simp add: pt_grow_def)
    qed (use map_le_SomeD [OF le(1), of q] in \<open>cases "T q"; auto\<close>)
  next
    show "dom T2 \<subseteq> dom T \<union> free_addrs s" using 1 2 unfolding pt_grow_def by blast
  qed (use 1 2 in \<open>auto simp: pt_grow_def\<close>)
qed

lemma leaf_table_Cons:
  "leaf_table s (n # ns) virt p = Some q \<longleftrightarrow>
     (\<exists>p1. links_to s p (pt_index n virt) p1 \<and> leaf_table s ns virt p1 = Some q)"
  by (auto simp: links_to_def Let_def)

lemma pt_grow_leaf_mono:
  assumes "pt_wf T s" "pt_grow T s T' s'" "T p = Some (Suc (length ns))" "leaf_table s ns virt p = Some q"
  shows "leaf_table s' ns virt p = Some q"
  using assms(3,4)
proof (induction ns arbitrary: p)
  case (Cons n ns)
  then obtain p1 where p1: "links_to s p (pt_index n virt) p1" "leaf_table s ns virt p1 = Some q"
    by (auto simp only: leaf_table_Cons)
  moreover have "T p1 = Some (Suc (length ns))"
    using links_to_level [OF assms(1) _ pt_index_less p1(1), of "length ns"] Cons.prems(1) by simp
  moreover have "links_to s' p (pt_index n virt) p1" using assms(2) Cons.prems(1) p1(1) by (simp add: pt_grow_def)
  ultimately show ?case unfolding leaf_table_Cons using Cons.IH by blast
qed simp

lemma pt_grow_leaf_new:
  assumes "pt_grow T s T' s'" "T' p = Some (Suc (length ns))" "leaf_table s' ns virt p = Some q"
  shows "T p \<noteq> None \<and> leaf_table s ns virt p = Some q \<or> T q = None \<and> T' q = Some 1"
  using assms(2,3)
proof (induction ns arbitrary: p)
  case (Cons n ns)
  then obtain p1 where p1: "links_to s' p (pt_index n virt) p1" "leaf_table s' ns virt p1 = Some q"
    by (auto simp only: leaf_table_Cons)
  have wf: "pt_wf T' s'" using assms(1) by (simp add: pt_grow_def)
  have "T' p1 = Some (Suc (length ns))"
    using links_to_level [OF wf _ pt_index_less p1(1), of "length ns"] Cons.prems(1) by simp
  from Cons.IH [OF this p1(2)] show ?case
  proof
    assume *: "T p1 \<noteq> None \<and> leaf_table s ns virt p1 = Some q"
    have "T p \<noteq> None \<and> links_to s p (pt_index n virt) p1 \<or> T p1 = None"
      using assms(1) Cons.prems(1) p1(1) by (simp add: pt_grow_def)
    with * show ?thesis unfolding leaf_table_Cons by (elim disjE conjE) (intro disjI1 conjI exI, assumption+, simp)
  qed simp
qed auto

lemma leaf_table_inj:
  assumes "pt_wf T s" "unshared T s" "T p = Some (Suc (length ns))" "T p' = Some (Suc (length ns))"
    and "leaf_table s ns v p = Some q" "leaf_table s ns v' p' = Some q"
  shows "p = p' \<and> (\<forall>n\<in>set ns. pt_index n v = pt_index n v')"
  using assms(3-6)
proof (induction ns arbitrary: p p')
  case (Cons n ns)
  obtain p1 where p1: "links_to s p (pt_index n v) p1" "leaf_table s ns v p1 = Some q"
    using Cons.prems(3) by (auto simp only: leaf_table_Cons)
  obtain p2 where p2: "links_to s p' (pt_index n v') p2" "leaf_table s ns v' p2 = Some q"
    using Cons.prems(4) by (auto simp only: leaf_table_Cons)
  have "T p1 = Some (Suc (length ns))" "T p2 = Some (Suc (length ns))"
    using links_to_level [OF assms(1) _ pt_index_less p1(1), of "length ns"]
      links_to_level [OF assms(1) _ pt_index_less p2(1), of "length ns"] Cons.prems(1,2) by simp_all
  from Cons.IH [OF this p1(2) p2(2)] have "p1 = p2" "\<forall>n\<in>set ns. pt_index n v = pt_index n v'" by auto
  moreover have "p = p' \<and> pt_index n v = pt_index n v'" if "p1 = p2"
    using assms(2) [unfolded unshared_def, rule_format, OF _ _ pt_index_less pt_index_less p1(1), of "length ns" p' "length ns"]
      Cons.prems(1,2) p2(1) that by simp
  ultimately show ?case by auto
qed simp

lemma link_table_grow:
  assumes wf: "pt_wf T s" and p: "T p = Some (Suc (Suc l))" "i < 512"
    and absent: "\<not> bit (pt_mem s (pt_cell s p i)) 0"
    and q: "pmm_alloc_frame s = (q, s1)" "q \<noteq> 0"
  defines "t \<equiv> link_table (pt_cell s p i) q s1"
  shows "pt_grow T s (T(q \<mapsto> Suc l)) t" and "links_to t p i q"
proof -
  have s1: "s1 = snd (pmm_alloc_frame s)" by (simp add: q)
  note L = link_table_wf [OF wf p q, folded t_def]
  have t: "t = link_table (pt_cell s p i) q (snd (pmm_alloc_frame s))" by (simp add: t_def s1)
  note M = link_table_mem [OF wf p L(4), folded t]
  have c: "pt_cell t = pt_cell s" by (simp add: t)
  have other: "links_to t p' j r = links_to s p' j r"
    if "T p' = Some l'" "j < 512" "(p', j) \<noteq> (p, i)" for p' j l' r
  proof -
    have "pt_cell s p' j \<noteq> pt_cell s p i"
      using that pt_wf_page [OF wf] p by (auto simp: pt_cell_eq_iff)
    from M(3) [OF that(1,2) this] show ?thesis by (simp add: links_to_def c)
  qed
  have empty: "\<not> links_to t q j r" if "j < 512" for j r
    using M(2) [OF that] by (simp add: links_to_def c)
  show new: "links_to t p i q" using M(1) new_entry [OF L(3)] by (simp add: links_to_def c)
  then have newu: "r = q" if "links_to t p i r" for r using that by (simp add: links_to_def)
  have old: "\<not> links_to s p i r" for r using absent by (simp add: links_to_def)
  have tgt: "T r \<noteq> None" if "links_to s p' j r" "T p' = Some (Suc (Suc l'))" "j < 512" for p' j r l'
    using links_to_level [OF wf that(2,3,1)] by simp
  show "pt_grow T s (T(q \<mapsto> Suc l)) t" unfolding pt_grow_def
  proof (intro conjI allI impI)
    assume u: "unshared T s"
    show "unshared (T(q \<mapsto> Suc l)) t" unfolding unshared_def
    proof (intro allI impI)
      fix p1 p2 l1 l2 i1 i2 r
      assume a: "(T(q \<mapsto> Suc l)) p1 = Some (Suc (Suc l1))" "(T(q \<mapsto> Suc l)) p2 = Some (Suc (Suc l2))"
        "i1 < 512" "i2 < 512" "links_to t p1 i1 r" "links_to t p2 i2 r"
      have b: "T p1 = Some (Suc (Suc l1))" "T p2 = Some (Suc (Suc l2))"
        using a empty by (auto split: if_splits)
      show "p1 = p2 \<and> i1 = i2"
      proof (cases "(p1, i1) = (p, i) \<or> (p2, i2) = (p, i)")
        case True
        with a newu have "r = q" by auto
        with a b other tgt L(2) True show ?thesis by (metis prod.inject)
      next
        case False
        with a b other have "links_to s p1 i1 r" "links_to s p2 i2 r" by auto
        with u b a(3,4) show ?thesis unfolding unshared_def by blast
      qed
    qed
  next
    fix p' l' j r assume "T p' = Some (Suc (Suc l'))" "j < 512" "links_to s p' j r"
    with other old show "links_to t p' j r" by (cases "(p', j) = (p, i)") auto
  next
    fix p' l' j r assume a: "(T(q \<mapsto> Suc l)) p' = Some (Suc (Suc l'))" "j < 512" "links_to t p' j r"
    then have "T p' = Some (Suc (Suc l'))" using empty by (auto split: if_splits)
    with a other newu L(2) show "T p' \<noteq> None \<and> links_to s p' j r \<or> T r = None"
      by (cases "(p', j) = (p, i)") auto
  next
    fix p' and j :: nat assume a: "T p' = Some 1" "j < 512"
    then have "pt_cell s p' j \<noteq> pt_cell s p i" using pt_wf_page [OF wf] p by (auto simp: pt_cell_eq_iff)
    with M(3) [OF a] show "pt_mem t (pt_cell s p' j) = pt_mem s (pt_cell s p' j)" by simp
  next
    fix r and j :: nat assume "T r = None" "(T(q \<mapsto> Suc l)) r = Some 1" "j < 512"
    with M(2) show "pt_mem t (pt_cell s r j) = 0" by (auto split: if_splits)
  next
    show "dom (T(q \<mapsto> Suc l)) \<subseteq> dom T \<union> free_addrs s" using L(4) by auto
  next
    show "free_addrs t \<subseteq> free_addrs s" using pmm.alloc_frames [of s] wf by (simp add: t pt_wf_def)
  qed (use L c t in simp_all)
qed

lemma card_alloc:
  assumes "pmm_inv s" "pmm_alloc_frame s = (q, s1)"
  shows "card (free_addrs s) \<le> Suc (card (free_addrs s1))"
proof -
  have "free_addrs s1 = free_addrs s - {q}" using pmm.alloc_frames [OF assms(1)] unfolding assms(2) by simp
  then show ?thesis using card.remove [OF pmm.finite_frames [OF assms(1)], of q] by (cases "q \<in> free_addrs s") simp_all
qed

text \<open>The outcome of one level of the walk in terms of the space.\<close>

lemma walk_level_step:
  assumes wf: "pt_wf T s" and p: "T p = Some (Suc (Suc l))" "i < 512"
    and small: "\<not> bit (pt_mem s (pt_cell s p i)) 7"
    and w: "walk_level (pt_cell s p i) st ex al s = (r, s')"
  obtains
    (present) q where "bit (pt_mem s (pt_cell s p i)) 0" "q = pt_mem s (pt_cell s p i) AND PTE_ADDR_MASK"
      "r = Some (q, False)" "s' = s" "T q = Some (Suc l)" "links_to s p i q"
  | (stop) "\<not> bit (pt_mem s (pt_cell s p i)) 0" "r = None" "s' = s" "al \<longrightarrow> free_addrs s = {}"
  | (fresh) q where "\<not> bit (pt_mem s (pt_cell s p i)) 0" "al" "r = Some (q, False)"
      "pt_grow T s (T(q \<mapsto> Suc l)) s'" "links_to s' p i q" "\<And>v ns. small_path s' ns v q"
      "card (free_addrs s) \<le> Suc (card (free_addrs s'))"
  using wf p small w
proof (cases rule: walk_level_cases)
  case present
  show ?thesis by (rule that(1) [OF present(1) refl present(2,3,4)]) (use present small in \<open>simp add: links_to_def\<close>)
next
  case stop
  then show ?thesis by (rule that(2))
next
  case (fresh q)
  note g = link_table_grow [OF wf p fresh(1,4,5), folded fresh(6)]
  have z: "pt_mem s' (pt_cell s' q j) = 0" if "j < 512" for j
    using link_table_mem(2) [OF wf p link_table_wf(4) [OF wf p fresh(4,5)] that] unfolding fresh(6) by simp
  have sp: "small_path s' ns v q" for ns v by (cases ns) (simp_all add: z Let_def)
  have card: "card (free_addrs s) \<le> Suc (card (free_addrs s'))"
    using card_alloc [OF _ fresh(4)] wf unfolding fresh(6) pt_wf_def by simp
  show ?thesis by (rule that(3) [OF fresh(1,2,3) g sp card])
qed

text \<open>An entry of a table above level 1.\<close>

definition upper_cell :: "(u64 \<rightharpoonup> nat) \<Rightarrow> 'a vmm_scheme \<Rightarrow> u64 \<Rightarrow> bool" where
  "upper_cell T s c \<longleftrightarrow> (\<exists>p l i. T p = Some (Suc (Suc l)) \<and> i < 512 \<and> c = pt_cell s p i)"

lemma upper_cell_leaf:
  assumes "pt_wf T s" "upper_cell T s c" "T q = Some 1" "j < 512"
  shows "pt_cell s q j \<noteq> c"
  using assms pt_wf_page [OF assms(1)] by (auto simp: upper_cell_def pt_cell_eq_iff)

text \<open>The three levels of \<open>walk_pt\<close> as a loop; the result carries the entries it went through.\<close>

fun walk_tables ::
    "(nat \<times> u64 \<times> u64) list \<Rightarrow> u64 \<Rightarrow> u64 \<Rightarrow> bool \<Rightarrow> 'a vmm_scheme \<Rightarrow> (u64 \<times> u64 list \<times> bool) option \<times> 'a vmm_scheme" where
  "walk_tables [] p virt al s = (Some (p, [], False), s)"
| "walk_tables ((n, st, ex) # L) p virt al s =
     (case walk_level (pt_cell s p (pt_index n virt)) st ex al s of
        (None, s) \<Rightarrow> (None, s)
      | (Some (q, b), s1) \<Rightarrow>
          (case walk_tables L q virt al s1 of
             (None, s) \<Rightarrow> (None, s)
           | (Some (r, cs, b'), s2) \<Rightarrow> (Some (r, pt_cell s p (pt_index n virt) # cs, b \<or> b'), s2)))"

definition walk_levels :: "(nat \<times> u64 \<times> u64) list" where
  "walk_levels = [(39, 0x40000000, 0), (30, 0x200000, push_bit 7 1), (21, 0x1000, 0)]"

definition touch_path :: "bool \<Rightarrow> u64 list \<Rightarrow> 'a vmm_scheme \<Rightarrow> 'a vmm_scheme" where
  "touch_path user cs s =
     (let s = fold clear_nx cs s in if user then fold set_user cs s else s)"

lemma walk_pt_tables:
  "walk_pt cr3 virt al user s =
     (case walk_tables walk_levels cr3 virt al s of
        (None, s) \<Rightarrow> (None, s)
      | (Some (q, cs, b), s) \<Rightarrow> (Some (pt_cell s q (pt_index 12 virt), b), touch_path user cs s))"
  by (auto simp: walk_pt_def walk_levels_def touch_path_def Let_def split: option.splits prod.splits)

lemma walk_tables_Some:
  assumes "pt_wf T s" "T p = Some (Suc (length L))" "small_path s (map fst L) virt p"
    and "walk_tables L p virt al s = (Some (q, cs, b), s')"
  shows "\<exists>T'. pt_grow T s T' s' \<and> leaf_table s' (map fst L) virt p = Some q \<and> \<not> b \<and>
    T' q = Some 1 \<and> (\<forall>c\<in>set cs. upper_cell T' s' c) \<and> (\<not> al \<longrightarrow> s' = s)"
  using assms
proof (induction L arbitrary: T s p q cs b)
  case Nil
  then show ?case by (auto intro!: exI [of _ T] pt_grow_refl)
next
  case (Cons x L)
  obtain n st ex where x: "x = (n, st, ex)" by (cases x)
  let ?c = "pt_cell s p (pt_index n virt)"
  have p: "T p = Some (Suc (Suc (length L)))" using Cons.prems(2) by simp
  have small: "\<not> bit (pt_mem s ?c) 7" using Cons.prems(3) by (simp add: x Let_def)
  obtain r1 s1 where w: "walk_level ?c st ex al s = (r1, s1)" by (cases "walk_level ?c st ex al s")
  obtain q1 b1 cs1 b2 where r: "r1 = Some (q1, b1)" "walk_tables L q1 virt al s1 = (Some (q, cs1, b2), s')"
    "cs = ?c # cs1" "b \<longleftrightarrow> b1 \<or> b2"
    using Cons.prems(4) by (auto simp: x w split: option.splits prod.splits)
  obtain T1 where T1: "pt_grow T s T1 s1" "T1 q1 = Some (Suc (length L))" "small_path s1 (map fst L) virt q1"
    "links_to s1 p (pt_index n virt) q1" "\<not> b1" "\<not> al \<longrightarrow> s1 = s"
    using Cons.prems(1) p pt_index_less small w
  proof (cases rule: walk_level_step)
    case (present q)
    have "small_path s (map fst L) virt q" using Cons.prems(3) present by (simp add: x Let_def)
    with present r(1) pt_grow_refl [OF Cons.prems(1)] show ?thesis by (intro that [of T]) simp_all
  next
    case (fresh q)
    then have q: "q = q1" "\<not> b1" using r(1) by simp_all
    show ?thesis by (rule that [OF fresh(4) [unfolded q] _ fresh(6) [unfolded q] fresh(5) [unfolded q] q(2)]) (use fresh(2) in simp_all)
  qed (use r in simp)
  have wf1: "pt_wf T1 s1" by (rule pt_growD(1) [OF T1(1)])
  obtain T' where T': "pt_grow T1 s1 T' s'" "leaf_table s' (map fst L) virt q1 = Some q" "\<not> b2"
      "T' q = Some 1" "\<forall>c\<in>set cs1. upper_cell T' s' c" "\<not> al \<longrightarrow> s' = s1"
    using Cons.IH [OF wf1 T1(2,3) r(2)] by blast
  have p1: "T1 p = Some (Suc (Suc (length L)))" "T' p = Some (Suc (Suc (length L)))"
    using pt_growD(3) [OF T1(1) p] pt_growD(3) [OF T'(1)] by simp_all
  have "links_to s' p (pt_index n virt) q1" by (rule pt_growD(4) [OF T'(1) p1(1) pt_index_less T1(4)])
  then have "leaf_table s' (map fst (x # L)) virt p = Some q"
    using T'(2) unfolding x list.map fst_conv leaf_table_Cons by blast
  moreover have "pt_grow T s T' s'" using T1(1) T'(1) by (rule pt_grow_trans)
  moreover have "upper_cell T' s' ?c" unfolding upper_cell_def
    using p1(2) \<open>pt_grow T s T' s'\<close> by (intro exI [of _ p] exI [of _ "length L"] exI [of _ "pt_index n virt"]) (simp add: pt_growD(2))
  ultimately show ?case using T' T1 r by (intro exI [of _ T']) simp
qed

lemma walk_tables_None:
  assumes "pt_wf T s" "T p = Some (Suc (length L))" "small_path s (map fst L) virt p"
    and "walk_tables L p virt al s = (None, s')"
  shows "(al \<longrightarrow> card (free_addrs s) < length L) \<and> (\<not> al \<longrightarrow> s' = s \<and> leaf_table s (map fst L) virt p = None)"
  using assms
proof (induction L arbitrary: T s p)
  case (Cons x L)
  obtain n st ex where x: "x = (n, st, ex)" by (cases x)
  let ?c = "pt_cell s p (pt_index n virt)"
  have p: "T p = Some (Suc (Suc (length L)))" using Cons.prems(2) by simp
  have small: "\<not> bit (pt_mem s ?c) 7" using Cons.prems(3) by (simp add: x Let_def)
  obtain r1 s1 where w: "walk_level ?c st ex al s = (r1, s1)" by (cases "walk_level ?c st ex al s")
  show ?case using Cons.prems(1) p pt_index_less small w
  proof (cases rule: walk_level_step)
    case (present q)
    have "small_path s (map fst L) virt q"
      using Cons.prems(3) present by (simp add: x Let_def)
    from Cons.IH [OF Cons.prems(1) present(5) this] present Cons.prems(4) show ?thesis
      by (auto simp: x w Let_def split: option.splits prod.splits)
  next
    case stop
    then show ?thesis using Cons.prems(4) by (auto simp: x w Let_def)
  next
    case (fresh q)
    have "walk_tables L q virt al s1 = (None, s')"
      using Cons.prems(4) w unfolding x fresh(3) by (auto split: option.splits prod.splits)
    from Cons.IH [OF pt_growD(1) [OF fresh(4)] _ fresh(6) this] fresh(2)
    have "card (free_addrs s1) < length L" by simp
    with fresh(2,7) show ?thesis by simp
  qed
qed simp

section \<open>Mapping and translation\<close>

text \<open>What the processor finds for \<open>virt\<close> in the tables at \<open>cr3\<close>: the present leaf entry of a
  4 KiB page.\<close>

definition page_entry :: "'a vmm_scheme \<Rightarrow> u64 \<Rightarrow> u64 \<Rightarrow> u64 option" where
  "page_entry s cr3 virt =
     (case leaf_table s [39, 30, 21] virt cr3 of None \<Rightarrow> None
      | Some q \<Rightarrow> (let e = pt_mem s (pt_cell s q (pt_index 12 virt)) in if bit e 0 then Some e else None))"

definition same_page :: "u64 \<Rightarrow> u64 \<Rightarrow> bool" where
  "same_page v w \<longleftrightarrow> (\<forall>n\<in>set [39, 30, 21, 12]. pt_index n v = pt_index n w)"

lemma walk_levels_simps [simp]: "map fst walk_levels = [39, 30, 21]" "length walk_levels = 3"
  by (simp_all add: walk_levels_def)

lemma leaf_table_links: "links_to s' = links_to s \<Longrightarrow> leaf_table s' ns virt p = leaf_table s ns virt p"
proof (induction ns arbitrary: p)
  case (Cons n ns)
  have "leaf_table s' (n # ns) virt p = Some q \<longleftrightarrow> leaf_table s (n # ns) virt p = Some q" for q
    unfolding leaf_table_Cons using Cons by simp
  then show ?case by (metis option.exhaust)
qed simp

lemma leaf_table_level:
  "pt_wf T s \<Longrightarrow> T p = Some (Suc (length ns)) \<Longrightarrow> leaf_table s ns virt p = Some q \<Longrightarrow> T q = Some 1"
proof (induction ns arbitrary: p)
  case (Cons n ns)
  then obtain p1 where p1: "links_to s p (pt_index n virt) p1" "leaf_table s ns virt p1 = Some q"
    by (auto simp only: leaf_table_Cons)
  then show ?case using Cons.IH [OF Cons.prems(1) links_to_level [OF Cons.prems(1) _ pt_index_less p1(1)]] Cons.prems(2) by simp
qed simp

lemma touch_path_frame:
  "pt_wf T (touch_path user cs s) = pt_wf T s" "links_to (touch_path user cs s) = links_to s"
  "pt_cell (touch_path user cs s) = pt_cell s" "free_addrs (touch_path user cs s) = free_addrs s"
  "c \<notin> set cs \<Longrightarrow> pt_mem (touch_path user cs s) c = pt_mem s c"
proof -
  have n: "pt_wf T (fold clear_nx cs s) = pt_wf T s" "links_to (fold clear_nx cs s) = links_to s"
    "pt_cell (fold clear_nx cs s) = pt_cell s" "free_addrs (fold clear_nx cs s) = free_addrs s"
    "c \<notin> set cs \<Longrightarrow> pt_mem (fold clear_nx cs s) c = pt_mem s c"
    for s :: "'b vmm_scheme" by (induction cs arbitrary: s) (auto simp: touch_mem)
  have u: "pt_wf T (fold set_user cs s) = pt_wf T s" "links_to (fold set_user cs s) = links_to s"
    "pt_cell (fold set_user cs s) = pt_cell s" "free_addrs (fold set_user cs s) = free_addrs s"
    "c \<notin> set cs \<Longrightarrow> pt_mem (fold set_user cs s) c = pt_mem s c"
    for s :: "'b vmm_scheme" by (induction cs arbitrary: s) (auto simp: touch_mem)
  show "pt_wf T (touch_path user cs s) = pt_wf T s" "links_to (touch_path user cs s) = links_to s"
    "pt_cell (touch_path user cs s) = pt_cell s" "free_addrs (touch_path user cs s) = free_addrs s"
    "c \<notin> set cs \<Longrightarrow> pt_mem (touch_path user cs s) c = pt_mem s c"
    by (simp_all add: touch_path_def Let_def n u)
qed

lemma page_entry_touch:
  assumes "pt_wf T s" "T cr3 = Some 4" "\<forall>c\<in>set cs. upper_cell T s c"
  shows "page_entry (touch_path user cs s) cr3 v = page_entry s cr3 v"
proof -
  have "pt_mem (touch_path user cs s) (pt_cell s q (pt_index 12 v)) = pt_mem s (pt_cell s q (pt_index 12 v))"
    if "leaf_table s [39, 30, 21] v cr3 = Some q" for q
  proof -
    have "T q = Some 1"
      using assms(2) by (intro leaf_table_level [OF assms(1) _ that]) simp
    from upper_cell_leaf [OF assms(1) _ this pt_index_less] assms(3) show ?thesis
      by (intro touch_path_frame(5)) blast
  qed
  then show ?thesis
    by (cases "leaf_table s [39, 30, 21] v cr3")
      (simp_all add: page_entry_def touch_path_frame(3) leaf_table_links [OF touch_path_frame(2)] del: leaf_table.simps)
qed

lemma page_entry_grow:
  assumes wf: "pt_wf T s" and g: "pt_grow T s T' s'" and T: "T cr3 = Some 4"
  shows "page_entry s' cr3 v = page_entry s cr3 v"
proof -
  have c: "pt_cell s' = pt_cell s" by (rule pt_growD(2) [OF g])
  have l: "T cr3 = Some (Suc (length [39::nat, 30, 21]))" using T by simp
  have l': "T' cr3 = Some (Suc (length [39::nat, 30, 21]))" using pt_growD(3) [OF g T] by simp
  show ?thesis
  proof (cases "leaf_table s [39, 30, 21] v cr3")
    case (Some q)
    note s = leaf_table_level [OF wf l Some]
    show ?thesis
      using pt_grow_leaf_mono [OF wf g l Some] pt_growD(6) [OF g s pt_index_less] Some
      by (simp add: page_entry_def c del: leaf_table.simps)
  next
    case None
    show ?thesis
    proof (cases "leaf_table s' [39, 30, 21] v cr3")
      case (Some q)
      with pt_grow_leaf_new [OF g l' Some] None have "T q = None" "T' q = Some 1" by auto
      from pt_growD(7) [OF g this pt_index_less] show ?thesis
        using Some None by (simp add: page_entry_def c del: leaf_table.simps)
    qed (use None in \<open>simp add: page_entry_def del: leaf_table.simps\<close>)
  qed
qed

text \<open>The walk on small pages, seen from outside: no lookup changes, and a result is the leaf entry.\<close>

lemma walk_pt_outcome:
  assumes wf: "pt_wf T s" and T: "T cr3 = Some 4" and small: "small_path s [39, 30, 21] virt cr3"
    and w: "walk_pt cr3 virt al user s = (r, s')"
  obtains
    (stop) "r = None" "al \<longrightarrow> card (free_addrs s) < 3" "\<not> al \<longrightarrow> s' = s \<and> page_entry s cr3 virt = None"
  | (leaf) T' q where "r = Some (pt_cell s' q (pt_index 12 virt), False)" "T' q = Some 1" "pt_wf T' s'"
      "T' cr3 = Some 4" "leaf_table s' [39, 30, 21] virt cr3 = Some q" "unshared T s \<longrightarrow> unshared T' s'"
      "\<And>v. page_entry s' cr3 v = page_entry s cr3 v" "\<not> al \<longrightarrow> leaf_table s [39, 30, 21] virt cr3 = Some q"
      "dom T' \<subseteq> dom T \<union> free_addrs s"
proof -
  have l: "T cr3 = Some (Suc (length walk_levels))" using T by simp
  have sm: "small_path s (map fst walk_levels) virt cr3" using small by (simp del: small_path.simps)
  obtain r1 s1 where w1: "walk_tables walk_levels cr3 virt al s = (r1, s1)" by (cases "walk_tables walk_levels cr3 virt al s")
  show thesis
  proof (cases r1)
    case None
    from walk_tables_None [OF wf l sm w1 [unfolded None]] w w1 None show thesis
      by (intro stop) (auto simp: walk_pt_tables page_entry_def simp del: leaf_table.simps)
  next
    case (Some x)
    obtain q cs b where x: "x = (q, cs, b)" by (cases x)
    from walk_tables_Some [OF wf l sm w1 [unfolded Some x]]
    obtain T' where T': "pt_grow T s T' s1" "leaf_table s1 [39, 30, 21] virt cr3 = Some q" "\<not> b" "T' q = Some 1"
      "\<forall>c\<in>set cs. upper_cell T' s1 c" "\<not> al \<longrightarrow> s1 = s" by (auto simp del: leaf_table.simps)
    have old: "\<not> al \<longrightarrow> leaf_table s [39, 30, 21] virt cr3 = Some q" using T'(2,6) by blast
    have rs: "r = Some (pt_cell s1 q (pt_index 12 virt), False)" "s' = touch_path user cs s1"
      using w w1 Some T'(3) by (simp_all add: walk_pt_tables x)
    have wf1: "pt_wf T' s1" "T' cr3 = Some 4" "unshared T s \<longrightarrow> unshared T' s1"
      using pt_growD(1) [OF T'(1)] pt_growD(3) [OF T'(1) T] pt_growD(5) [OF T'(1)] by simp_all
    have "page_entry s' cr3 v = page_entry s cr3 v" for v
      using page_entry_touch [OF wf1(1,2) T'(5)] page_entry_grow [OF wf T'(1) T] by (simp add: rs)
    moreover have "unshared T' s' = unshared T' s1" by (simp add: unshared_def rs touch_path_frame)
    ultimately show thesis using wf1 T'(1-5) rs old pt_growD(8) [OF T'(1)]
      by (intro leaf [of q T']) (simp_all add: touch_path_frame leaf_table_links [OF touch_path_frame(2)] del: leaf_table.simps)
  qed
qed

lemma leaf_table_write:
  assumes wf: "pt_wf T s" and q: "T q = Some 1" "j < 512"
  shows "T p = Some (Suc (length ns)) \<Longrightarrow>
    leaf_table (pt_write (pt_cell s q j) e s) ns v p = leaf_table s ns v p"
proof (induction ns arbitrary: p)
  case (Cons n ns)
  have "pt_cell s p (pt_index n v) \<noteq> pt_cell s q j"
    using pt_wf_page [OF wf] Cons.prems q by (auto simp: pt_cell_eq_iff)
  then have same: "links_to (pt_write (pt_cell s q j) e s) p (pt_index n v) p1 = links_to s p (pt_index n v) p1" for p1
    by (simp add: links_to_def)
  have "T p1 = Some (Suc (length ns))" if "links_to s p (pt_index n v) p1" for p1
    using links_to_level [OF wf _ pt_index_less that, of "length ns"] Cons.prems by simp
  with Cons.IH same have "leaf_table (pt_write (pt_cell s q j) e s) (n # ns) v p = Some r \<longleftrightarrow>
      leaf_table s (n # ns) v p = Some r" for r unfolding leaf_table_Cons by metis
  then show ?case by (metis option.exhaust)
qed simp

lemma page_entry_write:
  fixes e :: u64
  assumes wf: "pt_wf T s" "unshared T s" and T: "T cr3 = Some 4"
    and q: "leaf_table s [39, 30, 21] virt cr3 = Some q"
  defines "t \<equiv> pt_write (pt_cell s q (pt_index 12 virt)) e s"
  shows "bit e 0 \<Longrightarrow> page_entry t cr3 virt = Some e"
    and "\<not> bit e 0 \<Longrightarrow> page_entry t cr3 virt = None"
    and "\<not> same_page v virt \<Longrightarrow> page_entry t cr3 v = page_entry s cr3 v"
proof -
  have l: "T cr3 = Some (Suc (length [39::nat, 30, 21]))" using T by simp
  note q1 = leaf_table_level [OF wf(1) l q]
  have leaf: "leaf_table t [39, 30, 21] v cr3 = leaf_table s [39, 30, 21] v cr3" for v
    unfolding t_def by (rule leaf_table_write [OF wf(1) q1 pt_index_less l])
  show "bit e 0 \<Longrightarrow> page_entry t cr3 virt = Some e" "\<not> bit e 0 \<Longrightarrow> page_entry t cr3 virt = None"
    by (simp_all add: page_entry_def leaf q del: leaf_table.simps) (simp_all add: t_def)
  assume ns: "\<not> same_page v virt"
  have "pt_mem t (pt_cell s q' (pt_index 12 v)) = pt_mem s (pt_cell s q' (pt_index 12 v))"
    if q': "leaf_table s [39, 30, 21] v cr3 = Some q'" for q'
  proof -
    note q2 = leaf_table_level [OF wf(1) l q']
    have "\<not> (q' = q \<and> pt_index 12 v = pt_index 12 virt)"
    proof
      assume a: "q' = q \<and> pt_index 12 v = pt_index 12 virt"
      with leaf_table_inj [OF wf l l q'] q ns show False by (simp add: same_page_def del: leaf_table.simps)
    qed
    then have "pt_cell s q' (pt_index 12 v) \<noteq> pt_cell s q (pt_index 12 virt)"
      using pt_wf_page [OF wf(1)] q1 q2 by (simp add: pt_cell_eq_iff)
    then show ?thesis by (simp add: t_def)
  qed
  moreover have "pt_cell t = pt_cell s" by (simp add: t_def)
  ultimately show "page_entry t cr3 v = page_entry s cr3 v"
    by (cases "leaf_table s [39, 30, 21] v cr3") (simp_all add: page_entry_def leaf del: leaf_table.simps)
qed

lemma pt_entry_bits:
  assumes "phys AND 0xFFF = 0" "flags AND PTE_ADDR_MASK = 0"
  shows "bit ((phys AND PTE_ADDR_MASK) OR flags OR VMM_PRESENT) 0"
    and "((phys AND PTE_ADDR_MASK) OR flags OR VMM_PRESENT) AND PTE_ADDR_MASK = phys AND PTE_ADDR_MASK"
proof -
  show "bit ((phys AND PTE_ADDR_MASK) OR flags OR VMM_PRESENT) 0" by (simp add: bit_or_iff flag_bits)
  have f: "\<not> (bit flags n \<and> bit PTE_ADDR_MASK n)" for n using assms(2) by (metis bit_and_iff bit_0_eq bot_apply bot_bool_def)
  show "((phys AND PTE_ADDR_MASK) OR flags OR VMM_PRESENT) AND PTE_ADDR_MASK = phys AND PTE_ADDR_MASK"
    by (rule bit_word_eqI) (use f in \<open>auto simp: bit_and_iff bit_or_iff flag_bits PTE_ADDR_MASK_bits\<close>)
qed

lemma vmm_translate_in_entry:
  assumes "pt_wf T s" "T cr3 = Some 4" "small_path s [39, 30, 21] virt cr3"
  shows "fst (vmm_translate_in cr3 virt s) =
      (case page_entry s cr3 virt of None \<Rightarrow> 0 | Some e \<Rightarrow> (e AND PTE_ADDR_MASK) OR (virt AND 0xFFF))"
    and "page_entry (snd (vmm_translate_in cr3 virt s)) cr3 v = page_entry s cr3 v"
proof -
  obtain r s' where w: "walk_pt cr3 virt False False s = (r, s')" by (cases "walk_pt cr3 virt False False s")
  have "fst (vmm_translate_in cr3 virt s) =
      (case page_entry s cr3 virt of None \<Rightarrow> 0 | Some e \<Rightarrow> (e AND PTE_ADDR_MASK) OR (virt AND 0xFFF)) \<and>
    page_entry (snd (vmm_translate_in cr3 virt s)) cr3 v = page_entry s cr3 v"
    using assms w
  proof (cases rule: walk_pt_outcome)
    case stop
    then show ?thesis by (simp add: vmm_translate_in_def w)
  next
    case (leaf T' q)
    have "page_entry s cr3 virt = page_entry s' cr3 virt" by (simp add: leaf(7))
    then have "page_entry s cr3 virt = (let e = pt_mem s' (pt_cell s' q (pt_index 12 virt)) in if bit e 0 then Some e else None)"
      using leaf(5) by (simp add: page_entry_def del: leaf_table.simps)
    then show ?thesis using leaf(1,7) by (simp add: vmm_translate_in_def w bit_flag_iff Let_def)
  qed
  then show "fst (vmm_translate_in cr3 virt s) =
      (case page_entry s cr3 virt of None \<Rightarrow> 0 | Some e \<Rightarrow> (e AND PTE_ADDR_MASK) OR (virt AND 0xFFF))"
    "page_entry (snd (vmm_translate_in cr3 virt s)) cr3 v = page_entry s cr3 v" by blast+
qed

lemma leaf_write_wf:
  assumes wf: "pt_wf T s" and q: "T q = Some 1" "j < 512"
  shows "pt_wf T (pt_write (pt_cell s q j) e s)"
proof -
  have "pt_cell s p i \<noteq> pt_cell s q j" if "T p = Some (Suc (Suc l))" "i < 512" for p l i
    using pt_wf_page [OF wf] that q by (auto simp: pt_cell_eq_iff)
  with wf show ?thesis by (simp add: pt_wf_def)
qed

lemma leaf_small_path: "leaf_table s ns v p = Some q \<Longrightarrow> small_path s ns v p"
  by (induction ns arbitrary: p) (auto simp: Let_def split: if_splits)

text \<open>The copy loop of \<open>vmm_space_clone\<close> never reads what it writes.\<close>

lemma clone_loop:
  assumes "r AND 0xFFF = 0" "p AND 0xFFF = 0" "r \<noteq> p" "g_root_cr3 s = r" "pt_cell s = pt_cell u"
    and "set is \<subseteq> {..<512}"
  shows "fold (\<lambda>i s. pt_write (pt_cell s p i) (pt_mem s (pt_cell s (g_root_cr3 s) i)) s) is s =
    fold (\<lambda>i. pt_write (pt_cell u p i) (pt_mem s (pt_cell u r i))) is s"
  using assms(4-6)
proof (induction "is" arbitrary: s)
  case (Cons i "is")
  have "pt_cell u r j \<noteq> pt_cell u p i" if "j \<in> set is" for j
    using that Cons.prems assms(1-3) by (auto simp: pt_cell_eq_iff)
  then have "fold (\<lambda>j. pt_write (pt_cell u p j) (pt_mem (pt_write (pt_cell u p i) v s) (pt_cell u r j))) is t =
      fold (\<lambda>j. pt_write (pt_cell u p j) (pt_mem s (pt_cell u r j))) is t" for v t
    by (intro fold_cong) auto
  with Cons show ?case by simp
qed simp

text \<open>An empty address space with its PML4 at 0x100000 and six free frames, for the examples.\<close>

definition vmm_example :: vmm where
  "vmm_example = pmm_init (Some [small_region]) 0
     \<lparr>g_bitmap = \<lambda>_. 0, g_total_frames = 0, g_allocated_frames = 0, g_hhdm_offset = 0, g_last_hint = 0,
      pt_mem = \<lambda>_. 0, r_cr3 = 0x100000, g_cr3 = 0x100000, g_root_cr3 = 0x100000\<rparr>"

lemma vmm_fields_more:
  "pmm.more s = pmm.more t \<Longrightarrow> pt_mem s = pt_mem t \<and> g_cr3 s = g_cr3 t \<and> g_root_cr3 s = g_root_cr3 t"
  by (cases s; cases t) simp

lemma vmm_example_state:
  "pt_mem vmm_example = (\<lambda>_. 0)" "g_cr3 vmm_example = 0x100000" "g_root_cr3 vmm_example = 0x100000"
  "pmm_inv vmm_example" "card (free_addrs vmm_example) = 6" "0x100000 \<notin> free_addrs vmm_example"
proof -
  show "pt_mem vmm_example = (\<lambda>_. 0)" "g_cr3 vmm_example = 0x100000" "g_root_cr3 vmm_example = 0x100000"
    by (simp_all add: vmm_example_def vmm_fields_more [OF pmm_init_more])
  show "pmm_inv vmm_example" by (simp add: vmm_example_def small_region_init)
  have free: "free_addrs vmm_example = frame_addr ` {1..<7}"
    by (simp add: vmm_example_def free_addrs_def small_region_init)
  have "inj_on frame_addr {1..<7}" by (auto simp: inj_on_def frame_addr_eq_iff)
  then show "card (free_addrs vmm_example) = 6" by (simp add: free card_image)
  have "unat (drop_bit 12 (0x100000 :: u64)) = 256" by simp
  moreover have "unat (drop_bit 12 (frame_addr f)) \<noteq> 256" if "f < 7" for f using that by (subst unat_frame_addr) simp_all
  ultimately show "0x100000 \<notin> free_addrs vmm_example" unfolding free by fastforce
qed

lemma vmm_example_wf:
  "pt_wf [0x100000 \<mapsto> 4] vmm_example" "unshared [0x100000 \<mapsto> 4] vmm_example"
  "small_path vmm_example [39, 30, 21] virt 0x100000"
  by (auto simp: pt_wf_def unshared_def links_to_def vmm_example_state PTE_ADDR_MASK_def Let_def split: if_splits)

section \<open>What the memory managers leave alone\<close>

text \<open>No operation of this layer but \<open>vmm_space_switch\<close> changes the active spaces, and none changes the layout of
  physical memory or the fields of the layers above.\<close>

definition beyond :: "'a vmm_scheme \<Rightarrow> (nat \<times> u64) \<times> u64 \<times> u64 \<times> u64 \<times> 'a" where
  "beyond s = ((g_total_frames s, g_hhdm_offset s), r_cr3 s, g_cr3 s, g_root_cr3 s, vmm.more s)"

lemma beyond_more: "beyond s = beyond t \<Longrightarrow> vmm.more s = vmm.more t"
  by (simp add: beyond_def)

lemma pmm_ops_beyond [frame_simps]:
  "beyond (snd (pmm_alloc_frame s)) = beyond s"
  "beyond (pmm_free_frame p s) = beyond s"
proof -
  have *: "pmm.more s = pmm.more t \<Longrightarrow> g_total_frames s = g_total_frames t \<Longrightarrow> g_hhdm_offset s = g_hhdm_offset t \<Longrightarrow>
      beyond s = beyond t" for s t :: "'b vmm_scheme" by (cases s; cases t) (simp add: beyond_def)
  show "beyond (snd (pmm_alloc_frame s)) = beyond s" "beyond (pmm_free_frame p s) = beyond s"
    by (rule *; simp add: pmm_frame)+
qed

lemma pt_write_beyond [frame_simps]:
  "beyond (pt_write p v s) = beyond s" "beyond (clear_nx p s) = beyond s"
  "beyond (set_user p s) = beyond s" "beyond (pt_zero_page p s) = beyond s"
proof -
  show w: "beyond (pt_write p v s) = beyond s" for p v and s :: "'b vmm_scheme" by (simp add: pt_write_def beyond_def)
  show "beyond (clear_nx p s) = beyond s" "beyond (set_user p s) = beyond s"
    by (simp_all add: clear_nx_def set_user_def w)
  have "beyond (fold (\<lambda>i. pt_write (c i) 0) is u) = beyond u" for "is" c and u :: "'b vmm_scheme"
    by (induction "is" arbitrary: u) (simp_all add: w)
  then show "beyond (pt_zero_page p s) = beyond s" by (simp add: pt_zero_page_def)
qed

lemma fold_pt_write_beyond [frame_simps]:
  "beyond (fold (\<lambda>i. pt_write (c i) (f i)) is s) = beyond s"
  by (induction "is" arbitrary: s) (simp_all add: frame_simps)

lemma walk_level_beyond [frame_simps]:
  "beyond (snd (table_fetch e al s)) = beyond s" "beyond (snd (split_large e st ex s)) = beyond s"
  "beyond (snd (walk_level e st ex al s)) = beyond s"
proof -
  have a: "pmm_alloc_frame s = (q, u) \<Longrightarrow> beyond u = beyond s" for q and s u :: "'b vmm_scheme"
    using pmm_ops_beyond(1) [of s] by simp
  show t: "beyond (snd (table_fetch e al s)) = beyond s" for s :: "'b vmm_scheme"
    by (simp add: table_fetch_def Let_def frame_simps a split: prod.splits)
  show l: "beyond (snd (split_large e st ex s)) = beyond s" for s :: "'b vmm_scheme"
    by (auto simp: split_large_def Let_def frame_simps dest: a split: prod.splits)
  have a2: "split_large e st ex s = (q, u) \<Longrightarrow> beyond u = beyond s" for q and s u :: "'b vmm_scheme"
    using l [of s] by simp
  have a3: "table_fetch e al s = (q, u) \<Longrightarrow> beyond u = beyond s" for q and s u :: "'b vmm_scheme"
    using t [of s] by simp
  show "beyond (snd (walk_level e st ex al s)) = beyond s"
    by (auto simp: walk_level_def Let_def dest!: a2 a3 split: prod.splits option.splits)
qed

lemma walk_pt_beyond [frame_simps]: "beyond (snd (walk_pt cr3 virt al user s)) = beyond s"
proof -
  have w: "walk_level e st ex al s = (q, u) \<Longrightarrow> beyond u = beyond s" for e st ex q and s u :: "'b vmm_scheme"
    using walk_level_beyond(3) [of e st ex al s] by simp
  show ?thesis by (auto simp: walk_pt_def Let_def frame_simps dest!: w split: prod.splits option.splits)
qed

lemma walk_pt_beyondD: "walk_pt cr3 virt al user s = (r, s') \<Longrightarrow> beyond s' = beyond s"
  using walk_pt_beyond [of cr3 virt al user s] by simp

lemma vmm_ops_beyond [frame_simps]:
  "beyond (snd (vmm_map_page_in cr3 virt phys flags s)) = beyond s"
  "beyond (snd (vmm_map_page virt phys flags s)) = beyond s"
  "beyond (vmm_unmap_page_in cr3 virt s) = beyond s" "beyond (vmm_unmap_page virt s) = beyond s"
  "beyond (snd (vmm_translate_in cr3 virt s)) = beyond s" "beyond (snd (vmm_translate virt s)) = beyond s"
  "beyond (snd (vmm_space_clone s)) = beyond s"
proof -
  have f: "beyond (fold (\<lambda>i s. pt_write (pt_cell s p i) (pt_mem s (pt_cell s (g_root_cr3 s) i)) s) is s) = beyond s"
    for p "is" and s :: "'b vmm_scheme" by (induction "is" arbitrary: s) (simp_all add: frame_simps)
  have a: "pmm_alloc_frame s = (q, u) \<Longrightarrow> beyond u = beyond s" for q and s u :: "'b vmm_scheme"
    using pmm_ops_beyond(1) [of s] by simp
  show "beyond (snd (vmm_space_clone s)) = beyond s" for s :: "'b vmm_scheme"
    by (auto simp: vmm_space_clone_def Let_def f frame_simps dest!: a split: prod.splits)
qed (auto simp: vmm_map_page_def vmm_map_page_in_def vmm_unmap_page_def vmm_unmap_page_in_def
    vmm_translate_def vmm_translate_in_def frame_simps dest!: walk_pt_beyondD
    split: prod.splits option.splits)

lemma vmm_ops_more [frame_simps]:
  "vmm.more (snd (pmm_alloc_frame s)) = vmm.more s" "vmm.more (pmm_free_frame p s) = vmm.more s"
  "vmm.more (pt_write p v s) = vmm.more s"
  "vmm.more (snd (vmm_map_page_in cr3 virt phys flags s)) = vmm.more s"
  "vmm.more (snd (vmm_map_page virt phys flags s)) = vmm.more s"
  "vmm.more (vmm_unmap_page_in cr3 virt s) = vmm.more s" "vmm.more (vmm_unmap_page virt s) = vmm.more s"
  "vmm.more (snd (vmm_translate_in cr3 virt s)) = vmm.more s" "vmm.more (snd (vmm_translate virt s)) = vmm.more s"
  "vmm.more (snd (vmm_space_clone s)) = vmm.more s"
  by (rule beyond_more, simp add: frame_simps)+

lemma vmm_space_switch_more [frame_simps]: "vmm.more (vmm_space_switch cr3 s) = vmm.more s"
  by (simp add: vmm_space_switch_def)

section \<open>Properties\<close>

text \<open>C7: \<open>vmm_map_page_in\<close> on well-formed tables without large pages on the way either installs
  exactly the requested leaf entry, so that \<open>vmm_translate_in\<close> returns the mapped frame and the
  entry of every other page of the space is what it was, or it returns -1 for a misaligned address
  or because fewer than three frames were left for new tables.\<close>

theorem vmm_map_page_in_correct:
  assumes wf: "pt_wf T s" "unshared T s" "T cr3 = Some 4" and small: "small_path s [39, 30, 21] virt cr3"
    and flags: "flags AND PTE_ADDR_MASK = 0"
    and m: "vmm_map_page_in cr3 virt phys flags s = (r, s')"
  shows "r = 0 \<and> page_entry s' cr3 virt = Some ((phys AND PTE_ADDR_MASK) OR flags OR VMM_PRESENT) \<and>
      fst (vmm_translate_in cr3 virt s') = phys AND PTE_ADDR_MASK \<and>
      (\<forall>v. \<not> same_page v virt \<longrightarrow> page_entry s' cr3 v = page_entry s cr3 v) \<or>
    r = -1 \<and> (virt AND 0xFFF \<noteq> 0 \<or> phys AND 0xFFF \<noteq> 0 \<or> card (free_addrs s) < 3)"
proof (cases "virt AND 0xFFF \<noteq> 0 \<or> phys AND 0xFFF \<noteq> 0")
  case True
  with m show ?thesis by (auto simp: vmm_map_page_in_def)
next
  case False
  obtain q s1 where w: "walk_pt cr3 virt True (flags AND VMM_USER \<noteq> 0) s = (q, s1)"
    by (cases "walk_pt cr3 virt True (flags AND VMM_USER \<noteq> 0) s")
  let ?e = "(phys AND PTE_ADDR_MASK) OR flags OR VMM_PRESENT"
  show ?thesis using wf(1,3) small w
  proof (cases rule: walk_pt_outcome)
    case stop
    with m False w show ?thesis by (simp add: vmm_map_page_in_def)
  next
    case (leaf T' p)
    have s': "r = 0" "s' = pt_write (pt_cell s1 p (pt_index 12 virt)) ?e s1"
      using m False w leaf(1) by (simp_all add: vmm_map_page_in_def)
    note E = page_entry_write [OF leaf(3) _ leaf(4,5), where e = ?e, folded s'(2)]
    have e: "bit ?e 0" "?e AND PTE_ADDR_MASK = phys AND PTE_ADDR_MASK"
      using pt_entry_bits [OF _ flags] False by simp_all
    have u: "unshared T' s1" using leaf(6) wf(2) by simp
    have sm: "small_path s' [39, 30, 21] virt cr3" "pt_wf T' s'"
      using leaf_write_wf [OF leaf(3,2) pt_index_less] leaf_small_path [of s'] leaf(5)
        leaf_table_write [OF leaf(3,2) pt_index_less, of cr3 "[39, 30, 21]"] leaf(4)
      by (auto simp: s'(2) simp del: leaf_table.simps small_path.simps)
    have "fst (vmm_translate_in cr3 virt s') = phys AND PTE_ADDR_MASK"
      using vmm_translate_in_entry(1) [OF sm(2) leaf(4) sm(1)] E(1) [OF u e(1)] e(2) False by simp
    with E(1) [OF u e(1)] E(3) [OF u] leaf(7) s'(1) show ?thesis by simp
  qed
qed


theorem vmm_map_page_in_correct_witness:
  "\<exists>s'. vmm_map_page_in 0x100000 0x400000 0x5000 3 vmm_example = (0, s') \<and>
     fst (vmm_translate_in 0x100000 0x400000 s') = 0x5000"
proof -
  obtain r s' where m: "vmm_map_page_in 0x100000 0x400000 0x5000 3 vmm_example = (r, s')"
    by (cases "vmm_map_page_in 0x100000 0x400000 0x5000 3 vmm_example")
  from vmm_map_page_in_correct [OF vmm_example_wf(1,2) _ vmm_example_wf(3) _ m] vmm_example_state(5) m
  show ?thesis by (auto simp: PTE_ADDR_MASK_def)
qed

text \<open>C8: \<open>vmm_unmap_page_in\<close> removes the mapping of its page and no other, and it changes nothing
  when no table leads to the page.\<close>

theorem vmm_unmap_page_in_correct:
  assumes wf: "pt_wf T s" "unshared T s" "T cr3 = Some 4" and small: "small_path s [39, 30, 21] virt cr3"
  shows "page_entry (vmm_unmap_page_in cr3 virt s) cr3 virt = None \<and>
    (\<forall>v. \<not> same_page v virt \<longrightarrow> page_entry (vmm_unmap_page_in cr3 virt s) cr3 v = page_entry s cr3 v) \<and>
    (leaf_table s [39, 30, 21] virt cr3 = None \<longrightarrow> vmm_unmap_page_in cr3 virt s = s)"
proof -
  obtain q s1 where w: "walk_pt cr3 virt False False s = (q, s1)" by (cases "walk_pt cr3 virt False False s")
  show ?thesis using wf(1,3) small w
  proof (cases rule: walk_pt_outcome)
    case stop
    then show ?thesis by (simp add: vmm_unmap_page_in_def w)
  next
    case (leaf T' p)
    have u: "unshared T' s1" using leaf(6) wf(2) by simp
    have eq: "vmm_unmap_page_in cr3 virt s = pt_write (pt_cell s1 p (pt_index 12 virt)) 0 s1"
      by (simp add: vmm_unmap_page_in_def w leaf(1))
    have "leaf_table s [39, 30, 21] virt cr3 = Some p" using leaf(8) by blast
    with page_entry_write(2,3) [OF leaf(3) u leaf(4,5), where e = 0] leaf(7) show ?thesis
      by (simp add: eq del: leaf_table.simps)
  qed
qed

theorem vmm_unmap_page_in_correct_witness:
  "vmm_unmap_page_in 0x100000 0x400000 vmm_example = vmm_example"
  using vmm_unmap_page_in_correct [OF vmm_example_wf(1,2) _ vmm_example_wf(3), where virt = "0x400000"]
  by (simp add: vmm_example_state)

text \<open>C9: \<open>vmm_space_clone\<close> builds an address space with an empty user half whose kernel half has the
  entries of the root tables, and changes no table entry outside the new PML4.\<close>

theorem vmm_space_clone_correct:
  assumes inv: "pmm_inv s" and root: "g_root_cr3 s AND 0xFFF = 0" "g_root_cr3 s \<notin> free_addrs s"
    and c: "vmm_space_clone s = (p, s')" and p: "p \<noteq> 0"
  shows "(\<forall>i<256. pt_mem s' (pt_cell s p i) = 0) \<and>
    (\<forall>i. 256 \<le> i \<and> i < 512 \<longrightarrow> pt_mem s' (pt_cell s p i) = pt_mem s (pt_cell s (g_root_cr3 s) i)) \<and>
    (\<forall>q i. q AND 0xFFF = 0 \<and> q \<noteq> p \<and> i < 512 \<longrightarrow> pt_mem s' (pt_cell s q i) = pt_mem s (pt_cell s q i)) \<and>
    p \<in> free_addrs s \<and> free_addrs s' = free_addrs s - {p}"
proof -
  obtain s1 where a: "pmm_alloc_frame s = (p, s1)"
    using c p by (auto simp: vmm_space_clone_def Let_def split: prod.splits if_splits)
  note V = pmm_alloc_frame_vmm [of s, unfolded a snd_conv]
  define s2 where "s2 = pt_zero_page p s1"
  let ?r = "g_root_cr3 s"
  have pf: "p \<in> free_addrs s" "p AND 0xFFF = 0"
    using pmm.alloc_mem [OF inv] pmm.alloc_zero_iff [OF inv] pmm.alloc_page [OF inv] a p by auto
  have ne: "?r \<noteq> p" using root(2) pf(1) by auto
  have s': "s' = fold (\<lambda>i s. pt_write (pt_cell s p i) (pt_mem s (pt_cell s (g_root_cr3 s) i)) s) [256..<512] s2"
    using c p a by (simp add: vmm_space_clone_def s2_def)
  have fields: "g_root_cr3 s2 = ?r" "pt_cell s2 = pt_cell s" "free_addrs s2 = free_addrs s - {p}"
    using pmm.alloc_frames [OF inv] by (simp_all add: s2_def V a)
  have s'2: "s' = fold (\<lambda>i. pt_write (pt_cell s p i) (pt_mem s2 (pt_cell s ?r i))) [256..<512] s2"
    unfolding s' by (rule clone_loop [OF root(1) pf(2) ne fields(1,2)]) auto
  have mem2: "pt_mem s2 (pt_cell s q i) = pt_mem s (pt_cell s q i)" if "q AND 0xFFF = 0" "q \<noteq> p" "i < 512" for q i
  proof -
    have "pt_cell s q i \<noteq> pt_cell s p j" if "j < 512" for j
      using that \<open>q AND 0xFFF = 0\<close> \<open>q \<noteq> p\<close> \<open>i < 512\<close> pf(2) by (simp add: pt_cell_eq_iff)
    then show ?thesis using pt_zero_page_mem(2) [OF pf(2), of "pt_cell s q i" s1] by (simp add: s2_def V)
  qed
  have "pt_mem s' (pt_cell s p i) = 0" if "i < 256" for i
    using that pt_zero_page_mem(1) [OF pf(2), of i s1] pf(2) unfolding s'2
    by (subst fold_pt_write_out) (auto simp: pt_cell_eq_iff s2_def V)
  moreover have "pt_mem s' (pt_cell s p i) = pt_mem s (pt_cell s ?r i)" if "256 \<le> i" "i < 512" for i
    unfolding s'2 using that inj_pt_cell [OF pf(2), of s 256] mem2 [OF root(1) ne that(2)]
    by (subst fold_pt_write_in) auto
  moreover have "pt_mem s' (pt_cell s q i) = pt_mem s (pt_cell s q i)" if "q AND 0xFFF = 0" "q \<noteq> p" "i < 512" for q i
    using that mem2 [OF that] pf(2) unfolding s'2 by (subst fold_pt_write_out) (auto simp: pt_cell_eq_iff)
  moreover have "free_addrs s' = free_addrs s - {p}" by (simp add: s'2 fields(3))
  ultimately show ?thesis using pf(1) by simp
qed

theorem vmm_space_clone_correct_witness:
  "\<exists>p s'. vmm_space_clone vmm_example = (p, s') \<and> p \<noteq> 0 \<and> (\<forall>i<256. pt_mem s' (pt_cell vmm_example p i) = 0)"
proof -
  obtain p s' where c: "vmm_space_clone vmm_example = (p, s')" by (cases "vmm_space_clone vmm_example")
  have "fst (pmm_alloc_frame vmm_example) \<noteq> 0"
    using pmm.alloc_zero_iff [OF vmm_example_state(4)] vmm_example_state(5) by auto
  with c have "p \<noteq> 0" by (auto simp: vmm_space_clone_def Let_def split: prod.splits if_splits)
  with vmm_space_clone_correct [OF vmm_example_state(4) _ _ c] c show ?thesis
    by (auto simp: vmm_example_state)
qed

text \<open>C10: splitting a large page leaves the size bit of the split entry set: the entry still describes
  a large page (now at the address of the new table), so the processor does not use the new table
  and the next walk splits the entry once more.\<close>

theorem split_large_keeps_size_bit:
  assumes wf: "pt_wf T s" "T p = Some l" "i < 512" and large: "bit (pt_mem s (pt_cell s p i)) 7"
    and free: "free_addrs s \<noteq> {}"
  shows "\<exists>s'. split_large (pt_cell s p i) stride extra s = (Some True, s') \<and> bit (pt_mem s' (pt_cell s' p i)) 7"
proof -
  have inv: "pmm_inv s" using wf by (simp add: pt_wf_def)
  obtain q s1 where a: "pmm_alloc_frame s = (q, s1)" by (cases "pmm_alloc_frame s")
  have q: "q \<in> free_addrs s" "q \<noteq> 0" using pmm.alloc_mem [OF inv free] pmm.alloc_zero_iff [OF inv] a free by auto
  note V = pmm_alloc_frame_vmm [of s, unfolded a snd_conv]
  have d: "pt_cell s p i \<noteq> pt_cell s q j" if "j < 512" for j
    using pt_page_disjoint [OF wf(1) q(1) wf(2,3) that] .
  have q0: "q AND 0xFFF = 0" using pmm.alloc_page [OF inv] a by simp
  have z: "pt_mem (pt_zero_page q s1) (pt_cell s p i) = pt_mem s (pt_cell s p i)"
    using pt_zero_page_mem(2) [OF q0, of "pt_cell s p i" s1] d by (simp add: V)
  have f: "pt_mem (fold (\<lambda>j. pt_write (pt_cell s q j) (g j)) [0..<512] (pt_zero_page q s1)) (pt_cell s p i) =
      pt_mem s (pt_cell s p i)" for g
    using d by (subst fold_pt_write_out) (auto simp: z)
  have nl: "\<not> pt_mem s (pt_cell s p i) AND push_bit 7 1 = 0" using large by (simp only: bit_flag_iff) simp
  have b: "bit (q OR (e AND 0xFFF)) 7" if "bit e 7" for e :: u64
    using that by (simp only: low12_mask bit_or_iff bit_and_iff bit_mask_iff) simp
  show ?thesis unfolding split_large_def if_not_P [OF nl]
    using b [OF large] by (simp add: a q(2) Let_def f V del: One_nat_def)
qed

definition vmm_large_example :: vmm where
  "vmm_large_example = pt_write (pt_cell vmm_example 0x100000 0) 0x83 vmm_example"

theorem split_large_keeps_size_bit_witness:
  "\<exists>s'. split_large (pt_cell vmm_large_example 0x100000 0) 0x200000 0x80 vmm_large_example = (Some True, s') \<and>
     bit (pt_mem s' (pt_cell s' 0x100000 0)) 7"
proof (rule split_large_keeps_size_bit [where T = "[0x100000 \<mapsto> 3]" and l = 3])
  have "bit (0x83 :: u64) 7" by simp
  then show "bit (pt_mem vmm_large_example (pt_cell vmm_large_example 0x100000 0)) 7"
    by (simp add: vmm_large_example_def)
  have "pt_cell vmm_example 0x100000 i = pt_cell vmm_example 0x100000 0 \<longleftrightarrow> i = 0" if "i < 512" for i
    using that by (simp add: pt_cell_eq_iff)
  then show "pt_wf [0x100000 \<mapsto> 3] vmm_large_example"
    using vmm_example_state by (auto simp: pt_wf_def vmm_large_example_def PTE_ADDR_MASK_def split: if_splits)
  show "free_addrs vmm_large_example \<noteq> {}" using vmm_example_state(5) by (auto simp: vmm_large_example_def)
qed simp_all

end
