(* ===== verification/Kmalloc.thy ===== *)
theory Kmalloc
  imports Vmm
begin

text \<open>
  The kernel heap, \<open>kernel/mm/kmalloc.c\<close>: a first-fit free list over an arena that grows by mapping
  frames of the physical memory manager. The record \<open>heap\<close> adds the words of the arena (\<open>hmem\<close>, by
  virtual address: a block header at \<open>b\<close> has its size at \<open>b\<close>, its page count at \<open>b + 8\<close> and its
  free-list link at \<open>b + 16\<close>), the bytes of the payloads (\<open>kbytes\<close>) and the static variables of the
  file. The list walks may not end on a cyclic list, so they are partial functions with \<open>None\<close> for
  not returning; on a well-formed heap they return.
\<close>

section \<open>State and operations\<close>

definition ALIGN :: u64 where "ALIGN = 16"
definition HEADER_SIZE :: u64 where "HEADER_SIZE = 24"
definition VMM_KHEAP_BASE :: u64 where "VMM_KHEAP_BASE = 0xffffffff81000000"
definition VMM_KHEAP_SIZE :: u64 where "VMM_KHEAP_SIZE = 64 * 1024 * 1024"

record heap = vmm +
  hmem :: "u64 \<Rightarrow> u64"
  kbytes :: "u64 \<Rightarrow> u8"
  g_free :: u64
  g_arena_next :: u64
  g_arena_bytes :: u64

text \<open>The fields of \<open>struct block\<close>.\<close>

definition b_size :: "'a heap_scheme \<Rightarrow> u64 \<Rightarrow> u64" where "b_size s b = hmem s b"
definition b_pages :: "'a heap_scheme \<Rightarrow> u64 \<Rightarrow> u64" where "b_pages s b = hmem s (b + 8)"
definition b_next :: "'a heap_scheme \<Rightarrow> u64 \<Rightarrow> u64" where "b_next s b = hmem s (b + 16)"

definition set_size :: "u64 \<Rightarrow> u64 \<Rightarrow> 'a heap_scheme \<Rightarrow> 'a heap_scheme" where
  "set_size b v s = s\<lparr>hmem := (hmem s)(b := v)\<rparr>"
definition set_pages :: "u64 \<Rightarrow> u64 \<Rightarrow> 'a heap_scheme \<Rightarrow> 'a heap_scheme" where
  "set_pages b v s = s\<lparr>hmem := (hmem s)(b + 8 := v)\<rparr>"
definition set_next :: "u64 \<Rightarrow> u64 \<Rightarrow> 'a heap_scheme \<Rightarrow> 'a heap_scheme" where
  "set_next b v s = s\<lparr>hmem := (hmem s)(b + 16 := v)\<rparr>"

definition align_up :: "u64 \<Rightarrow> u64" where
  "align_up n = (n + ALIGN - 1) AND NOT (ALIGN - 1)"

definition kmalloc_init :: "'a heap_scheme \<Rightarrow> 'a heap_scheme" where
  "kmalloc_init s =
     vmm_reserve_tables VMM_KHEAP_BASE VMM_KHEAP_SIZE
       (s\<lparr>g_free := NULL, g_arena_next := VMM_KHEAP_BASE, g_arena_bytes := 0\<rparr>)"

definition heap_grow_page :: "'a heap_scheme \<Rightarrow> 'a heap_scheme" where
  "heap_grow_page s =
     (let (phys, s) = pmm_alloc_frame s
      in if phys = 0 then s
         else let s = snd (vmm_map_page (g_arena_next s) phys VMM_WRITE s);
                  b = g_arena_next s;
                  s = set_size b (4096 - HEADER_SIZE) s;
                  s = set_next b (g_free s) s;
                  s = s\<lparr>g_free := b\<rparr>
              in s\<lparr>g_arena_next := g_arena_next s + 4096, g_arena_bytes := g_arena_bytes s + 4096\<rparr>)"

function heap_grow :: "u64 \<Rightarrow> 'a heap_scheme \<Rightarrow> 'a heap_scheme" where
  "heap_grow payload s =
     (if payload > 0
      then heap_grow (payload - (if payload > 4096 then 4096 else payload)) (heap_grow_page s)
      else s)"
  by pat_completeness auto

termination
proof (relation "measure (\<lambda>(payload, s). unat payload)")
  fix payload :: u64 and s :: "'a heap_scheme"
  assume "payload > 0"
  then show "((payload - (if payload > 4096 then 4096 else payload), heap_grow_page s), payload, s) \<in>
      measure (\<lambda>(payload, s). unat payload)"
    by (auto simp: word_less_nat_alt unat_sub_if_size word_size)
qed simp

declare heap_grow.simps [simp del]

text \<open>The page loop of a large allocation: \<open>False\<close> when the frames run out.\<close>

fun map_arena_pages :: "nat list \<Rightarrow> 'a heap_scheme \<Rightarrow> bool \<times> 'a heap_scheme" where
  "map_arena_pages [] s = (True, s)"
| "map_arena_pages (i # is) s =
     (let (phys, s) = pmm_alloc_frame s
      in if phys = 0 then (False, s)
         else map_arena_pages is (snd (vmm_map_page (g_arena_next s + of_nat i * 4096) phys VMM_WRITE s)))"

definition kmalloc_large :: "u64 \<Rightarrow> 'a heap_scheme \<Rightarrow> u64 \<times> 'a heap_scheme" where
  "kmalloc_large sz s =
     (let pages = (sz + HEADER_SIZE + 4096 - 1) div 4096;
          b = g_arena_next s;
          (ok, s) = map_arena_pages [0..<unat pages] s
      in if \<not> ok then (NULL, s)
         else let s = set_next b NULL (set_pages b pages (set_size b sz s))
              in (b + HEADER_SIZE,
                  s\<lparr>g_arena_next := g_arena_next s + pages * 4096, g_arena_bytes := g_arena_bytes s + pages * 4096\<rparr>))"

text \<open>\<open>struct block **link\<close>: the address of the list head or of a block's \<open>next\<close> field.\<close>

datatype link = LFree | LNext u64

fun deref :: "'a heap_scheme \<Rightarrow> link \<Rightarrow> u64" where
  "deref s LFree = g_free s"
| "deref s (LNext b) = b_next s b"

fun assign :: "link \<Rightarrow> u64 \<Rightarrow> 'a heap_scheme \<Rightarrow> 'a heap_scheme" where
  "assign LFree v s = s\<lparr>g_free := v\<rparr>"
| "assign (LNext b) v s = set_next b v s"

text \<open>The search loop of \<open>kmalloc\<close>: the link to the first block that is large enough,
  \<open>Some None\<close> when there is none.\<close>

partial_function (option) fit_link :: "u64 \<Rightarrow> link \<Rightarrow> 'a heap_scheme \<Rightarrow> link option option" where
  "fit_link sz link s =
     (if deref s link = NULL then Some None
      else if b_size s (deref s link) \<ge> sz then Some (Some link)
      else fit_link sz (LNext (deref s link)) s)"

definition take_block :: "u64 \<Rightarrow> link \<Rightarrow> 'a heap_scheme \<Rightarrow> u64 \<times> 'a heap_scheme" where
  "take_block sz link s =
     (let b = deref s link
      in if b_size s b \<ge> sz + HEADER_SIZE + ALIGN
         then let rest = b + HEADER_SIZE + sz;
                  s = set_size rest (b_size s b - sz - HEADER_SIZE) s;
                  s = set_next rest (b_next s b) s;
                  s = assign link rest s
              in (b + HEADER_SIZE, set_size b sz s)
         else (b + HEADER_SIZE, assign link (b_next s b) s))"

partial_function (option) kmalloc :: "u64 \<Rightarrow> 'a heap_scheme \<Rightarrow> (u64 \<times> 'a heap_scheme) option" where
  "kmalloc sz0 s =
     (let sz = align_up (if sz0 = 0 then ALIGN else sz0)
      in if sz > 4096 - HEADER_SIZE then Some (kmalloc_large sz s)
         else case fit_link sz LFree s of
           None \<Rightarrow> None
         | Some (Some link) \<Rightarrow> Some (take_block sz link s)
         | Some None \<Rightarrow>
             (let s' = heap_grow sz s
              in if g_arena_bytes s' = g_arena_bytes s then Some (NULL, s') else kmalloc sz s'))"

text \<open>The frame loop of \<open>kfree\<close> for a multi-page block.\<close>

definition kfree_pages :: "u64 \<Rightarrow> nat \<Rightarrow> 'a heap_scheme \<Rightarrow> 'a heap_scheme" where
  "kfree_pages virt pages s =
     fold (\<lambda>i s. let (phys, s) = vmm_translate (virt + of_nat i * 4096) s
                 in if phys \<noteq> 0 then pmm_free_frame phys (vmm_unmap_page (virt + of_nat i * 4096) s) else s)
       [0..<pages] s"

partial_function (option) insert_link :: "u64 \<Rightarrow> link \<Rightarrow> 'a heap_scheme \<Rightarrow> link option" where
  "insert_link b link s =
     (if deref s link \<noteq> NULL \<and> deref s link < b then insert_link b (LNext (deref s link)) s
      else Some link)"

text \<open>The search for the predecessor of \<open>b\<close> in the last part of \<open>kfree\<close>.\<close>

partial_function (option) find_prev :: "u64 \<Rightarrow> u64 \<Rightarrow> 'a heap_scheme \<Rightarrow> u64 option" where
  "find_prev b prev s = (if b_next s prev \<noteq> b then find_prev b (b_next s prev) s else Some prev)"

text \<open>The three steps of \<open>kfree\<close> on a small block: linking it in where the walk stopped, absorbing
  the next free block, and merging it into the previous one.\<close>

definition link_block :: "u64 \<Rightarrow> link \<Rightarrow> 'a heap_scheme \<Rightarrow> 'a heap_scheme" where
  "link_block b l s = assign l b (set_next b (deref s l) s)"

definition absorb_next :: "u64 \<Rightarrow> 'a heap_scheme \<Rightarrow> 'a heap_scheme" where
  "absorb_next b s =
     (if b_next s b \<noteq> NULL \<and> b + HEADER_SIZE + b_size s b = b_next s b
      then let s = set_size b (b_size s b + (HEADER_SIZE + b_size s (b_next s b))) s
           in set_next b (b_next s (b_next s b)) s
      else s)"

definition merge_prev :: "u64 \<Rightarrow> 'a heap_scheme \<Rightarrow> 'a heap_scheme option" where
  "merge_prev b s =
     (case find_prev b (g_free s) s of
        None \<Rightarrow> None
      | Some prev \<Rightarrow>
          Some (if prev + HEADER_SIZE + b_size s prev = b
                then let s = set_size prev (b_size s prev + (HEADER_SIZE + b_size s b)) s
                     in set_next prev (b_next s b) s
                else s))"

definition kfree :: "u64 \<Rightarrow> 'a heap_scheme \<Rightarrow> 'a heap_scheme option" where
  "kfree ptr s =
     (if ptr = NULL then Some s
      else let b = ptr - HEADER_SIZE
      in if b_pages s b > 0 then Some (kfree_pages b (unat (b_pages s b)) s)
         else case insert_link b LFree s of
           None \<Rightarrow> None
         | Some link \<Rightarrow>
             (let s = absorb_next b (link_block b link s)
              in if deref s link \<noteq> b then merge_prev b s else Some s))"

definition copy_bytes :: "u64 \<Rightarrow> u64 \<Rightarrow> nat \<Rightarrow> 'a heap_scheme \<Rightarrow> 'a heap_scheme" where
  "copy_bytes dst src n s =
     fold (\<lambda>i s. s\<lparr>kbytes := (kbytes s)(dst + of_nat i := kbytes s (src + of_nat i))\<rparr>) [0..<n] s"

definition krealloc :: "u64 \<Rightarrow> u64 \<Rightarrow> 'a heap_scheme \<Rightarrow> (u64 \<times> 'a heap_scheme) option" where
  "krealloc ptr sz0 s =
     (if ptr = NULL then kmalloc sz0 s
      else let b = ptr - HEADER_SIZE;
               sz = align_up sz0
           in if sz \<le> b_size s b then Some (ptr, s)
              else case kmalloc sz s of
                None \<Rightarrow> None
              | Some (fresh, s) \<Rightarrow>
                  (if fresh = NULL then Some (NULL, s)
                   else map_option (Pair fresh) (kfree ptr (copy_bytes fresh ptr (unat (b_size s b)) s))))"

definition kmalloc_arena_bytes :: "'a heap_scheme \<Rightarrow> u64" where
  "kmalloc_arena_bytes s = g_arena_bytes s"

section \<open>Heap invariant\<close>

text \<open>The free list as a list of block addresses, and the link in front of a position of it.\<close>

fun chain :: "'a heap_scheme \<Rightarrow> u64 \<Rightarrow> u64 list \<Rightarrow> bool" where
  "chain s p [] = (p = NULL)"
| "chain s p (b # bs) = (p = b \<and> b \<noteq> NULL \<and> chain s (b_next s b) bs)"

definition link_of :: "link \<Rightarrow> u64 list \<Rightarrow> link" where
  "link_of l xs = (if xs = [] then l else LNext (last xs))"

definition extent :: "'a heap_scheme \<Rightarrow> u64 \<Rightarrow> nat set" where
  "extent s b = {unat b..<unat b + 24 + unat (b_size s b)}"

definition block_ok :: "'a heap_scheme \<Rightarrow> u64 \<Rightarrow> bool" where
  "block_ok s b \<longleftrightarrow> unat VMM_KHEAP_BASE \<le> unat b \<and> 8 dvd unat b \<and> 8 dvd unat (b_size s b) \<and>
     unat b + 24 + unat (b_size s b) \<le> unat (g_arena_next s)"

definition blocks_ok :: "'a heap_scheme \<Rightarrow> u64 set \<Rightarrow> bool" where
  "blocks_ok s B \<longleftrightarrow> (\<forall>b\<in>B. block_ok s b) \<and> pairwise (\<lambda>b c. extent s b \<inter> extent s c = {}) B"

text \<open>\<open>L\<close> are the live blocks, by header address: free and live blocks lie in the arena and
  do not overlap.\<close>

definition heap_rep :: "u64 list \<Rightarrow> u64 set \<Rightarrow> 'a heap_scheme \<Rightarrow> bool" where
  "heap_rep bs L s \<longleftrightarrow> chain s (g_free s) bs \<and> distinct bs \<and> set bs \<inter> L = {} \<and> blocks_ok s (set bs \<union> L) \<and>
     4096 dvd unat (g_arena_next s) \<and> unat VMM_KHEAP_BASE \<le> unat (g_arena_next s)"

definition heap_inv :: "u64 set \<Rightarrow> 'a heap_scheme \<Rightarrow> bool" where
  "heap_inv L s \<longleftrightarrow> (\<exists>bs. heap_rep bs L s)"

lemma block_ok_pos: "block_ok s b \<Longrightarrow> b \<noteq> NULL"
  by (auto simp: block_ok_def VMM_KHEAP_BASE_def)

lemma unat_lt_64: "unat w < 18446744073709551616" for w :: u64
proof -
  have "unat w < 2 ^ 64" using unsigned_less [of w] by simp
  then show ?thesis by simp
qed

lemma unat_add_small: "unat b + k < 2 ^ 64 \<Longrightarrow> unat (b + of_nat k) = unat b + k" for b :: u64
  by (simp add: unat_word_ariths unat_of_nat)

lemma block_cells:
  assumes "block_ok s b"
  shows "unat (b + 8) = unat b + 8" "unat (b + 16) = unat b + 16"
proof -
  have "unat b + 24 < 2 ^ 64" using assms unat_lt_64 [of "g_arena_next s"] by (simp add: block_ok_def)
  then show "unat (b + 8) = unat b + 8" "unat (b + 16) = unat b + 16"
    using unat_add_small [of b 8] unat_add_small [of b 16] by simp_all
qed

text \<open>Header words of different blocks are different words.\<close>

lemma header_disjoint:
  assumes "blocks_ok s B" "b \<in> B" "c \<in> B" "b \<noteq> c"
  shows "b + 16 \<noteq> c" "b + 16 \<noteq> c + 16" "b \<noteq> c + 16"
proof -
  have ok: "block_ok s b" "block_ok s c" and d: "extent s b \<inter> extent s c = {}"
    using assms by (auto simp: blocks_ok_def pairwise_def)
  have no: "x \<in> extent s b \<Longrightarrow> x \<in> extent s c \<Longrightarrow> False" for x using d by auto
  have m: "unat (b + 16) \<in> extent s b" "unat b \<in> extent s b" "unat (c + 16) \<in> extent s c" "unat c \<in> extent s c"
    by (simp_all add: extent_def block_cells [OF ok(1)] block_cells [OF ok(2)])
  show "b + 16 \<noteq> c"
  proof
    assume "b + 16 = c"
    with m(1,4) no show False by metis
  qed
  show "b \<noteq> c + 16"
  proof
    assume "b = c + 16"
    with m(2,3) no show False by metis
  qed
  show "b + 16 \<noteq> c + 16" using assms(4) by simp
qed

lemma block_fields_simps [simp]:
  "b_size (set_size b v s) c = (if c = b then v else b_size s c)"
  "b_next (set_next b v s) c = (if c = b then v else b_next s c)"
  "g_free (set_size b v s) = g_free s" "g_free (set_next b v s) = g_free s"
  "g_arena_next (set_size b v s) = g_arena_next s" "g_arena_next (set_next b v s) = g_arena_next s"
  "g_arena_bytes (set_size b v s) = g_arena_bytes s" "g_arena_bytes (set_next b v s) = g_arena_bytes s"
  by (auto simp: b_size_def set_size_def b_next_def set_next_def)

lemma b_next_set_size: "c + 16 \<noteq> b \<Longrightarrow> b_next (set_size b v s) c = b_next s c"
  and b_size_set_next: "c \<noteq> b + 16 \<Longrightarrow> b_size (set_next b v s) c = b_size s c"
  by (auto simp: b_size_def set_size_def b_next_def set_next_def)

lemma block_fields_upd [simp]:
  "b_size (s\<lparr>g_free := p\<rparr>) = b_size s" "b_next (s\<lparr>g_free := p\<rparr>) = b_next s"
  "b_size (s\<lparr>g_arena_next := p\<rparr>) = b_size s" "b_next (s\<lparr>g_arena_next := p\<rparr>) = b_next s"
  "b_size (s\<lparr>g_arena_bytes := p\<rparr>) = b_size s" "b_next (s\<lparr>g_arena_bytes := p\<rparr>) = b_next s"
  by (simp_all add: b_size_def b_next_def fun_eq_iff)

lemma chain_cong: "(\<And>b. b \<in> set bs \<Longrightarrow> b_next s b = b_next t b) \<Longrightarrow> chain s p bs = chain t p bs"
  by (induction bs arbitrary: p) auto

lemma fit_link_chain:
  assumes "chain s (deref s l) bs"
  shows "(\<forall>b\<in>set bs. b_size s b < sz) \<and> fit_link sz l s = Some None \<or>
    (\<exists>xs b ys. bs = xs @ b # ys \<and> (\<forall>x\<in>set xs. b_size s x < sz) \<and> sz \<le> b_size s b \<and>
       fit_link sz l s = Some (Some (link_of l xs)))"
  using assms
proof (induction bs arbitrary: l)
  case Nil
  then show ?case by (simp add: fit_link.simps)
next
  case (Cons b bs)
  then have b: "deref s l = b" "b \<noteq> NULL" and ch: "chain s (deref s (LNext b)) bs" by auto
  show ?case
  proof (cases "sz \<le> b_size s b")
    case True
    then have "fit_link sz l s = Some (Some (link_of l []))"
      using b by (subst fit_link.simps) (simp add: link_of_def)
    with True show ?thesis by (intro disjI2 exI [of _ "[]"] exI [of _ b] exI [of _ bs]) simp
  next
    case False
    then have step: "fit_link sz l s = fit_link sz (LNext b) s"
      using b by (subst fit_link.simps) simp
    from Cons.IH [OF ch] show ?thesis
    proof (elim disjE exE conjE)
      fix xs c ys
      assume a: "bs = xs @ c # ys" "\<forall>x\<in>set xs. b_size s x < sz" "sz \<le> b_size s c"
        "fit_link sz (LNext b) s = Some (Some (link_of (LNext b) xs))"
      then show ?thesis using False step
        by (intro disjI2 exI [of _ "b # xs"] exI [of _ c] exI [of _ ys]) (auto simp: link_of_def)
    qed (use False step in auto)
  qed
qed

lemma chain_link: "chain s (deref s l) (xs @ ys) \<Longrightarrow> chain s (deref s (link_of l xs)) ys"
proof (induction xs arbitrary: l)
  case (Cons x xs)
  then have "chain s (deref s (LNext x)) (xs @ ys)" by auto
  from Cons.IH [OF this] show ?case by (auto simp: link_of_def split: if_splits)
qed (simp add: link_of_def)

lemma chain_set_next:
  assumes "chain s p (xs @ x # ys)" "distinct (xs @ [x])" "chain s v zs" "x \<notin> set zs"
  shows "chain (set_next x v s) p (xs @ x # zs)"
  using assms
proof (induction xs arbitrary: p)
  case Nil
  have "chain (set_next x v s) v zs = chain s v zs" using Nil.prems(4) by (intro chain_cong) auto
  with Nil show ?case by simp
qed auto

lemma chain_assign:
  assumes "chain s (g_free s) (xs @ ys)" "distinct xs" "chain s v zs" "set xs \<inter> set zs = {}"
  shows "chain (assign (link_of LFree xs) v s) (g_free (assign (link_of LFree xs) v s)) (xs @ zs)"
proof (cases xs rule: rev_cases)
  case Nil
  have "chain (s\<lparr>g_free := v\<rparr>) v zs = chain s v zs" by (intro chain_cong) simp
  with Nil assms show ?thesis by (simp add: link_of_def)
next
  case (snoc us u)
  with assms show ?thesis using chain_set_next [of s "g_free s" us u ys v zs] by (simp add: link_of_def)
qed

lemma assign_sizes:
  assumes "blocks_ok s B" "set xs \<subseteq> B" "c \<in> B"
  shows "b_size (assign (link_of LFree xs) v s) c = b_size s c"
proof (cases xs rule: rev_cases)
  case (snoc us u)
  with assms have "c \<noteq> u + 16" using header_disjoint(3) [of s B c u] by (cases "c = u") auto
  with snoc show ?thesis by (simp add: link_of_def b_size_set_next)
qed (simp add: link_of_def)

lemma assign_fields [simp]:
  "g_arena_next (assign l v s) = g_arena_next s" "g_arena_bytes (assign l v s) = g_arena_bytes s"
  by (cases l; simp)+

lemma extent_cong: "b_size s b = b_size t b \<Longrightarrow> extent s b = extent t b"
  by (simp add: extent_def)

lemma block_ok_cong: "b_size s b = b_size t b \<Longrightarrow> g_arena_next s = g_arena_next t \<Longrightarrow> block_ok s b = block_ok t b"
  by (simp add: block_ok_def)

lemma blocks_ok_cong:
  assumes "\<And>b. b \<in> B \<Longrightarrow> b_size s b = b_size t b" "g_arena_next s = g_arena_next t"
  shows "blocks_ok s B = blocks_ok t B"
proof -
  have "block_ok s b = block_ok t b" "extent s b = extent t b" if "b \<in> B" for b
    using block_ok_cong extent_cong assms that by blast+
  then show ?thesis by (simp add: blocks_ok_def pairwise_def)
qed

lemma blocks_ok_mono: "blocks_ok s B \<Longrightarrow> C \<subseteq> B \<Longrightarrow> blocks_ok s C"
  unfolding blocks_ok_def by (elim conjE, intro conjI ballI) (simp add: subset_iff, erule pairwise_subset)

lemma blocks_ok_insert:
  "blocks_ok s (insert b B) \<longleftrightarrow>
     block_ok s b \<and> blocks_ok s B \<and> (\<forall>c\<in>B. c \<noteq> b \<longrightarrow> extent s c \<inter> extent s b = {})"
proof -
  have "pairwise (\<lambda>x y. extent s x \<inter> extent s y = {}) (insert b B) \<longleftrightarrow>
      (\<forall>c\<in>B. c \<noteq> b \<longrightarrow> extent s c \<inter> extent s b = {}) \<and> pairwise (\<lambda>x y. extent s x \<inter> extent s y = {}) B"
    by (simp add: pairwise_insert Ball_def Int_commute conj_commute imp_conjL)
  then show ?thesis by (simp add: blocks_ok_def conj_ac)
qed

lemma blocks_okD:
  assumes "blocks_ok s B" "b \<in> B"
  shows "block_ok s b" and "c \<in> B \<Longrightarrow> b \<noteq> c \<Longrightarrow> extent s b \<inter> extent s c = {}"
  using assms by (simp_all add: blocks_ok_def pairwise_def)

text \<open>Addresses inside a block behind its header are no header words of any block.\<close>

lemma inner_cells:
  assumes ok: "blocks_ok s B" "b \<in> B" "c \<in> B" and r: "unat r \<in> extent s b" "unat b + 24 \<le> unat r"
  shows "c \<noteq> r" "c + 16 \<noteq> r"
proof -
  have bo: "block_ok s c" and d: "b \<noteq> c \<Longrightarrow> extent s b \<inter> extent s c = {}"
    using blocks_okD(1) [OF ok(1,3)] blocks_okD(2) [OF ok(1,2,3)] by simp_all
  have m: "unat c \<in> extent s c" "unat (c + 16) \<in> extent s c" by (simp_all add: extent_def block_cells [OF bo])
  show "c \<noteq> r"
  proof
    assume "c = r"
    with d r m(1) show False by (cases "b = c") auto
  qed
  show "c + 16 \<noteq> r"
  proof
    assume e: "c + 16 = r"
    show False
    proof (cases "b = c")
      case True
      with e r(2) block_cells [OF bo] show False by simp
    next
      case False
      with d e r(1) m(2) show False by auto
    qed
  qed
qed

text \<open>The remainder of a split block: where it lies, and that its header words are new.\<close>

lemma rest_geometry:
  assumes ok: "blocks_ok s B" "b \<in> B"
    and sz: "sz + HEADER_SIZE + ALIGN \<le> b_size s b" "unat sz \<le> 4096"
  defines "rest \<equiv> b + HEADER_SIZE + sz"
  shows "unat rest = unat b + 24 + unat sz"
    and "unat sz + 40 \<le> unat (b_size s b)"
    and "unat (b_size s b - sz - HEADER_SIZE) = unat (b_size s b) - unat sz - 24"
    and "c \<in> B \<Longrightarrow> c \<noteq> rest \<and> c + 16 \<noteq> rest \<and> c \<noteq> rest + 16"
    and "rest \<noteq> NULL"
proof -
  have "unat (sz + HEADER_SIZE + ALIGN) = unat sz + 40" using sz(2)
    by (simp add: HEADER_SIZE_def ALIGN_def unat_word_ariths)
  with sz(1) show szb: "unat sz + 40 \<le> unat (b_size s b)" by (simp add: word_le_nat_alt)
  have lt: "unat b + 24 + unat (b_size s b) < 2 ^ 64"
    using blocks_okD(1) [OF ok] unat_lt_64 [of "g_arena_next s"] by (simp add: block_ok_def)
  show r: "unat rest = unat b + 24 + unat sz"
    using lt szb by (simp add: rest_def HEADER_SIZE_def unat_word_ariths)
  have r16: "unat (rest + 16) = unat b + 40 + unat sz"
    using lt szb r by (simp add: unat_word_ariths)
  have "unat rest \<in> extent s b" "unat b + 24 \<le> unat rest" "unat (rest + 16) \<in> extent s b" "unat b + 24 \<le> unat (rest + 16)"
    using szb r r16 by (auto simp: extent_def)
  then show "c \<in> B \<Longrightarrow> c \<noteq> rest \<and> c + 16 \<noteq> rest \<and> c \<noteq> rest + 16" using inner_cells [OF ok] by blast
  show "unat (b_size s b - sz - HEADER_SIZE) = unat (b_size s b) - unat sz - 24"
    using szb by (simp add: HEADER_SIZE_def unat_sub_if_size word_size)
  show "rest \<noteq> NULL"
  proof
    assume "rest = NULL"
    then have "unat rest = 0" by (simp only: unat_0)
    with r show False by simp
  qed
qed

text \<open>The four writes of a split, as one state, and what they leave of the other headers.\<close>

definition split_block :: "u64 \<Rightarrow> u64 \<Rightarrow> link \<Rightarrow> 'a heap_scheme \<Rightarrow> 'a heap_scheme" where
  "split_block sz b l s =
     (let rest = b + HEADER_SIZE + sz
      in set_size b sz (assign l rest
           (set_next rest (b_next s b) (set_size rest (b_size s b - sz - HEADER_SIZE) s))))"

lemma take_block_cases:
  assumes ok: "blocks_ok s B" "b \<in> B" and b: "deref s l = b" and sz: "unat sz \<le> 4096"
  shows "take_block sz l s = (b + HEADER_SIZE,
    if sz + HEADER_SIZE + ALIGN \<le> b_size s b then split_block sz b l s else assign l (b_next s b) s)"
proof (cases "sz + HEADER_SIZE + ALIGN \<le> b_size s b")
  case True
  have "b_next (set_size (b + HEADER_SIZE + sz) v s) b = b_next s b" for v
    using rest_geometry(4) [OF ok True sz ok(2)] by (simp add: b_next_set_size)
  then show ?thesis using True by (simp add: take_block_def b Let_def split_block_def)
qed (simp add: take_block_def b Let_def)

lemma split_block_fields:
  assumes ok: "blocks_ok s (set (xs @ b # ys) \<union> L)" and dist: "distinct (xs @ b # ys)" "set (xs @ b # ys) \<inter> L = {}"
    and sz: "sz + HEADER_SIZE + ALIGN \<le> b_size s b" "unat sz \<le> 4096"
  defines "rest \<equiv> b + HEADER_SIZE + sz" and "s' \<equiv> split_block sz b (link_of LFree xs) s"
  shows "b_size s' b = sz" "b_size s' rest = b_size s b - sz - HEADER_SIZE" "g_arena_next s' = g_arena_next s"
    and "c \<in> set (xs @ b # ys) \<union> L \<Longrightarrow> c \<noteq> b \<Longrightarrow> b_size s' c = b_size s c"
    and "chain s (g_free s) (xs @ b # ys) \<Longrightarrow> chain s' (g_free s') (xs @ rest # ys)"
proof -
  let ?B = "set (xs @ b # ys) \<union> L"
  have bB: "b \<in> ?B" and xsB: "set xs \<subseteq> ?B" by auto
  note geo = rest_geometry [OF ok bB sz, folded rest_def]
  define v where "v = b_size s b - sz - HEADER_SIZE"
  define s2 where "s2 = set_next rest (b_next s b) (set_size rest v s)"
  define s3 where "s3 = assign (link_of LFree xs) rest s2"
  have s': "s' = set_size b sz s3" by (simp add: s'_def split_block_def rest_def s2_def s3_def v_def Let_def)
  have n2: "b_next s2 c = b_next s c" and z2: "b_size s2 c = b_size s c" if "c \<in> ?B" for c
    using geo(4) [OF that] by (simp_all add: s2_def b_next_set_size b_size_set_next)
  have r2: "b_size s2 rest = v" "b_next s2 rest = b_next s b" by (simp_all add: s2_def b_size_set_next)
  have ok2: "blocks_ok s2 ?B" using ok z2 by (subst blocks_ok_cong [of _ s2 s]) (auto simp: s2_def)
  have z3: "b_size s3 c = b_size s c" if "c \<in> ?B" for c
    using assign_sizes [OF ok2 xsB that] z2 [OF that] by (simp add: s3_def)
  have zr3: "b_size s3 rest = v"
  proof (cases xs rule: rev_cases)
    case (snoc us u)
    then have "rest \<noteq> u + 16" using geo(4) [of u] by auto
    with snoc r2(1) show ?thesis by (simp add: s3_def link_of_def b_size_set_next)
  qed (simp add: s3_def link_of_def r2(1))
  show "b_size s' b = sz" by (simp add: s')
  show "b_size s' rest = b_size s b - sz - HEADER_SIZE" using geo(4) [OF bB] zr3 by (auto simp: s' v_def)
  show "g_arena_next s' = g_arena_next s" by (simp add: s' s3_def s2_def)
  show "c \<in> ?B \<Longrightarrow> c \<noteq> b \<Longrightarrow> b_size s' c = b_size s c" using z3 by (simp add: s')
  assume ch: "chain s (g_free s) (xs @ b # ys)"
  have "chain s2 q (xs @ b # ys) = chain s q (xs @ b # ys)" for q by (rule chain_cong) (rule n2, auto)
  with ch have ch2: "chain s2 (g_free s2) (xs @ b # ys)" by (simp add: s2_def)
  then have "chain s2 (deref s2 (LNext b)) ys" using chain_link [of s2 LFree "xs @ [b]" ys] by (simp add: link_of_def)
  then have "chain s2 rest (rest # ys)" using r2(2) n2 [OF bB] geo(5) by simp
  moreover have "rest \<notin> ?B" using geo(4) by blast
  ultimately have ch3: "chain s3 (g_free s3) (xs @ rest # ys)"
    using chain_assign [OF ch2, of rest "rest # ys"] dist by (simp add: s3_def)
  have "c + 16 \<noteq> b" if "c \<in> set (xs @ rest # ys)" for c
    using that header_disjoint(1) [OF ok _ bB, of c] geo(4) [OF bB] dist by auto
  then have "chain s' q (xs @ rest # ys) = chain s3 q (xs @ rest # ys)" for q
    by (intro chain_cong) (simp add: s' b_next_set_size)
  with ch3 show "chain s' (g_free s') (xs @ rest # ys)" by (simp add: s')
qed

lemma split_block_ok:
  assumes ok: "blocks_ok s (set (xs @ b # ys) \<union> L)" and dist: "distinct (xs @ b # ys)" "set (xs @ b # ys) \<inter> L = {}"
    and sz: "sz + HEADER_SIZE + ALIGN \<le> b_size s b" "unat sz \<le> 4096" "8 dvd unat sz"
  defines "rest \<equiv> b + HEADER_SIZE + sz" and "s' \<equiv> split_block sz b (link_of LFree xs) s"
  shows "blocks_ok s' (set (xs @ rest # ys) \<union> insert b L)"
proof -
  let ?B = "set (xs @ b # ys) \<union> L"
  have bB: "b \<in> ?B" by simp
  note geo = rest_geometry [OF ok bB sz(1,2), folded rest_def]
  note f = split_block_fields [OF ok dist sz(1,2), folded rest_def s'_def]
  have eb: "extent s' b = {unat b..<unat b + 24 + unat sz}" by (simp add: extent_def f)
  have er: "extent s' rest = {unat b + 24 + unat sz..<unat b + 24 + unat (b_size s b)}"
    using geo(1-3) by (auto simp: extent_def f)
  have out: "extent s' c \<inter> extent s b = {}" if "c \<in> ?B - {b}" for c
    using blocks_okD(2) [OF ok bB, of c] that f(4) [of c] by (auto simp: extent_def)
  have sub: "extent s' b \<subseteq> extent s b" "extent s' rest \<subseteq> extent s b" "extent s' b \<inter> extent s' rest = {}"
    using geo(2) unfolding eb er extent_def [of s b] by auto
  have new: "block_ok s' rest" "block_ok s' b"
    using blocks_okD(1) [OF ok bB] geo(1-3) sz(3) by (auto simp: block_ok_def f)
  have old: "blocks_ok s' (?B - {b})"
    using blocks_ok_mono [OF ok, of "?B - {b}"] f(3,4) by (subst blocks_ok_cong [of _ s' s]) auto
  have "blocks_ok s' (insert rest (insert b (?B - {b})))"
    unfolding blocks_ok_insert using new old out sub geo(4) by (auto simp: Int_commute)
  moreover have "set (xs @ rest # ys) \<union> insert b L = insert rest (insert b (?B - {b}))"
    using dist by auto
  ultimately show ?thesis by simp
qed

section \<open>Allocation\<close>

lemma take_block_rep:
  assumes rep: "heap_rep (xs @ b # ys) L s" and sz: "sz \<le> b_size s b" "unat sz \<le> 4096" "8 dvd unat sz"
    and t: "take_block sz (link_of LFree xs) s = (p, s')"
  shows "p = b + HEADER_SIZE" and "heap_inv (insert b L) s'" and "sz \<le> b_size s' b"
    and "\<forall>c\<in>L. b_size s' c = b_size s c"
proof -
  have ok: "blocks_ok s (set (xs @ b # ys) \<union> L)" and ch: "chain s (g_free s) (xs @ b # ys)"
    and dist: "distinct (xs @ b # ys)" "set (xs @ b # ys) \<inter> L = {}"
    and ar: "4096 dvd unat (g_arena_next s)" "unat VMM_KHEAP_BASE \<le> unat (g_arena_next s)"
    using rep by (simp_all add: heap_rep_def)
  have bB: "b \<in> set (xs @ b # ys) \<union> L" by simp
  have b: "deref s (link_of LFree xs) = b" using chain_link [of s LFree xs "b # ys"] ch by simp
  note cases = take_block_cases [OF ok bB b sz(2), unfolded t]
  show p: "p = b + HEADER_SIZE" using cases by simp
  have "heap_inv (insert b L) s' \<and> sz \<le> b_size s' b \<and> (\<forall>c\<in>L. b_size s' c = b_size s c)"
  proof (cases "sz + HEADER_SIZE + ALIGN \<le> b_size s b")
    case True
    then have s': "s' = split_block sz b (link_of LFree xs) s" using cases by simp
    note f = split_block_fields [OF ok dist True sz(2), folded s'] and g = split_block_ok [OF ok dist True sz(2,3), folded s']
    note geo = rest_geometry(4) [OF ok bB True sz(2)]
    have "b + HEADER_SIZE + sz \<notin> set (xs @ b # ys) \<union> L" using geo by blast
    then have "heap_rep (xs @ (b + HEADER_SIZE + sz) # ys) (insert b L) s'"
      using f(3,5) ch g dist ar by (auto simp: heap_rep_def)
    moreover have "b_size s' c = b_size s c" if "c \<in> L" for c using f(4) [of c] that dist by auto
    ultimately show ?thesis using f(1) by (auto simp: heap_inv_def)
  next
    case False
    then have s': "s' = assign (link_of LFree xs) (b_next s b) s" using cases by simp
    have z: "b_size s' c = b_size s c" if "c \<in> set (xs @ b # ys) \<union> L" for c
      unfolding s' by (rule assign_sizes [OF ok _ that]) auto
    have "chain s (b_next s b) ys" using chain_link [of s LFree "xs @ [b]" ys] ch by (simp add: link_of_def)
    from chain_assign [OF ch _ this] dist have "chain s' (g_free s') (xs @ ys)" by (auto simp: s')
    moreover have "blocks_ok s' (set (xs @ ys) \<union> insert b L)"
      using ok z by (subst blocks_ok_cong [of _ s' s]) (auto simp: s' insert_commute)
    ultimately have "heap_rep (xs @ ys) (insert b L) s'"
      using dist ar by (auto simp: heap_rep_def s')
    then show ?thesis using z sz(1) by (auto simp: heap_inv_def)
  qed
  then show "heap_inv (insert b L) s'" "sz \<le> b_size s' b" "\<forall>c\<in>L. b_size s' c = b_size s c" by auto
qed

lemma heap_fields_more:
  "vmm.more s = vmm.more t \<Longrightarrow> hmem s = hmem t \<and> kbytes s = kbytes t \<and> g_free s = g_free t \<and>
     g_arena_next s = g_arena_next t \<and> g_arena_bytes s = g_arena_bytes t \<and> heap.more s = heap.more t"
  by (cases s; cases t) simp

lemma heap_rep_fields:
  assumes h: "hmem s = hmem t" "g_free s = g_free t" "g_arena_next s = g_arena_next t"
  shows "b_size s = b_size t" "b_next s = b_next t" "b_pages s = b_pages t" "heap_rep bs L s = heap_rep bs L t"
    "heap_inv L s = heap_inv L t" "chain s = chain t"
proof -
  show f: "b_size s = b_size t" "b_next s = b_next t" "b_pages s = b_pages t"
    using h by (simp_all add: b_size_def b_next_def b_pages_def fun_eq_iff)
  have "chain s p bs = chain t p bs" for p bs by (rule chain_cong) (simp add: f)
  then show c: "chain s = chain t" by (simp add: fun_eq_iff)
  have "block_ok s = block_ok t" "extent s = extent t" using h f by (simp_all add: block_ok_def extent_def fun_eq_iff)
  then show r: "heap_rep bs L s = heap_rep bs L t" for bs using h by (simp add: heap_rep_def c blocks_ok_def)
  show "heap_inv L s = heap_inv L t" by (simp add: heap_inv_def r)
qed

lemma heap_rep_more:
  assumes "vmm.more s = vmm.more t"
  shows "b_size s = b_size t" "b_next s = b_next t" "b_pages s = b_pages t" "heap_rep bs L s = heap_rep bs L t"
    "heap_inv L s = heap_inv L t" "chain s = chain t"
  by (intro heap_rep_fields; simp add: heap_fields_more [OF assms])+

text \<open>Growing the arena: nothing changes without a frame, else a new block of a page is the head.\<close>

lemma heap_grow_page_rep:
  assumes rep: "heap_rep bs L s" and room: "unat (g_arena_next s) + 4096 < 2 ^ 64"
  defines "s' \<equiv> heap_grow_page s"
  shows "vmm.more s' = vmm.more s \<and> fst (pmm_alloc_frame s) = 0 \<or>
    heap_rep (g_arena_next s # bs) L s' \<and> b_size s' (g_arena_next s) = 4072 \<and>
    g_arena_next s' = g_arena_next s + 4096 \<and> g_arena_bytes s' = g_arena_bytes s + 4096 \<and>
    (\<forall>c\<in>L. b_size s' c = b_size s c) \<and> fst (pmm_alloc_frame s) \<noteq> 0"
proof -
  obtain q s1 where a: "pmm_alloc_frame s = (q, s1)" by (cases "pmm_alloc_frame s")
  have m1: "vmm.more s1 = vmm.more s" using vmm_ops_more(1) [of s] by (simp add: a)
  show ?thesis
  proof (cases "q = 0")
    case True
    then show ?thesis using m1 by (simp add: s'_def heap_grow_page_def a)
  next
    case False
    define s2 where "s2 = snd (vmm_map_page (g_arena_next s1) q VMM_WRITE s1)"
    have m2: "vmm.more s2 = vmm.more s" by (simp add: s2_def frame_simps m1)
    note h = heap_fields_more [OF m2] and r = heap_rep_more [OF m2]
    let ?b = "g_arena_next s"
    define s3 where "s3 = set_next ?b (g_free s) (set_size ?b 4072 s2)"
    have s': "s' = s3\<lparr>g_free := ?b, g_arena_next := ?b + 4096, g_arena_bytes := g_arena_bytes s + 4096\<rparr>"
      using False h by (simp add: s'_def heap_grow_page_def a s2_def [symmetric] Let_def s3_def HEADER_SIZE_def)
    have ok: "blocks_ok s (set bs \<union> L)" using rep by (simp add: heap_rep_def)
    have ar: "4096 dvd unat ?b" "unat VMM_KHEAP_BASE \<le> unat ?b" using rep by (simp_all add: heap_rep_def)
    have un: "unat (?b + 16) = unat ?b + 16" "unat (?b + 4096) = unat ?b + 4096"
      using room by (simp_all add: unat_word_ariths)
    have new: "c \<noteq> ?b" "c + 16 \<noteq> ?b" "c \<noteq> ?b + 16" if "c \<in> set bs \<union> L" for c
    proof -
      have "unat c + 24 \<le> unat ?b" using blocks_okD(1) [OF ok that] by (simp add: block_ok_def)
      then show "c \<noteq> ?b" "c + 16 \<noteq> ?b" "c \<noteq> ?b + 16"
        using block_cells(2) [OF blocks_okD(1) [OF ok that]] un(1) by (auto simp: word_unat_eq_iff)
    qed
    have z: "b_size s' c = b_size s c" "b_next s' c = b_next s c" if "c \<in> set bs \<union> L" for c
      using new [OF that] r(1,2) by (simp_all add: s' s3_def b_size_set_next b_next_set_size)
    have zb: "b_size s' ?b = 4072" "b_next s' ?b = g_free s" by (simp_all add: s' s3_def b_size_set_next)
    have "chain s' q bs = chain s q bs" for q by (rule chain_cong) (simp add: z)
    moreover have "?b \<noteq> NULL" using ar(2) by (auto simp: VMM_KHEAP_BASE_def)
    ultimately have ch: "chain s' (g_free s') (?b # bs)" using rep zb by (simp add: heap_rep_def s')
    have old: "block_ok s' c" "extent s' c = extent s c" if "c \<in> set bs \<union> L" for c
      using blocks_okD(1) [OF ok that] z [OF that] un(2) by (auto simp: block_ok_def extent_def s')
    have "extent s c \<inter> extent s' ?b = {}" if "c \<in> set bs \<union> L" for c
      using blocks_okD(1) [OF ok that] by (auto simp: block_ok_def extent_def)
    moreover have "8 dvd unat ?b" using ar(1) by (rule dvd_trans [rotated]) simp
    then have "block_ok s' ?b" using ar un(2) zb by (simp add: block_ok_def) (simp add: s' un(2))
    moreover have "pairwise (\<lambda>b c. extent s' b \<inter> extent s' c = {}) (set bs \<union> L)"
      using ok old(2) by (simp add: blocks_ok_def pairwise_def)
    ultimately have "blocks_ok s' (insert ?b (set bs \<union> L))"
      unfolding blocks_ok_insert using old by (simp add: blocks_ok_def)
    moreover have "4096 dvd unat (g_arena_next s')" "unat VMM_KHEAP_BASE \<le> unat (g_arena_next s')"
      using ar un(2) by (auto simp: s')
    ultimately have "heap_rep (?b # bs) L s'" using rep ch new(1) by (auto simp: heap_rep_def)
    then show ?thesis using zb z False by (simp add: s' a)
  qed
qed

lemma unat_and_not_mask: "unat (x AND NOT (mask n)) = unat x - unat x mod 2 ^ n" for x :: u64
proof -
  have "x - (x AND mask n) = x AND NOT (x AND mask n)" by (rule disjunctive_diff) (simp add: bit_and_iff)
  also have "x AND NOT (x AND mask n) = x AND NOT (mask n)"
    by (rule bit_word_eqI) (auto simp: bit_and_iff bit_not_iff bit_or_iff)
  finally have "x AND NOT (mask n) = x - (x AND mask n)" by simp
  moreover have "unat (x AND mask n) \<le> unat x" by (simp add: unat_and_mask)
  ultimately show ?thesis by (simp add: unat_sub_if_size word_size unat_and_mask)
qed

lemma unat_align_up:
  assumes "unat n \<le> 4096"
  shows "unat (align_up n) = 16 * ((unat n + 15) div 16)"
proof -
  have "align_up n = (n + 15) AND NOT (mask 4)" by (simp add: align_up_def ALIGN_def mask_eq_exp_minus_1 add.commute)
  moreover have "unat (n + 15) = unat n + 15" using assms by (simp add: unat_word_ariths)
  ultimately have "unat (align_up n) = unat n + 15 - (unat n + 15) mod 16"
    by (simp add: unat_and_not_mask)
  then show ?thesis by (simp add: minus_mod_eq_mult_div)
qed

text \<open>The size a request is rounded up to.\<close>

definition request :: "u64 \<Rightarrow> u64" where
  "request sz0 = align_up (if sz0 = 0 then ALIGN else sz0)"

lemma request_small:
  assumes "unat sz0 \<le> 4064"
  shows "unat sz0 \<le> unat (request sz0)" "unat (request sz0) \<le> 4064" "16 dvd unat (request sz0)" "request sz0 \<noteq> 0"
    "request (request sz0) = request sz0" "\<not> 4096 - HEADER_SIZE < request sz0"
proof -
  have *: "unat (request sz0) = (if sz0 = 0 then 16 else 16 * ((unat sz0 + 15) div 16))"
    using assms by (simp add: request_def unat_align_up ALIGN_def)
  have pos: "0 < unat sz0" if "sz0 \<noteq> 0" using that by (simp add: unat_gt_0)
  show le: "unat sz0 \<le> unat (request sz0)" "unat (request sz0) \<le> 4064" "16 dvd unat (request sz0)"
    using assms by (auto simp: *)
  have gt: "0 < unat (request sz0)" using pos by (auto simp: *)
  then show ne: "request sz0 \<noteq> 0" by (simp add: unat_gt_0)
  have "unat (align_up (request sz0)) = unat (request sz0)"
    using le by (subst unat_align_up) auto
  then have "align_up (request sz0) = request sz0" by (simp only: word_unat_eq_iff)
  then show "request (request sz0) = request sz0" using ne by (simp add: request_def [of "request sz0"])
  show "\<not> 4096 - HEADER_SIZE < request sz0"
    using le(2) by (simp add: HEADER_SIZE_def word_less_nat_alt)
qed

lemma kmalloc_fit:
  assumes rep: "heap_rep bs L s" and sz: "unat sz0 \<le> 4064"
    and fit: "\<exists>b\<in>set bs. request sz0 \<le> b_size s b"
  obtains b s' where "kmalloc sz0 s = Some (b + HEADER_SIZE, s')" "b \<in> set bs" "heap_inv (insert b L) s'"
    "request sz0 \<le> b_size s' b" "\<forall>c\<in>L. b_size s' c = b_size s c"
proof -
  note rq = request_small [OF sz]
  have "chain s (deref s LFree) bs" using rep by (simp add: heap_rep_def)
  from fit_link_chain [OF this, of "request sz0"] fit
  obtain xs b ys where f: "bs = xs @ b # ys" "request sz0 \<le> b_size s b"
    "fit_link (request sz0) LFree s = Some (Some (link_of LFree xs))" by (auto simp: not_less [symmetric])
  obtain p s' where t: "take_block (request sz0) (link_of LFree xs) s = (p, s')"
    by (cases "take_block (request sz0) (link_of LFree xs) s")
  have "8 dvd unat (request sz0)" using rq(3) by (rule dvd_trans [rotated]) simp
  with rq(2) f(2) have "unat (request sz0) \<le> 4096" "8 dvd unat (request sz0)" by simp_all
  note r = take_block_rep [OF rep [unfolded f(1)] f(2) this t]
  have "kmalloc sz0 s = Some (p, s')"
    using rq(6) by (subst kmalloc.simps) (simp add: request_def [symmetric] f(3) t Let_def)
  with r f(1) that show thesis by auto
qed

lemma heap_grow_small: "0 < unat sz \<Longrightarrow> unat sz \<le> 4096 \<Longrightarrow> heap_grow sz s = heap_grow_page s"
  by (subst heap_grow.simps) (simp add: word_less_nat_alt heap_grow.simps)

lemma kmalloc_small_cases:
  assumes inv: "heap_inv L s" and sz: "unat sz0 \<le> 4064" and room: "unat (g_arena_next s) + 4096 < 2 ^ 64"
  obtains
    (ok) b s' where "kmalloc sz0 s = Some (b + HEADER_SIZE, s')" "b \<notin> L" "heap_inv (insert b L) s'"
      "request sz0 \<le> b_size s' b" "\<forall>c\<in>L. b_size s' c = b_size s c"
  | (oom) s' where "kmalloc sz0 s = Some (NULL, s')" "vmm.more s' = vmm.more s" "fst (pmm_alloc_frame s) = 0"
proof -
  note rq = request_small [OF sz]
  obtain bs where rep: "heap_rep bs L s" using inv by (auto simp: heap_inv_def)
  have dj: "set bs \<inter> L = {}" using rep by (simp add: heap_rep_def)
  show thesis
  proof (cases "\<exists>b\<in>set bs. request sz0 \<le> b_size s b")
    case True
    show thesis by (rule kmalloc_fit [OF rep sz True]) (use ok dj in blast)
  next
    case False
    have "chain s (deref s LFree) bs" using rep by (simp add: heap_rep_def)
    from fit_link_chain [OF this, of "request sz0"] False
    have none: "fit_link (request sz0) LFree s = Some None" by auto
    have grow: "heap_grow (request sz0) s = heap_grow_page s"
      using rq(2,4) by (intro heap_grow_small) (simp_all add: unat_gt_0)
    have km: "kmalloc sz0 s = (if g_arena_bytes (heap_grow_page s) = g_arena_bytes s then Some (NULL, heap_grow_page s)
        else kmalloc (request sz0) (heap_grow_page s))"
      using rq(6) by (subst kmalloc.simps) (simp add: request_def [symmetric] none grow Let_def)
    from heap_grow_page_rep [OF rep room] show thesis
    proof (elim disjE conjE)
      assume m: "vmm.more (heap_grow_page s) = vmm.more s" "fst (pmm_alloc_frame s) = 0"
      with heap_fields_more [OF m(1)] km show thesis by (intro oom [of "heap_grow_page s"]) simp_all
    next
      assume g: "heap_rep (g_arena_next s # bs) L (heap_grow_page s)" "b_size (heap_grow_page s) (g_arena_next s) = 4072"
        "g_arena_bytes (heap_grow_page s) = g_arena_bytes s + 4096"
        "\<forall>c\<in>L. b_size (heap_grow_page s) c = b_size s c"
      have sz2: "unat (request sz0) \<le> 4064" by (rule rq(2))
      have "request (request sz0) \<le> b_size (heap_grow_page s) (g_arena_next s)"
        using rq(2,5) by (simp add: g(2) word_le_nat_alt)
      then have ex: "\<exists>b\<in>set (g_arena_next s # bs). request (request sz0) \<le> b_size (heap_grow_page s) b" by auto
      have dj2: "set (g_arena_next s # bs) \<inter> L = {}" using g(1) by (simp add: heap_rep_def)
      show thesis
        by (rule kmalloc_fit [OF g(1) sz2 ex]) (rule ok, use km g(3,4) rq(5) dj2 in auto)
    qed
  qed
qed

section \<open>Release\<close>

lemma insert_link_chain:
  "chain s (deref s l) bs \<Longrightarrow> \<exists>xs ys. bs = xs @ ys \<and> insert_link b l s = Some (link_of l xs)"
proof (induction bs arbitrary: l)
  case Nil
  then show ?case by (simp add: insert_link.simps link_of_def)
next
  case (Cons c bs)
  then have c: "deref s l = c" "c \<noteq> NULL" and ch: "chain s (deref s (LNext c)) bs" by auto
  show ?case
  proof (cases "c < b")
    case True
    then have step: "insert_link b l s = insert_link b (LNext c) s"
      using c by (subst insert_link.simps) simp
    from Cons.IH [OF ch] obtain xs ys where "bs = xs @ ys" "insert_link b (LNext c) s = Some (link_of (LNext c) xs)"
      by blast
    then show ?thesis using step by (intro exI [of _ "c # xs"] exI [of _ ys]) (auto simp: link_of_def)
  next
    case False
    then have "insert_link b l s = Some (link_of l [])"
      using c by (subst insert_link.simps) (simp add: link_of_def)
    then show ?thesis by (intro exI [of _ "[]"] exI [of _ "c # bs"]) simp
  qed
qed

lemma link_block_rep:
  assumes rep: "heap_rep (xs @ ys) L s" and b: "b \<in> L"
  defines "s' \<equiv> link_block b (link_of LFree xs) s"
  shows "heap_rep (xs @ b # ys) (L - {b}) s'" and "c \<in> set (xs @ ys) \<union> L \<Longrightarrow> b_size s' c = b_size s c"
    and "deref s' (link_of LFree xs) = b"
proof -
  let ?B = "set (xs @ ys) \<union> L"
  have ok: "blocks_ok s ?B" and ch: "chain s (g_free s) (xs @ ys)" and d: "distinct (xs @ ys)" "set (xs @ ys) \<inter> L = {}"
    and ar: "4096 dvd unat (g_arena_next s)" "unat VMM_KHEAP_BASE \<le> unat (g_arena_next s)"
    using rep by (simp_all add: heap_rep_def)
  let ?s1 = "set_next b (deref s (link_of LFree xs)) s"
  have z1: "b_size ?s1 c = b_size s c" if "c \<in> ?B" for c
    using header_disjoint(3) [OF ok that, of b] b by (cases "c = b") (auto simp: b_size_set_next)
  have ok1: "blocks_ok ?s1 ?B" using ok z1 by (subst blocks_ok_cong [of _ ?s1 s]) auto
  have xsB: "set xs \<subseteq> ?B" by auto
  show z: "c \<in> ?B \<Longrightarrow> b_size s' c = b_size s c" for c
    using assign_sizes [OF ok1 xsB] z1 by (simp add: s'_def link_block_def)
  have nb: "b \<notin> set xs" "b \<notin> set ys" using d b by auto
  have "chain ?s1 q (xs @ ys) = chain s q (xs @ ys)" for q using nb by (intro chain_cong) auto
  then have ch1: "chain ?s1 (g_free ?s1) (xs @ ys)" using ch by simp
  have "chain s (deref s (link_of LFree xs)) ys" using chain_link [of s LFree xs ys] ch by simp
  moreover have "chain ?s1 q ys = chain s q ys" for q using nb by (intro chain_cong) auto
  ultimately have "chain ?s1 b (b # ys)" using block_ok_pos [OF blocks_okD(1) [OF ok, of b]] b by simp
  from chain_assign [OF ch1 _ this] d nb have ch': "chain s' (g_free s') (xs @ b # ys)"
    by (auto simp: s'_def link_block_def)
  have "blocks_ok s' ?B" using ok z by (subst blocks_ok_cong [of _ s' s]) (auto simp: s'_def link_block_def)
  moreover have "set (xs @ b # ys) \<union> (L - {b}) = ?B" using b by auto
  ultimately show "heap_rep (xs @ b # ys) (L - {b}) s'"
    using ch' d nb b ar by (auto simp: heap_rep_def s'_def link_block_def)
  from chain_link [of s' LFree xs "b # ys"] ch' show "deref s' (link_of LFree xs) = b" by simp
qed

lemma absorb_next_rep:
  assumes rep: "heap_rep (xs @ b # ys) L s" and adj: "b_next s b \<noteq> NULL" "b + HEADER_SIZE + b_size s b = b_next s b"
  defines "s' \<equiv> absorb_next b s"
  shows "\<exists>zs. heap_rep (xs @ b # zs) L s'" and "c \<in> L \<Longrightarrow> b_size s' c = b_size s c"
    and "deref s' (link_of LFree xs) = b"
proof -
  have ok: "blocks_ok s (set (xs @ b # ys) \<union> L)" and ch: "chain s (g_free s) (xs @ b # ys)"
    and d: "distinct (xs @ b # ys)" "set (xs @ b # ys) \<inter> L = {}"
    and ar: "4096 dvd unat (g_arena_next s)" "unat VMM_KHEAP_BASE \<le> unat (g_arena_next s)"
    using rep by (simp_all add: heap_rep_def)
  have chy: "chain s (b_next s b) ys" using chain_link [of s LFree "xs @ [b]" ys] ch by (simp add: link_of_def)
  with adj obtain n zs where ys: "ys = n # zs" "b_next s b = n" by (cases ys) auto
  let ?B = "set (xs @ b # ys) \<union> L"
  have bB: "b \<in> ?B" and nB: "n \<in> ?B" and bn: "b \<noteq> n" using d by (auto simp: ys)
  note bo = blocks_okD(1) [OF ok bB] and no = blocks_okD(1) [OF ok nB]
  let ?v = "b_size s b + (HEADER_SIZE + b_size s n)"
  have lt: "unat b + 24 + unat (b_size s b) < 2 ^ 64" "unat n + 24 + unat (b_size s n) < 2 ^ 64"
    using bo no unat_lt_64 [of "g_arena_next s"] by (simp_all add: block_ok_def)
  have n: "unat n = unat b + 24 + unat (b_size s b)"
  proof -
    have "unat (b + 24 + b_size s b) = unat b + 24 + unat (b_size s b)" using lt(1) by (simp add: unat_word_ariths)
    with adj(2) show ?thesis by (simp add: ys(2) HEADER_SIZE_def)
  qed
  have v: "unat ?v = unat (b_size s b) + 24 + unat (b_size s n)"
    using lt n by (simp add: HEADER_SIZE_def unat_word_ariths)
  have nx: "c + 16 \<noteq> b" if "c \<in> ?B" for c
    using header_disjoint(1) [OF ok that bB] by (cases "c = b") auto
  have nx3: "c \<noteq> b + 16" if "c \<in> ?B" for c
    using header_disjoint(3) [OF ok that bB] by (cases "c = b") auto
  have s': "s' = set_next b (b_next s n) (set_size b ?v s)"
    using nx [OF bB] nx [OF nB] adj by (simp add: s'_def absorb_next_def Let_def b_next_set_size ys(2))
  have z: "b_size s' c = (if c = b then ?v else b_size s c)" if "c \<in> ?B" for c
    using nx3 [OF that] by (simp add: s' b_size_set_next)
  show "c \<in> L \<Longrightarrow> b_size s' c = b_size s c" using z [of c] d by auto
  have nxt: "b_next s' c = (if c = b then b_next s n else b_next s c)" if "c \<in> ?B" for c
    using nx [OF that] by (simp add: s' b_next_set_size)
  have "chain (set_size b ?v s) q (xs @ b # ys) = chain s q (xs @ b # ys)" for q
    using nx by (intro chain_cong) (auto simp: b_next_set_size)
  with ch have ch1: "chain (set_size b ?v s) (g_free s) (xs @ b # ys)" by simp
  have "chain (set_size b ?v s) q zs = chain s q zs" for q
    using nx by (intro chain_cong) (auto simp: b_next_set_size ys)
  moreover have "chain s (b_next s n) zs" using chy by (simp add: ys)
  ultimately have "chain s' (g_free s') (xs @ b # zs)"
    using chain_set_next [OF ch1, of "b_next s n" zs] d by (auto simp: s' ys)
  moreover have "blocks_ok s' (set (xs @ b # zs) \<union> L)"
  proof -
    let ?C = "?B - {b, n}"
    have old: "blocks_ok s' ?C"
      using blocks_ok_mono [OF ok, of ?C] z by (subst blocks_ok_cong [of _ s' s]) (auto simp: s')
    have e: "extent s' b = extent s b \<union> extent s n" using n v z [OF bB] by (auto simp: extent_def)
    have "extent s' c \<inter> extent s' b = {}" if "c \<in> ?C" for c
      using blocks_okD(2) [OF ok bB, of c] blocks_okD(2) [OF ok nB, of c] that z [of c]
      unfolding e by (auto simp: extent_def)
    moreover have "block_ok s' b" using bo no n v z [OF bB] by (auto simp: block_ok_def s')
    ultimately have "blocks_ok s' (insert b ?C)" unfolding blocks_ok_insert using old by blast
    moreover have "set (xs @ b # zs) \<union> L = insert b ?C" using d by (auto simp: ys)
    ultimately show ?thesis by simp
  qed
  ultimately have rep': "heap_rep (xs @ b # zs) L s'" using d ar by (auto simp: heap_rep_def s' ys)
  then show "\<exists>zs. heap_rep (xs @ b # zs) L s'" by blast
  show "deref s' (link_of LFree xs) = b" using rep' chain_link [of s' LFree xs "b # zs"] by (simp add: heap_rep_def)
qed

lemma kfree_small:
  assumes inv: "heap_inv L s" and b: "b \<in> L" and pages: "b_pages s b = 0" and p: "p = b + HEADER_SIZE" "p \<noteq> NULL"
  obtains bs s' where "kfree p s = Some s'" "heap_rep bs (L - {b}) s'" "b \<in> set bs"
    "\<forall>c\<in>L - {b}. b_size s' c = b_size s c"
proof -
  obtain bs where rep: "heap_rep bs L s" using inv by (auto simp: heap_inv_def)
  then have "chain s (deref s LFree) bs" by (simp add: heap_rep_def)
  from insert_link_chain [OF this] obtain xs ys where bs: "bs = xs @ ys" and il: "insert_link b LFree s = Some (link_of LFree xs)"
    by blast
  let ?l = "link_of LFree xs"
  define s1 where "s1 = link_block b ?l s"
  note L1 = link_block_rep [OF rep [unfolded bs] b, folded s1_def]
  define s2 where "s2 = absorb_next b s1"
  have s2: "\<exists>zs. heap_rep (xs @ b # zs) (L - {b}) s2" "\<forall>c\<in>L - {b}. b_size s2 c = b_size s1 c" "deref s2 ?l = b"
  proof -
    consider "b_next s1 b \<noteq> NULL" "b + HEADER_SIZE + b_size s1 b = b_next s1 b" | "s2 = s1"
      by (cases "b_next s1 b \<noteq> NULL \<and> b + HEADER_SIZE + b_size s1 b = b_next s1 b") (auto simp: s2_def absorb_next_def)
    then show "\<exists>zs. heap_rep (xs @ b # zs) (L - {b}) s2" "\<forall>c\<in>L - {b}. b_size s2 c = b_size s1 c" "deref s2 ?l = b"
      using absorb_next_rep [OF L1(1), folded s2_def] L1(1,3) by (cases; blast)+
  qed
  have "kfree p s = Some s2"
    using p pages il s2(3) by (simp add: kfree_def s1_def s2_def)
  moreover obtain zs where "heap_rep (xs @ b # zs) (L - {b}) s2" using s2(1) by blast
  moreover have "\<forall>c\<in>L - {b}. b_size s2 c = b_size s c" using s2(2) L1(2) by auto
  ultimately show thesis by (intro that) auto
qed

section \<open>The interface to the rest of the kernel\<close>

text \<open>\<open>kmalloc\<close> and \<open>kfree\<close> for the callers; not returning counts as failure. Live memory is
  identified by the pointers handed out.\<close>

definition kalloc :: "u64 \<Rightarrow> 'a heap_scheme \<Rightarrow> u64 \<times> 'a heap_scheme" where
  "kalloc n s = (case kmalloc n s of Some r \<Rightarrow> r | None \<Rightarrow> (NULL, s))"

definition krelease :: "u64 \<Rightarrow> 'a heap_scheme \<Rightarrow> 'a heap_scheme" where
  "krelease p s = (case kfree p s of Some s' \<Rightarrow> s' | None \<Rightarrow> s)"

definition live_inv :: "u64 set \<Rightarrow> 'a heap_scheme \<Rightarrow> bool" where
  "live_inv P s \<longleftrightarrow> heap_inv ((\<lambda>p. p - HEADER_SIZE) ` P) s"

definition arena_room :: "'a heap_scheme \<Rightarrow> bool" where
  "arena_room s \<longleftrightarrow> unat (g_arena_next s) + 4096 < 2 ^ 64"

definition single_page :: "'a heap_scheme \<Rightarrow> u64 \<Rightarrow> bool" where
  "single_page s p \<longleftrightarrow> b_pages s (p - HEADER_SIZE) = 0"

lemma live_inv_fields:
  assumes "hmem s = hmem t" "g_free s = g_free t" "g_arena_next s = g_arena_next t"
  shows "live_inv P s = live_inv P t" "arena_room s = arena_room t" "single_page s p = single_page t p"
  unfolding live_inv_def arena_room_def single_page_def assms(3) heap_rep_fields(3,5) [OF assms] by (rule refl)+

locale block_allocator =
  fixes inv :: "u64 set \<Rightarrow> 's \<Rightarrow> bool"
    and room :: "'s \<Rightarrow> bool"
    and alloc :: "u64 \<Rightarrow> 's \<Rightarrow> u64 \<times> 's"
    and freeable :: "'s \<Rightarrow> u64 \<Rightarrow> bool"
    and release :: "u64 \<Rightarrow> 's \<Rightarrow> 's"
  assumes alloc_fresh: "inv P s \<Longrightarrow> room s \<Longrightarrow> unat n \<le> 4064 \<Longrightarrow> alloc n s = (p, s') \<Longrightarrow>
      p = NULL \<and> inv P s' \<or> p \<noteq> NULL \<and> p \<notin> P \<and> inv (insert p P) s'"
    and release_live: "inv P s \<Longrightarrow> p \<in> P \<Longrightarrow> freeable s p \<Longrightarrow> inv (P - {p}) (release p s)"
    and live_ptr: "inv P s \<Longrightarrow> p \<in> P \<Longrightarrow> p \<noteq> NULL"

context block_allocator
begin

lemma alloc_release:
  assumes "inv P s" "room s" "unat n \<le> 4064" "alloc n s = (p, t)" "p \<noteq> NULL" "freeable t p"
  shows "inv P (release p t)"
  using alloc_fresh [OF assms(1-4)] release_live [of "insert p P" t p] assms(5,6) by auto

lemma alloc_two_distinct:
  assumes "inv P s" "room s" "unat n \<le> 4064" "alloc n s = (p, t)" "p \<noteq> NULL"
    and "room t" "unat m \<le> 4064" "alloc m t = (q, u)"
  shows "q \<noteq> p"
  using alloc_fresh [OF assms(1-4)] alloc_fresh [of "insert p P" t m q u] assms(5-8) by auto

end

lemma inj_ptr: "inj (\<lambda>p :: u64. p - HEADER_SIZE)"
  by (simp add: inj_def)

lemma block_ptr_not_null: "block_ok s b \<Longrightarrow> b + HEADER_SIZE \<noteq> NULL"
proof
  assume ok: "block_ok s b" and z: "b + HEADER_SIZE = NULL"
  have "unat (b + HEADER_SIZE) = unat b + 24"
    using ok unat_lt_64 [of "g_arena_next s"] by (simp add: block_ok_def HEADER_SIZE_def unat_word_ariths)
  with z show False by simp
qed

lemma kalloc_cases:
  assumes "heap_inv L s" "unat n \<le> 4064" "arena_room s" "kalloc n s = (p, s')"
  obtains (oom) "p = NULL" "vmm.more s' = vmm.more s" "fst (pmm_alloc_frame s) = 0"
  | (ok) b where "p = b + HEADER_SIZE" "p \<noteq> NULL" "b \<notin> L" "heap_inv (insert b L) s'" "request n \<le> b_size s' b"
      "\<forall>c\<in>L. b_size s' c = b_size s c"
proof -
  have room: "unat (g_arena_next s) + 4096 < 2 ^ 64" using assms(3) by (simp add: arena_room_def)
  show thesis
  proof (rule kmalloc_small_cases [OF assms(1,2) room])
    fix b t assume a: "kmalloc n s = Some (b + HEADER_SIZE, t)" "b \<notin> L" "heap_inv (insert b L) t"
      "request n \<le> b_size t b" "\<forall>c\<in>L. b_size t c = b_size s c"
    have "block_ok t b" using a(3) by (auto simp: heap_inv_def heap_rep_def blocks_ok_def)
    then have "b + HEADER_SIZE \<noteq> NULL" by (rule block_ptr_not_null)
    with a assms(4) show thesis by (intro ok) (simp_all add: kalloc_def)
  next
    fix t assume "kmalloc n s = Some (NULL, t)" "vmm.more t = vmm.more s" "fst (pmm_alloc_frame s) = 0"
    with assms(4) show thesis by (intro oom) (simp_all add: kalloc_def)
  qed
qed

interpretation kheap: block_allocator live_inv arena_room kalloc single_page krelease
proof unfold_locales
  fix P n p and s s' :: "'a heap_scheme"
  assume a: "live_inv P s" "arena_room s" "unat n \<le> 4064" "kalloc n s = (p, s')"
  let ?L = "(\<lambda>p. p - HEADER_SIZE) ` P"
  have inv: "heap_inv ?L s" using a(1) by (simp add: live_inv_def)
  show "p = NULL \<and> live_inv P s' \<or> p \<noteq> NULL \<and> p \<notin> P \<and> live_inv (insert p P) s'"
  proof (rule kalloc_cases [OF inv a(3,2,4)])
    assume "p = NULL" "vmm.more s' = vmm.more s"
    then show ?thesis using heap_rep_more(5) [of s' s] inv by (simp add: live_inv_def)
  next
    fix b assume "p = b + HEADER_SIZE" "p \<noteq> NULL" "b \<notin> ?L" "heap_inv (insert b ?L) s'"
    then show ?thesis by (auto simp: live_inv_def image_iff)
  qed
next
  fix P p and s :: "'a heap_scheme"
  assume a: "live_inv P s" "p \<in> P"
  let ?L = "(\<lambda>p. p - HEADER_SIZE) ` P"
  have inv: "heap_inv ?L s" and b: "p - HEADER_SIZE \<in> ?L" using a by (simp_all add: live_inv_def)
  show p: "p \<noteq> NULL"
  proof -
    have "block_ok s (p - HEADER_SIZE)" using inv b by (auto simp: heap_inv_def heap_rep_def blocks_ok_def)
    from block_ptr_not_null [OF this] show ?thesis by simp
  qed
  assume f: "single_page s p"
  have eq: "?L - {p - HEADER_SIZE} = (\<lambda>p. p - HEADER_SIZE) ` (P - {p})" by auto
  have pg: "b_pages s (p - HEADER_SIZE) = 0" using f by (simp add: single_page_def)
  have pp: "p = p - HEADER_SIZE + HEADER_SIZE" by simp
  obtain bs s' where k: "kfree p s = Some s'" "heap_rep bs (?L - {p - HEADER_SIZE}) s'"
    by (rule kfree_small [OF inv b pg pp p])
  have "heap_inv ((\<lambda>p. p - HEADER_SIZE) ` (P - {p})) s'"
    using k(2) unfolding heap_inv_def eq by blast
  then show "live_inv (P - {p}) (krelease p s)" by (simp add: live_inv_def krelease_def k(1))
qed

section \<open>What the heap leaves alone\<close>

lemma heap_more_vmm: "vmm.more s = vmm.more t \<Longrightarrow> heap.more s = heap.more t"
  using heap_fields_more [of s t] by blast

text \<open>The active spaces, the payload bytes and everything beyond the heap.\<close>

definition payload :: "'a heap_scheme \<Rightarrow> (u64 \<times> u64 \<times> u64) \<times> (u64 \<Rightarrow> u8) \<times> 'a" where
  "payload s = ((r_cr3 s, g_cr3 s, g_root_cr3 s), kbytes s, heap.more s)"

lemma payload_vmm: "beyond s = beyond t \<Longrightarrow> payload s = payload t"
  using heap_fields_more [of s t] by (simp add: payload_def beyond_def)

lemma payload_upd [simp]:
  "payload (s\<lparr>hmem := h\<rparr>) = payload s" "payload (s\<lparr>g_free := p\<rparr>) = payload s"
  "payload (s\<lparr>g_arena_next := p\<rparr>) = payload s" "payload (s\<lparr>g_arena_bytes := p\<rparr>) = payload s"
  by (simp_all add: payload_def)

lemma vmm_ops_payload [frame_simps]:
  "payload (snd (pmm_alloc_frame s)) = payload s" "payload (pmm_free_frame p s) = payload s"
  "payload (snd (vmm_map_page virt phys flags s)) = payload s"
  "payload (vmm_unmap_page virt s) = payload s" "payload (snd (vmm_translate virt s)) = payload s"
  by (rule payload_vmm, simp add: frame_simps)+

lemma header_writes_payload [frame_simps]:
  "payload (set_size b v s) = payload s" "payload (set_next b v s) = payload s"
  "payload (set_pages b v s) = payload s" "payload (assign l v s) = payload s"
  by (cases l; simp add: set_size_def set_next_def set_pages_def)+

lemma heap_grow_page_payload [frame_simps]: "payload (heap_grow_page s) = payload s"
proof -
  have a: "pmm_alloc_frame u = (q, t) \<Longrightarrow> payload t = payload u" for q and u t :: "'b heap_scheme"
    using vmm_ops_payload(1) [of u] by simp
  show ?thesis
    by (auto simp: heap_grow_page_def Let_def frame_simps dest!: a split: prod.splits)
qed

lemma heap_grow_payload [frame_simps]: "payload (heap_grow n s) = payload s"
proof (induction n s rule: heap_grow.induct)
  case (1 payload s)
  show ?case
  proof (cases "payload > 0")
    case True
    then have "heap_grow payload s = heap_grow (payload - (if payload > 4096 then 4096 else payload)) (heap_grow_page s)"
      by (subst heap_grow.simps) (simp only: if_True)
    with 1 [OF True] show ?thesis by (simp only: heap_grow_page_payload)
  qed (subst heap_grow.simps, simp)
qed

lemma map_arena_pages_payload: "payload (snd (map_arena_pages is s)) = payload s"
proof (induction "is" s rule: map_arena_pages.induct)
  case (2 i "is" s)
  obtain q t where a: "pmm_alloc_frame s = (q, t)" by (cases "pmm_alloc_frame s")
  have "payload t = payload s" using vmm_ops_payload(1) [of s] a by simp
  with 2 [OF a [symmetric] refl] show ?case by (simp add: a frame_simps)
qed simp

lemma kmalloc_large_payload [frame_simps]: "payload (snd (kmalloc_large n s)) = payload s"
proof -
  obtain ok t where m: "map_arena_pages [0..<unat ((n + HEADER_SIZE + 4096 - 1) div 4096)] s = (ok, t)" by fastforce
  then have "payload t = payload s" using map_arena_pages_payload by (metis snd_conv)
  with m show ?thesis by (simp add: kmalloc_large_def Let_def frame_simps)
qed

lemma take_block_payload [frame_simps]: "payload (snd (take_block n l s)) = payload s"
  by (simp add: take_block_def Let_def frame_simps)

lemma kmalloc_payload: "kmalloc n s = Some (p, s') \<Longrightarrow> payload s' = payload s"
proof -
  assume k: "kmalloc n s = Some (p, s')"
  have "payload (snd (p, s')) = payload s"
  proof (rule kmalloc.raw_induct [where P = "\<lambda>n s r. payload (snd r) = payload s", OF _ k])
    fix km :: "u64 \<Rightarrow> 'a heap_scheme \<Rightarrow> (u64 \<times> 'a heap_scheme) option" and n s r
    assume IH: "\<And>n s r. km n s = Some r \<Longrightarrow> payload (snd r) = payload s"
    assume "(let sz = align_up (if n = 0 then ALIGN else n)
      in if sz > 4096 - HEADER_SIZE then Some (kmalloc_large sz s)
         else case fit_link sz LFree s of
           None \<Rightarrow> None
         | Some None \<Rightarrow>
             (let s' = heap_grow sz s
              in if g_arena_bytes s' = g_arena_bytes s then Some (NULL, s') else km sz s')
         | Some (Some link) \<Rightarrow> Some (take_block sz link s)) = Some r"
    then show "payload (snd r) = payload s"
      by (auto simp: Let_def frame_simps dest!: IH split: if_splits option.splits)
  qed
  then show ?thesis by simp
qed

lemma kalloc_payload: "payload (snd (kalloc n s)) = payload s"
  using kmalloc_payload [of n s] by (auto simp: kalloc_def split: option.splits)

lemma kfree_payload: "kfree p s = Some s' \<Longrightarrow> payload s' = payload s"
proof -
  have t: "vmm_translate v u = (q, t) \<Longrightarrow> payload t = payload u" for v q and u t :: "'b heap_scheme"
    using vmm_ops_payload(5) [of v u] by simp
  have "payload (fold (\<lambda>i s. let (phys, s) = vmm_translate (f i) s
                 in if phys \<noteq> 0 then pmm_free_frame phys (vmm_unmap_page (f i) s) else s) is u) = payload u"
    for f "is" and u :: "'b heap_scheme"
    by (induction "is" arbitrary: u) (auto simp: frame_simps dest!: t split: prod.splits)
  then have k: "payload (kfree_pages v n u) = payload u" for v n and u :: "'b heap_scheme"
    by (simp add: kfree_pages_def)
  show "kfree p s = Some s' \<Longrightarrow> payload s' = payload s"
    by (auto simp: kfree_def Let_def k absorb_next_def link_block_def merge_prev_def frame_simps
        split: if_splits option.splits)
qed

lemma krelease_payload: "payload (krelease p s) = payload s"
  using kfree_payload [of p s] by (auto simp: krelease_def split: option.splits)

lemmas kalloc_frame = kalloc_payload [unfolded payload_def prod.inject]
lemmas krelease_frame = krelease_payload [unfolded payload_def prod.inject]
lemmas kalloc_spaces = kalloc_frame [THEN conjunct1]
lemmas kalloc_kbytes = kalloc_frame [THEN conjunct2, THEN conjunct1]
lemmas kalloc_more = kalloc_frame [THEN conjunct2, THEN conjunct2]
lemmas krelease_spaces = krelease_frame [THEN conjunct1]
lemmas krelease_kbytes = krelease_frame [THEN conjunct2, THEN conjunct1]
lemmas krelease_more = krelease_frame [THEN conjunct2, THEN conjunct2]

section \<open>Properties\<close>

text \<open>A heap whose arena is one mapped page that is free as a whole, for the examples.\<close>

definition heap_example :: heap where
  "heap_example = pmm_init (Some [small_region]) 0
     \<lparr>g_bitmap = \<lambda>_. 0, g_total_frames = 0, g_allocated_frames = 0, g_hhdm_offset = 0, g_last_hint = 0,
      pt_mem = \<lambda>_. 0, r_cr3 = 0x100000, g_cr3 = 0x100000, g_root_cr3 = 0x100000,
      hmem = (\<lambda>_. 0)(VMM_KHEAP_BASE := 4072), kbytes = \<lambda>_. 0, g_free = VMM_KHEAP_BASE,
      g_arena_next = VMM_KHEAP_BASE + 4096, g_arena_bytes = 4096\<rparr>"

lemma vmm_more_pmm: "pmm.more s = pmm.more t \<Longrightarrow> vmm.more s = vmm.more t"
  by (cases s; cases t) simp

lemma heap_example_state:
  "hmem heap_example = (\<lambda>_. 0)(VMM_KHEAP_BASE := 4072)" "g_free heap_example = VMM_KHEAP_BASE"
  "g_arena_next heap_example = VMM_KHEAP_BASE + 4096" "g_arena_bytes heap_example = 4096"
  by (simp_all add: heap_example_def heap_fields_more [OF vmm_more_pmm [OF pmm_init_more]])

lemma heap_example_inv: "heap_rep [VMM_KHEAP_BASE] {} heap_example" "arena_room heap_example"
proof -
  have "b_size heap_example VMM_KHEAP_BASE = 4072" "b_next heap_example VMM_KHEAP_BASE = 0"
    by (simp_all add: b_size_def b_next_def heap_example_state)
  then show "heap_rep [VMM_KHEAP_BASE] {} heap_example"
    by (simp add: heap_rep_def blocks_ok_def block_ok_def heap_example_state VMM_KHEAP_BASE_def pairwise_def)
  show "arena_room heap_example" by (simp add: arena_room_def heap_example_state VMM_KHEAP_BASE_def)
qed

text \<open>C11: on a well-formed heap a request of at most 4064 bytes always returns: either NULL, only
  when no frame is left to grow the arena, or a block that is at least as large as the request and
  overlaps no live block; the headers of the live blocks keep their sizes and the heap stays
  well-formed.\<close>

theorem kmalloc_small_correct:
  assumes "heap_inv L s" and "unat n \<le> 4064" and "unat (g_arena_next s) + 4096 < 2 ^ 64"
  shows "\<exists>p s'. kmalloc n s = Some (p, s') \<and>
    (p = NULL \<and> heap_inv L s' \<and> fst (pmm_alloc_frame s) = 0 \<or>
     p \<noteq> NULL \<and> p - HEADER_SIZE \<notin> L \<and> heap_inv (insert (p - HEADER_SIZE) L) s' \<and> unat n \<le> unat (b_size s' (p - HEADER_SIZE)) \<and>
     (\<forall>c\<in>L. b_size s' c = b_size s c \<and> extent s' c \<inter> extent s' (p - HEADER_SIZE) = {}))"
proof (rule kmalloc_small_cases [OF assms])
  fix b s' assume a: "kmalloc n s = Some (b + HEADER_SIZE, s')" "b \<notin> L" "heap_inv (insert b L) s'"
      "request n \<le> b_size s' b" "\<forall>c\<in>L. b_size s' c = b_size s c"
  have "unat n \<le> unat (b_size s' b)" using request_small(1) [OF assms(2)] a(4) by (simp add: word_le_nat_alt)
  moreover have "extent s' c \<inter> extent s' b = {}" if "c \<in> L" for c
    using a(2,3) that by (auto simp: heap_inv_def heap_rep_def blocks_ok_def pairwise_def)
  moreover have "block_ok s' b" using a(3) by (auto simp: heap_inv_def heap_rep_def blocks_ok_def)
  ultimately show ?thesis using a block_ptr_not_null [of s' b]
    by (intro exI [of _ "b + HEADER_SIZE"] exI [of _ s']) simp
next
  fix s' assume "kmalloc n s = Some (NULL, s')" "vmm.more s' = vmm.more s" "fst (pmm_alloc_frame s) = 0"
  then show ?thesis using heap_rep_more(5) [of s' s L] assms(1) by auto
qed

theorem kmalloc_small_correct_witness:
  "\<exists>p s'. kmalloc 100 heap_example = Some (p, s') \<and> p \<noteq> NULL"
proof -
  have inv: "heap_inv {} heap_example" using heap_example_inv(1) by (auto simp: heap_inv_def)
  have room: "unat (g_arena_next heap_example) + 4096 < 2 ^ 64"
    using heap_example_inv(2) by (simp add: arena_room_def)
  have "pmm_inv heap_example" "free_addrs heap_example \<noteq> {}"
    by (simp_all add: heap_example_def small_region_init free_addrs_def)
  then have "fst (pmm_alloc_frame heap_example) \<noteq> 0" using pmm.alloc_zero_iff by blast
  with kmalloc_small_correct [OF inv _ room, of 100] show ?thesis by auto
qed

text \<open>C12: releasing a live block whose page count is zero ends, makes the block free and keeps the
  heap well-formed with the other live blocks as they were; the block is a member of the free list
  afterwards, so it is never merged into the free block in front of it.\<close>

theorem kfree_small_correct:
  assumes "heap_inv L s" and "p - HEADER_SIZE \<in> L" and "b_pages s (p - HEADER_SIZE) = 0"
  shows "\<exists>s' bs. kfree p s = Some s' \<and> heap_rep bs (L - {p - HEADER_SIZE}) s' \<and> p - HEADER_SIZE \<in> set bs \<and>
    (\<forall>c\<in>L - {p - HEADER_SIZE}. b_size s' c = b_size s c)"
proof -
  have "block_ok s (p - HEADER_SIZE)" using assms(1,2) by (auto simp: heap_inv_def heap_rep_def blocks_ok_def)
  from block_ptr_not_null [OF this] have p: "p = p - HEADER_SIZE + HEADER_SIZE" "p \<noteq> NULL" by simp_all
  show ?thesis by (rule kfree_small [OF assms p]) blast
qed

definition heap_used_example :: heap where
  "heap_used_example = heap_example\<lparr>g_free := NULL\<rparr>"

theorem kfree_small_correct_witness:
  "\<exists>s'. kfree (VMM_KHEAP_BASE + 24) heap_used_example = Some s' \<and> heap_inv {} s'"
proof -
  have "b_size heap_used_example VMM_KHEAP_BASE = 4072"
    by (simp add: b_size_def heap_used_example_def heap_example_state)
  then have "heap_rep [] {VMM_KHEAP_BASE} heap_used_example"
    by (simp add: heap_rep_def blocks_ok_def block_ok_def heap_used_example_def heap_example_state VMM_KHEAP_BASE_def)
  then have "heap_inv {VMM_KHEAP_BASE} heap_used_example" by (auto simp: heap_inv_def)
  moreover have "b_pages heap_used_example VMM_KHEAP_BASE = 0"
    by (simp add: b_pages_def heap_used_example_def heap_example_state)
  ultimately show ?thesis
    using kfree_small_correct [of "{VMM_KHEAP_BASE}" heap_used_example "VMM_KHEAP_BASE + 24"]
    by (auto simp: HEADER_SIZE_def heap_inv_def)
qed



text \<open>The page count of a header is written only for large allocations. A remainder that is split off
  takes over the word that was there, here the size word of a header that a merge left behind.\<close>

lemma request_16: "request 16 = 16" and request_64: "request 64 = 64"
  by (simp_all add: request_def align_up_def ALIGN_def)

lemma kmalloc_head:
  assumes "g_free s = b" "b \<noteq> NULL" "request n \<le> b_size s b" "unat n \<le> 4064"
  shows "kmalloc n s = Some (take_block (request n) LFree s)"
proof -
  have "fit_link (request n) LFree s = Some (Some LFree)" using assms by (subst fit_link.simps) simp
  then show ?thesis using request_small(6) [OF assms(4)]
    by (subst kmalloc.simps) (simp add: request_def [symmetric] Let_def)
qed

lemmas heap_eval = take_block_def Let_def b_size_def b_next_def b_pages_def set_size_def set_next_def
  HEADER_SIZE_def ALIGN_def VMM_KHEAP_BASE_def heap_example_state


end
