(* ===== verification/Vfs_Tree.thy ===== *)
theory Vfs_Tree
  imports Kmalloc
begin

text \<open>
  The directory tree of \<open>kernel/vfs/vfs.c\<close>: path helpers, lookup, creation and removal of nodes.
  Nodes, open files and pipes are heap objects; the record \<open>vfs\<close> adds one typed store per C structure,
  indexed by the address \<open>kmalloc\<close> returned, the root pointer, and the descriptor tables of the tasks
  (\<open>struct task::fds\<close>, with the index of the current task, \<open>None\<close> before \<open>sched_init\<close>). A C string is
  the list of its characters without the terminator. Walks over sibling lists may not end on a cyclic
  list and are partial functions; a lookup that does not end counts as not found, and on a well-formed
  tree every walk ends.
\<close>

section \<open>State and operations\<close>

definition VFS_DIR :: u32 where "VFS_DIR = 1"
definition VFS_FILE :: u32 where "VFS_FILE = 2"
definition VFS_DEVICE :: u32 where "VFS_DEVICE = 3"
definition O_RDONLY :: u32 where "O_RDONLY = 0"
definition O_WRONLY :: u32 where "O_WRONLY = 1"
definition O_RDWR :: u32 where "O_RDWR = 2"
definition O_CREAT :: u32 where "O_CREAT = 0x40"
definition O_TRUNC :: u32 where "O_TRUNC = 0x200"
definition O_APPEND :: u32 where "O_APPEND = 0x400"
definition VFS_NAME_MAX :: nat where "VFS_NAME_MAX = 64"
definition VFS_MAX_FDS :: nat where "VFS_MAX_FDS = 16"
definition PIPE_BUF_SIZE :: nat where "PIPE_BUF_SIZE = 4096"

text \<open>The built-in drivers, standing for the addresses of their \<open>struct file_ops\<close>.\<close>

datatype file_ops = No_ops | Fb_ops | Tty_ops | Kbd_ops | Serial_ops | Null_ops | Zero_ops

record vfs_node =
  n_name :: string
  n_type :: u32
  n_mode :: u32
  n_uid :: u32
  n_gid :: u32
  n_data :: u64
  n_size :: u64
  n_capacity :: u64
  n_ops :: file_ops
  n_priv :: u64
  n_parent :: u64
  n_sibling :: u64
  n_child :: u64

record vfs_file =
  f_node :: u64
  f_pipe :: u64
  f_pos :: u64
  f_flags :: u32
  f_refs :: int

record vfs_pipe =
  p_buf :: "u8 list"
  p_head :: nat
  p_count :: nat
  p_refs_r :: int
  p_refs_w :: int

record vfs = heap +
  nodes :: "u64 \<Rightarrow> vfs_node"
  files :: "u64 \<Rightarrow> vfs_file"
  pipes :: "u64 \<Rightarrow> vfs_pipe"
  g_root :: u64
  cur_task :: "nat option"
  task_fds :: "nat \<Rightarrow> nat \<Rightarrow> u64"

definition upd_node :: "u64 \<Rightarrow> (vfs_node \<Rightarrow> vfs_node) \<Rightarrow> 'a vfs_scheme \<Rightarrow> 'a vfs_scheme" where
  "upd_node n f s = s\<lparr>nodes := (nodes s)(n := f (nodes s n))\<rparr>"

subsection \<open>Path helpers\<close>

text \<open>The loop that remembers the position of the last slash; \<open>i\<close> is the current position.\<close>

fun last_slash :: "nat \<Rightarrow> nat option \<Rightarrow> string \<Rightarrow> nat option" where
  "last_slash i slash [] = slash"
| "last_slash i slash (c # cs) = last_slash (Suc i) (if c = CHR ''/'' then Some i else slash) cs"

definition path_split :: "string \<Rightarrow> nat \<Rightarrow> nat \<Rightarrow> (string \<times> string) option" where
  "path_split path dir_size name_size =
     (case last_slash 0 None path of
        None \<Rightarrow> if length path \<ge> name_size then None else Some (''/'', path)
      | Some dlen \<Rightarrow>
          (let name = drop (Suc dlen) path
           in if dlen \<noteq> 0 \<and> dlen \<ge> dir_size then None
              else if length name = 0 \<or> length name \<ge> name_size then None
              else Some (if dlen = 0 then ''/'' else take dlen path, name)))"

partial_function (option) find_sibling :: "string \<Rightarrow> u64 \<Rightarrow> 'a vfs_scheme \<Rightarrow> u64 option" where
  "find_sibling name n s =
     (if n = NULL then Some NULL
      else if n_name (nodes s n) = name then Some n
      else find_sibling name (n_sibling (nodes s n)) s)"

definition dir_find :: "u64 \<Rightarrow> string \<Rightarrow> 'a vfs_scheme \<Rightarrow> u64" where
  "dir_find dir name s =
     (case find_sibling name (n_child (nodes s dir)) s of Some n \<Rightarrow> n | None \<Rightarrow> NULL)"

definition dir_attach :: "u64 \<Rightarrow> u64 \<Rightarrow> 'a vfs_scheme \<Rightarrow> u64 \<times> 'a vfs_scheme" where
  "dir_attach dir node s =
     (let s = upd_node node (n_parent_update (\<lambda>_. dir)) s;
          s = upd_node node (n_sibling_update (\<lambda>_. n_child (nodes s dir))) s;
          s = upd_node dir (n_child_update (\<lambda>_. node)) s
      in (node, s))"

definition skip_slashes :: "string \<Rightarrow> string" where
  "skip_slashes p = dropWhile (\<lambda>c. c = CHR ''/'') p"

lemma length_skip_slashes: "length (skip_slashes p) \<le> length p"
  by (simp add: skip_slashes_def length_dropWhile_le)

lemma lookup_rest_shorter:
  assumes "p \<noteq> []"
  shows "length (skip_slashes (dropWhile (\<lambda>c. c \<noteq> CHR ''/'') p)) < length p"
proof (cases p)
  case (Cons c cs)
  show ?thesis
  proof (cases "c = CHR ''/''")
    case True
    then have "length (skip_slashes (c # cs)) \<le> length cs" by (simp add: skip_slashes_def length_dropWhile_le)
    then show ?thesis by (simp add: Cons True)
  next
    case False
    have "length (skip_slashes (dropWhile (\<lambda>c. c \<noteq> CHR ''/'') cs)) \<le> length cs"
      using length_skip_slashes length_dropWhile_le le_trans by blast
    then show ?thesis by (simp add: Cons False)
  qed
qed (use assms in simp)

text \<open>The component loop of \<open>vfs_lookup\<close>.\<close>

function lookup_from :: "u64 \<Rightarrow> string \<Rightarrow> 'a vfs_scheme \<Rightarrow> u64" where
  "lookup_from cur p s =
     (if p = [] then cur
      else let name = takeWhile (\<lambda>c. c \<noteq> CHR ''/'') p;
               rest = dropWhile (\<lambda>c. c \<noteq> CHR ''/'') p
           in if length name \<ge> VFS_NAME_MAX then NULL
              else if n_type (nodes s cur) \<noteq> VFS_DIR then NULL
              else let cur = dir_find cur name s
                   in if cur = NULL then NULL
                      else lookup_from cur (skip_slashes rest) s)"
  by pat_completeness auto

termination
  by (relation "measure (\<lambda>(cur, p, s). length p)") (auto intro: lookup_rest_shorter)

declare lookup_from.simps [simp del]

definition vfs_lookup :: "string \<Rightarrow> 'a vfs_scheme \<Rightarrow> u64" where
  "vfs_lookup path s =
     (let p = skip_slashes path in if p = [] then g_root s else lookup_from (g_root s) p s)"

subsection \<open>Creation and removal\<close>

definition zero_node :: vfs_node where
  "zero_node = \<lparr>n_name = [], n_type = 0, n_mode = 0, n_uid = 0, n_gid = 0, n_data = NULL, n_size = 0,
     n_capacity = 0, n_ops = No_ops, n_priv = NULL, n_parent = NULL, n_sibling = NULL, n_child = NULL\<rparr>"

text \<open>The three creation functions differ only in the fields they set on the zeroed node.\<close>

definition create_node :: "string \<Rightarrow> vfs_node \<Rightarrow> 'a vfs_scheme \<Rightarrow> u64 \<times> 'a vfs_scheme" where
  "create_node path init s =
     (case path_split path 256 VFS_NAME_MAX of
        None \<Rightarrow> (NULL, s)
      | Some (dir_path, name) \<Rightarrow>
          (let parent = vfs_lookup dir_path s
           in if parent = NULL \<or> n_type (nodes s parent) \<noteq> VFS_DIR \<or> dir_find parent name s \<noteq> NULL then (NULL, s)
              else let (node, s) = kalloc 144 s
                   in if node = NULL then (NULL, s)
                      else dir_attach parent node (upd_node node (\<lambda>_. init\<lparr>n_name := name\<rparr>) s)))"

definition vfs_create_dir :: "string \<Rightarrow> 'a vfs_scheme \<Rightarrow> u64 \<times> 'a vfs_scheme" where
  "vfs_create_dir path s = create_node path (zero_node\<lparr>n_type := VFS_DIR, n_mode := 0x1ED\<rparr>) s"

definition vfs_create_file :: "string \<Rightarrow> 'a vfs_scheme \<Rightarrow> u64 \<times> 'a vfs_scheme" where
  "vfs_create_file path s = create_node path (zero_node\<lparr>n_type := VFS_FILE, n_mode := 0x1A4\<rparr>) s"

definition vfs_create_device :: "string \<Rightarrow> file_ops \<Rightarrow> u64 \<Rightarrow> 'a vfs_scheme \<Rightarrow> u64 \<times> 'a vfs_scheme" where
  "vfs_create_device path ops priv s =
     create_node path (zero_node\<lparr>n_type := VFS_DEVICE, n_mode := 0x180, n_ops := ops, n_priv := priv\<rparr>) s"

text \<open>\<open>struct vfs_node **link\<close>: the \<open>child\<close> field of a directory or the \<open>sibling\<close> field of a node.\<close>

datatype node_link = NChild u64 | NSibling u64

fun node_deref :: "'a vfs_scheme \<Rightarrow> node_link \<Rightarrow> u64" where
  "node_deref s (NChild d) = n_child (nodes s d)"
| "node_deref s (NSibling n) = n_sibling (nodes s n)"

fun node_assign :: "node_link \<Rightarrow> u64 \<Rightarrow> 'a vfs_scheme \<Rightarrow> 'a vfs_scheme" where
  "node_assign (NChild d) v s = upd_node d (n_child_update (\<lambda>_. v)) s"
| "node_assign (NSibling n) v s = upd_node n (n_sibling_update (\<lambda>_. v)) s"

definition remove_node :: "node_link \<Rightarrow> 'a vfs_scheme \<Rightarrow> klong \<times> 'a vfs_scheme" where
  "remove_node link s =
     (let victim = node_deref s link; v = nodes s victim
      in if n_type v = VFS_DIR \<and> n_child v \<noteq> NULL then (-1, s)
         else let s = node_assign link (n_sibling v) s;
                  s = (if n_type v = VFS_FILE then krelease (n_data v) s else s)
              in (0, krelease victim s))"

partial_function (option) remove_walk ::
    "string \<Rightarrow> node_link \<Rightarrow> 'a vfs_scheme \<Rightarrow> (klong \<times> 'a vfs_scheme) option" where
  "remove_walk name link s =
     (if node_deref s link = NULL then Some (-1, s)
      else if n_name (nodes s (node_deref s link)) = name then Some (remove_node link s)
      else remove_walk name (NSibling (node_deref s link)) s)"

definition vfs_remove :: "string \<Rightarrow> 'a vfs_scheme \<Rightarrow> klong \<times> 'a vfs_scheme" where
  "vfs_remove path s =
     (case path_split path 256 VFS_NAME_MAX of
        None \<Rightarrow> (-1, s)
      | Some (dir_path, name) \<Rightarrow>
          (let parent = vfs_lookup dir_path s
           in if parent = NULL \<or> n_type (nodes s parent) \<noteq> VFS_DIR then (-1, s)
              else case remove_walk name (NChild parent) s of Some r \<Rightarrow> r | None \<Rightarrow> (-1, s)))"

text \<open>The path operations behind the system calls; \<open>None\<close> is a NULL path.\<close>

definition vfs_mkdir :: "string option \<Rightarrow> u32 \<Rightarrow> 'a vfs_scheme \<Rightarrow> klong \<times> 'a vfs_scheme" where
  "vfs_mkdir path mode s =
     (case path of None \<Rightarrow> (- EINVAL, s)
      | Some path \<Rightarrow>
          if vfs_lookup path s \<noteq> NULL then (- EEXIST, s)
          else let (dir, s) = vfs_create_dir path s
               in if dir = NULL then (- ENOENT, s)
                  else (0, if mode \<noteq> 0 then upd_node dir (n_mode_update (\<lambda>_. mode)) s else s))"

definition vfs_unlink :: "string option \<Rightarrow> 'a vfs_scheme \<Rightarrow> klong \<times> 'a vfs_scheme" where
  "vfs_unlink path s =
     (case path of None \<Rightarrow> (- EINVAL, s)
      | Some path \<Rightarrow>
          if vfs_lookup path s = NULL then (- ENOENT, s)
          else let (r, s) = vfs_remove path s in if r \<noteq> 0 then (- EISDIR, s) else (0, s))"

definition vfs_chmod :: "string option \<Rightarrow> u32 \<Rightarrow> 'a vfs_scheme \<Rightarrow> klong \<times> 'a vfs_scheme" where
  "vfs_chmod path mode s =
     (case path of None \<Rightarrow> (- EINVAL, s)
      | Some path \<Rightarrow>
          (let node = vfs_lookup path s
           in if node = NULL then (- ENOENT, s) else (0, upd_node node (n_mode_update (\<lambda>_. mode)) s)))"

definition ensure_dir :: "string \<Rightarrow> 'a vfs_scheme \<Rightarrow> 'a vfs_scheme" where
  "ensure_dir path s = (if vfs_lookup path s = NULL then snd (vfs_create_dir path s) else s)"

definition vfs_init :: "'a vfs_scheme \<Rightarrow> 'a vfs_scheme" where
  "vfs_init s =
     (let (r, s) = kalloc 144 s; s = s\<lparr>g_root := r\<rparr>
      in if r = NULL then s
         else upd_node r (\<lambda>_. zero_node\<lparr>n_type := VFS_DIR, n_name := ''/''\<rparr>) s)"

section \<open>Paths as component lists\<close>

fun words :: "string \<Rightarrow> string \<Rightarrow> string list" where
  "words w [] = (if w = [] then [] else [w])"
| "words w (c # cs) = (if c = CHR ''/'' then (if w = [] then [] else [w]) @ words [] cs else words (w @ [c]) cs)"

text \<open>The components of a path: what lies between its slashes, empty parts dropped.\<close>

definition comps :: "string \<Rightarrow> string list" where
  "comps p = words [] p"

lemma words_no_slash: "CHR ''/'' \<notin> set xs \<Longrightarrow> words w (xs @ ys) = words (w @ xs) ys"
  by (induction xs arbitrary: w) auto

lemma words_slash: "words w (CHR ''/'' # ys) = (if w = [] then [] else [w]) @ words [] ys"
  by simp

lemma words_append_slash: "words w (xs @ CHR ''/'' # ys) = words w xs @ words [] ys"
  by (induction xs arbitrary: w) auto

lemma comps_skip_slashes: "comps (skip_slashes p) = comps p"
  by (induction p) (simp_all add: comps_def skip_slashes_def)

lemma comps_Nil_iff: "comps p = [] \<longleftrightarrow> skip_slashes p = []"
proof -
  have "words w p \<noteq> []" if "w \<noteq> []" for w p using that by (induction p arbitrary: w) auto
  then show ?thesis by (induction p) (auto simp: comps_def skip_slashes_def)
qed

lemma skip_slashes_hd: "skip_slashes p = c # cs \<Longrightarrow> c \<noteq> CHR ''/''"
  unfolding skip_slashes_def by (metis (full_types) dropWhile_eq_Cons_conv)

lemma comps_step:
  assumes "p \<noteq> []" "hd p \<noteq> CHR ''/''"
  shows "comps p = takeWhile (\<lambda>c. c \<noteq> CHR ''/'') p # comps (skip_slashes (dropWhile (\<lambda>c. c \<noteq> CHR ''/'') p))"
proof -
  let ?n = "takeWhile (\<lambda>c. c \<noteq> CHR ''/'') p" and ?r = "dropWhile (\<lambda>c. c \<noteq> CHR ''/'') p"
  have n: "CHR ''/'' \<notin> set ?n" "?n \<noteq> []" using assms by (auto dest: set_takeWhileD simp: takeWhile_eq_Nil_iff)
  have "comps p = words ?n ?r" using words_no_slash [OF n(1), of "[]" ?r] by (simp add: comps_def)
  also have "\<dots> = ?n # words [] ?r"
  proof -
    have "words w r = w # words [] r" if "w \<noteq> []" "r = [] \<or> hd r = CHR ''/''" for w r
      using that by (cases r) auto
    moreover have "?r = [] \<or> hd ?r = CHR ''/''" using hd_dropWhile [of "\<lambda>c. c \<noteq> CHR ''/''" p] by blast
    ultimately show ?thesis using n(2) by blast
  qed
  also have "words [] ?r = comps (skip_slashes ?r)" using comps_skip_slashes [of ?r] by (simp add: comps_def)
  finally show ?thesis .
qed

text \<open>Resolution of a component list from a node.\<close>

fun resolve :: "'a vfs_scheme \<Rightarrow> u64 \<Rightarrow> string list \<Rightarrow> u64" where
  "resolve s cur [] = cur"
| "resolve s cur (c # cs) =
     (if length c \<ge> VFS_NAME_MAX \<or> n_type (nodes s cur) \<noteq> VFS_DIR \<or> dir_find cur c s = NULL then NULL
      else resolve s (dir_find cur c s) cs)"

lemma lookup_from_resolve: "p = [] \<or> hd p \<noteq> CHR ''/'' \<Longrightarrow> lookup_from cur p s = resolve s cur (comps p)"
proof (induction cur p s rule: lookup_from.induct)
  case (1 cur p s)
  show ?case
  proof (cases "p = []")
    case True
    then show ?thesis by (simp add: lookup_from.simps comps_def)
  next
    case False
    let ?n = "takeWhile (\<lambda>c. c \<noteq> CHR ''/'') p" and ?r = "skip_slashes (dropWhile (\<lambda>c. c \<noteq> CHR ''/'') p)"
    have hd: "hd p \<noteq> CHR ''/''" using 1(2) False by blast
    have r: "?r = [] \<or> hd ?r \<noteq> CHR ''/''" using skip_slashes_hd by (cases ?r) auto
    have rec: "lookup_from (dir_find cur ?n s) ?r s = resolve s (dir_find cur ?n s) (comps ?r)"
      if "\<not> VFS_NAME_MAX \<le> length ?n" "n_type (nodes s cur) = VFS_DIR" "dir_find cur ?n s \<noteq> NULL"
      using 1(1) [OF False refl refl that(1) _ refl that(3) r] that(2) by simp
    show ?thesis
      unfolding comps_step [OF False hd]
      using False rec by (subst lookup_from.simps) (simp add: Let_def)
  qed
qed

lemma vfs_lookup_resolve: "vfs_lookup path s = resolve s (g_root s) (comps path)"
proof (cases "skip_slashes path = []")
  case True
  then show ?thesis using comps_Nil_iff [of path] by (simp add: vfs_lookup_def)
next
  case False
  then have "hd (skip_slashes path) \<noteq> CHR ''/''" using skip_slashes_hd by (cases "skip_slashes path") auto
  with False show ?thesis
    using lookup_from_resolve [of "skip_slashes path" "g_root s" s] by (simp add: vfs_lookup_def comps_skip_slashes)
qed

lemma resolve_append:
  "resolve s cur (xs @ [c]) =
     (if xs \<noteq> [] \<and> resolve s cur xs = NULL then NULL else resolve s (resolve s cur xs) [c])"
  by (induction xs arbitrary: cur) auto

lemma last_slash_snoc: "last_slash i b (xs @ [c]) = (if c = CHR ''/'' then Some (i + length xs) else last_slash i b xs)"
  by (induction xs arbitrary: i b) auto

lemma last_slash_None: "last_slash 0 None p = None \<longleftrightarrow> CHR ''/'' \<notin> set p"
  by (induction p rule: rev_induct) (auto simp: last_slash_snoc)

lemma last_slash_bound: "last_slash 0 None p = Some d \<Longrightarrow> d < length p"
  by (induction p rule: rev_induct) (auto simp: last_slash_snoc split: if_splits)

lemma last_slash_split:
  "last_slash 0 None p = Some d \<Longrightarrow>
     p = take d p @ CHR ''/'' # drop (Suc d) p \<and> CHR ''/'' \<notin> set (drop (Suc d) p)"
proof (induction p rule: rev_induct)
  case (snoc c p)
  show ?case
  proof (cases "c = CHR ''/''")
    case False
    then have "last_slash 0 None p = Some d" using snoc(2) by (simp add: last_slash_snoc)
    with snoc(1) last_slash_bound [OF this] False show ?thesis by (simp del: append_assoc)
  qed (use snoc(2) in \<open>simp add: last_slash_snoc\<close>)
qed simp

text \<open>A path that splits is its directory followed by one more component, the name.\<close>

lemma path_split_comps:
  assumes "path_split path ds ns = Some (dir, name)" "path \<noteq> []"
  shows "comps path = comps dir @ [name]" "name \<noteq> []" "CHR ''/'' \<notin> set name" "length name < ns"
proof -
  have w: "words [] n = [n]" if "CHR ''/'' \<notin> set n" "n \<noteq> []" for n
    using words_no_slash [OF that(1), of "[]" "[]"] that(2) by simp
  have root: "comps ''/'' = []" by (simp add: comps_def)
  have "comps path = comps dir @ [name] \<and> name \<noteq> [] \<and> CHR ''/'' \<notin> set name \<and> length name < ns"
  proof (cases "last_slash 0 None path")
    case None
    then have "CHR ''/'' \<notin> set path" by (simp add: last_slash_None)
    with None assms root w [of path] show ?thesis by (auto simp: path_split_def comps_def split: if_splits)
  next
    case (Some d)
    note sp = last_slash_split [OF Some]
    have n: "name = drop (Suc d) path" "name \<noteq> []" "length name < ns"
        "dir = (if d = 0 then ''/'' else take d path)"
      using assms(1) Some by (auto simp: path_split_def Let_def split: if_splits)
    have "comps path = comps (take d path) @ comps name"
      unfolding n(1) by (subst conjunct1 [OF sp]) (simp only: comps_def words_append_slash)
    moreover have "comps name = [name]" using sp n(1,2) w [of name] by (simp add: comps_def)
    moreover have "comps (take d path) = comps dir" using n(4) root by (auto simp: comps_def)
    ultimately show ?thesis using n sp by simp
  qed
  then show "comps path = comps dir @ [name]" "name \<noteq> []" "CHR ''/'' \<notin> set name" "length name < ns" by auto
qed

section \<open>The shape of the tree\<close>

text \<open>The sibling list starting at \<open>n\<close> is \<open>xs\<close>.\<close>

fun sibs :: "'a vfs_scheme \<Rightarrow> u64 \<Rightarrow> u64 list \<Rightarrow> bool" where
  "sibs s n [] \<longleftrightarrow> n = NULL"
| "sibs s n (x # xs) \<longleftrightarrow> n = x \<and> x \<noteq> NULL \<and> sibs s (n_sibling (nodes s x)) xs"

text \<open>
  The tree over the node set \<open>N\<close>: every node has its list of children (empty for a file or device),
  names are distinct within a directory, no node has two parents, and the root has none.
\<close>

definition tree_inv :: "u64 set \<Rightarrow> (u64 \<Rightarrow> u64 list) \<Rightarrow> 'a vfs_scheme \<Rightarrow> bool" where
  "tree_inv N kids s \<longleftrightarrow>
     g_root s \<in> N \<and> NULL \<notin> N \<and>
     (\<forall>d\<in>N. sibs s (n_child (nodes s d)) (kids d) \<and> distinct (kids d) \<and> set (kids d) \<subseteq> N - {g_root s} \<and>
        distinct (map (\<lambda>n. n_name (nodes s n)) (kids d)) \<and>
        (n_type (nodes s d) \<noteq> VFS_DIR \<longrightarrow> kids d = [])) \<and>
     (\<forall>d\<in>N. \<forall>d'\<in>N. \<forall>n. n \<in> set (kids d) \<longrightarrow> n \<in> set (kids d') \<longrightarrow> d = d')"

lemma tree_invD:
  assumes "tree_inv N kids s" "d \<in> N"
  shows "sibs s (n_child (nodes s d)) (kids d)" "distinct (kids d)" "set (kids d) \<subseteq> N" "g_root s \<notin> set (kids d)"
    "distinct (map (\<lambda>n. n_name (nodes s n)) (kids d))" "n_type (nodes s d) \<noteq> VFS_DIR \<Longrightarrow> kids d = []"
  using assms by (auto simp: tree_inv_def)

lemma tree_inv_parent:
  "tree_inv N kids s \<Longrightarrow> d \<in> N \<Longrightarrow> d' \<in> N \<Longrightarrow> n \<in> set (kids d) \<Longrightarrow> n \<in> set (kids d') \<Longrightarrow> d = d'"
  unfolding tree_inv_def by blast

lemma find_sibling_sibs:
  "sibs s n xs \<Longrightarrow>
     find_sibling name n s = Some (case find (\<lambda>x. n_name (nodes s x) = name) xs of Some x \<Rightarrow> x | None \<Rightarrow> NULL)"
  by (induction xs arbitrary: n) (simp_all add: find_sibling.simps)

lemma dir_find_kids:
  assumes "tree_inv N kids s" "d \<in> N"
  shows "dir_find d name s = (case find (\<lambda>x. n_name (nodes s x) = name) (kids d) of Some x \<Rightarrow> x | None \<Rightarrow> NULL)"
  using assms find_sibling_sibs [of s "n_child (nodes s d)" "kids d" name]
  by (auto simp: tree_inv_def dir_find_def)

lemma dir_find_found:
  assumes "tree_inv N kids s" "d \<in> N" "dir_find d name s = n" "n \<noteq> NULL"
  shows "n \<in> set (kids d)" "n \<in> N" "n_name (nodes s n) = name" "n \<noteq> g_root s"
proof -
  obtain x where x: "find (\<lambda>x. n_name (nodes s x) = name) (kids d) = Some x" "x = n"
    using assms by (auto simp: dir_find_kids split: option.splits)
  then show "n \<in> set (kids d)" "n_name (nodes s n) = name" by (auto simp: find_Some_iff)
  then show "n \<in> N" "n \<noteq> g_root s" using assms(1,2) by (auto simp: tree_inv_def)
qed

lemma dir_find_missing:
  assumes "tree_inv N kids s" "d \<in> N" "dir_find d name s = NULL" "x \<in> set (kids d)"
  shows "n_name (nodes s x) \<noteq> name"
proof -
  have "NULL \<notin> set (kids d)" using assms(1,2) by (auto simp: tree_inv_def)
  then have "find (\<lambda>x. n_name (nodes s x) = name) (kids d) = None"
    using assms(3) unfolding dir_find_kids [OF assms(1,2)]
    by (auto simp: find_Some_iff split: option.splits) (metis nth_mem)
  then show ?thesis using assms(4) by (auto simp: find_None_iff)
qed

lemma resolve_in_tree:
  assumes "tree_inv N kids s"
  shows "cur \<in> N \<Longrightarrow> resolve s cur cs \<noteq> NULL \<Longrightarrow> resolve s cur cs \<in> N"
  by (induction cs arbitrary: cur) (auto dest: dir_find_found [OF assms] split: if_splits)

lemma resolve_root: "tree_inv N kids s \<Longrightarrow> resolve s (g_root s) cs \<noteq> NULL \<Longrightarrow> resolve s (g_root s) cs \<in> N"
  using resolve_in_tree [of N kids s "g_root s" cs] by (simp add: tree_inv_def)

lemma resolve_snocD:
  assumes "tree_inv N kids s" "resolve s (g_root s) (xs @ [x]) = n" "n \<noteq> NULL"
  shows "resolve s (g_root s) xs \<noteq> NULL" "resolve s (g_root s) xs \<in> N" "dir_find (resolve s (g_root s) xs) x s = n"
proof -
  have r: "g_root s \<noteq> NULL" using assms(1) by (auto simp: tree_inv_def)
  with assms(2,3) show a: "resolve s (g_root s) xs \<noteq> NULL" by (cases "xs = []") (auto simp: resolve_append)
  then show "resolve s (g_root s) xs \<in> N" by (rule resolve_root [OF assms(1)])
  show "dir_find (resolve s (g_root s) xs) x s = n" using assms(2,3) a by (auto simp: resolve_append split: if_splits)
qed

text \<open>A node has one path.\<close>

lemma resolve_inj:
  assumes t: "tree_inv N kids s"
  shows "resolve s (g_root s) xs = resolve s (g_root s) ys \<Longrightarrow> resolve s (g_root s) xs \<noteq> NULL \<Longrightarrow> xs = ys"
proof (induction xs arbitrary: ys rule: rev_induct)
  case Nil
  show ?case
  proof (cases ys rule: rev_cases)
    case (snoc zs z)
    have "dir_find (resolve s (g_root s) zs) z s = g_root s" "resolve s (g_root s) zs \<in> N"
      using resolve_snocD [OF t, of zs z] Nil snoc by auto
    then show ?thesis using dir_find_found(4) [OF t, of _ z "g_root s"] Nil by auto
  qed simp
next
  case (snoc x xs)
  let ?n = "resolve s (g_root s) (xs @ [x])"
  note n = resolve_snocD [OF t refl snoc(3)]
  note fn = dir_find_found [OF t n(2) n(3) snoc(3)]
  show ?case
  proof (cases ys rule: rev_cases)
    case Nil
    with snoc(2) fn(4) show ?thesis by simp
  next
    case ys: (snoc zs z)
    have e: "resolve s (g_root s) (zs @ [z]) = ?n" using snoc(2) ys by simp
    note m = resolve_snocD [OF t e snoc(3)]
    note fm = dir_find_found [OF t m(2) m(3) snoc(3)]
    have "resolve s (g_root s) xs = resolve s (g_root s) zs"
      using t n(2) m(2) fn(1) fm(1) by (auto simp: tree_inv_def)
    then have "xs = zs" using snoc(1) n(1) by simp
    then show ?thesis using fn(3) fm(3) ys by simp
  qed
qed


subsection \<open>Changing one entry of one directory\<close>

text \<open>
  If only the entry \<open>c\<close> of the directory at \<open>cs\<close> changes, from an entry with nothing below it to the
  leaf \<open>w\<close>, then exactly the path to that entry resolves differently.
\<close>

lemma resolve_change:
  assumes t: "tree_inv N kids s" and root: "g_root s' = g_root s"
    and p: "resolve s (g_root s) cs = p" "p \<noteq> NULL"
    and pd: "n_type (nodes s p) = VFS_DIR" "length c < VFS_NAME_MAX"
    and types: "\<And>d. d \<in> N \<Longrightarrow> n_type (nodes s' d) = n_type (nodes s d)"
    and find: "\<And>d x. d \<in> N \<Longrightarrow> dir_find d x s' = (if d = p \<and> x = c then w else dir_find d x s)"
    and before: "\<And>x. resolve s (g_root s) (cs @ [c] @ [x]) = NULL"
    and after: "\<And>x. w \<noteq> NULL \<Longrightarrow> dir_find w x s' = NULL"
  shows "resolve s' (g_root s') q = (if q = cs @ [c] then w else resolve s (g_root s) q)"
proof (induction q rule: rev_induct)
  case (snoc x xs)
  show ?case
  proof (cases "xs = cs @ [c]")
    case True
    then have "resolve s' (g_root s') xs = w" using snoc by simp
    then have "resolve s' (g_root s') (xs @ [x]) = NULL"
      using after True by (subst resolve_append) auto
    with True before [of x] show ?thesis by simp
  next
    case False
    then have xs: "resolve s' (g_root s') xs = resolve s (g_root s) xs" using snoc by simp
    show ?thesis
    proof (cases "resolve s (g_root s) xs = NULL")
      case True
      then have "xs \<noteq> []" using t by (auto simp: tree_inv_def)
      with True xs p show ?thesis by (auto simp: resolve_append)
    next
      case nn: False
      then have d: "resolve s (g_root s) xs \<in> N" by (rule resolve_root [OF t])
      have "xs = cs \<longleftrightarrow> resolve s (g_root s) xs = p" using resolve_inj [OF t, of xs cs] p nn by auto
      then show ?thesis using nn xs types [OF d] find [OF d, of x] pd by (auto simp: resolve_append)
    qed
  qed
qed (simp add: root)

lemma sibs_cong: "(\<And>x. x \<in> set xs \<Longrightarrow> n_sibling (nodes s' x) = n_sibling (nodes s x)) \<Longrightarrow> sibs s' n xs = sibs s n xs"
  by (induction xs arbitrary: n) auto

text \<open>Attaching a fresh node to a directory.\<close>

lemma tree_inv_attach:
  assumes t: "tree_inv N kids s" and p: "p \<in> N" "n_type (nodes s p) = VFS_DIR"
    and v: "v \<notin> N" "v \<noteq> NULL" and c: "dir_find p c s = NULL"
    and init: "n_child init = NULL" "n_name init = c"
    and s': "g_root s' = g_root s"
      "nodes s' = (nodes s)(v := init\<lparr>n_parent := p, n_sibling := n_child (nodes s p)\<rparr>,
                            p := (nodes s p)\<lparr>n_child := v\<rparr>)"
  shows "tree_inv (insert v N) (kids(p := v # kids p, v := [])) s'"
proof -
  have vp: "v \<noteq> p" using v p by blast
  have vk: "v \<notin> set (kids d)" if "d \<in> N" for d using t v that by (auto simp: tree_inv_def)
  have sib: "n_sibling (nodes s' x) = n_sibling (nodes s x)" "n_name (nodes s' x) = n_name (nodes s x)" if "x \<noteq> v" for x
    using that by (auto simp: s')
  have keep: "sibs s' n (kids d) = sibs s n (kids d)"
      "map (\<lambda>n. n_name (nodes s' n)) (kids d) = map (\<lambda>n. n_name (nodes s n)) (kids d)" if "d \<in> N" for n d
    using vk [OF that] by (intro sibs_cong sib(1) map_cong refl sib(2); blast)+
  have child: "n_child (nodes s' d) = n_child (nodes s d)" if "d \<noteq> p" "d \<noteq> v" for d using that by (simp add: s')
  have type: "n_type (nodes s' d) = n_type (nodes s d)" if "d \<noteq> v" for d using that by (simp add: s')
  have vs: "n_name (nodes s' v) = c" "n_sibling (nodes s' v) = n_child (nodes s p)" "n_child (nodes s' v) = NULL"
      "n_child (nodes s' p) = v"
    using vp by (simp_all add: s' init)
  have nv: "c \<notin> n_name ` nodes s ` set (kids p)"
    using dir_find_missing [OF t p(1) c] by auto
  have g: "g_root s \<noteq> v" using t v by (auto simp: tree_inv_def)
  have d: "sibs s' (n_child (nodes s' d)) (if d = p then v # kids p else kids d) \<and>
      distinct (if d = p then v # kids p else kids d) \<and>
      set (if d = p then v # kids p else kids d) \<subseteq> insert v N - {g_root s'} \<and>
      distinct (map (\<lambda>n. n_name (nodes s' n)) (if d = p then v # kids p else kids d)) \<and>
      (n_type (nodes s' d) \<noteq> VFS_DIR \<longrightarrow> (if d = p then v # kids p else kids d) = [])" if "d \<in> N" for d
  proof -
    have "d \<noteq> v" using that v by blast
    then show ?thesis
      using t that p v vs g nv vk [OF that] type [of d] child [of d]
      by (auto simp: tree_inv_def keep s'(1) image_image)
  qed
  show ?thesis
    unfolding tree_inv_def using t v vp d p vs(3) g vk s'(1)
    by (auto simp: tree_inv_def)
qed


text \<open>Unlinking a node that has no children.\<close>

lemma sibs_unlink:
  assumes "nodes s' = (nodes s)(last xs := (nodes s (last xs))\<lparr>n_sibling := n_sibling (nodes s v)\<rparr>)"
  shows "sibs s n (xs @ v # ys) \<Longrightarrow> xs \<noteq> [] \<Longrightarrow> distinct (xs @ v # ys) \<Longrightarrow> sibs s' n (xs @ ys)"
  using assms
proof (induction xs arbitrary: n)
  case (Cons x xs)
  show ?case
  proof (cases "xs = []")
    case True
    have "sibs s' (n_sibling (nodes s v)) ys = sibs s (n_sibling (nodes s v)) ys"
      using Cons True by (intro sibs_cong) auto
    with Cons True show ?thesis by simp
  next
    case False
    then have "n_sibling (nodes s' x) = n_sibling (nodes s x)" using Cons(4,5) last_in_set [OF False] by auto
    with Cons False show ?thesis by simp
  qed
qed simp

lemma find_append: "find f (xs @ ys) = (case find f xs of Some x \<Rightarrow> Some x | None \<Rightarrow> find f ys)"
  by (induction xs) auto

lemma distinct_map_skip: "distinct (map f (xs @ v # ys)) \<Longrightarrow> distinct (map f (xs @ ys))"
  by simp

lemma tree_inv_detach:
  assumes t: "tree_inv N kids s" and p: "p \<in> N" "kids p = xs @ v # ys" and v: "kids v = []"
    and s': "g_root s' = g_root s"
      "nodes s' = (if xs = [] then (nodes s)(p := (nodes s p)\<lparr>n_child := n_sibling (nodes s v)\<rparr>)
                   else (nodes s)(last xs := (nodes s (last xs))\<lparr>n_sibling := n_sibling (nodes s v)\<rparr>))"
  shows "tree_inv (N - {v}) (kids(p := xs @ ys)) s'"
proof -
  have same: "n_type (nodes s' d) = n_type (nodes s d)" "n_name (nodes s' d) = n_name (nodes s d)" for d
    by (auto simp: s'(2))
  have vp: "v \<noteq> p" using p v by auto
  have pk: "sibs s (n_child (nodes s p)) (xs @ v # ys)" "distinct (xs @ v # ys)"
    using tree_invD(1,2) [OF t p(1)] p(2) by simp_all
  have "sibs s' (n_child (nodes s' p)) (xs @ ys)"
  proof (cases "xs = []")
    case True
    have "sibs s' (n_sibling (nodes s v)) ys = sibs s (n_sibling (nodes s v)) ys"
      by (intro sibs_cong) (simp add: s' True)
    with True pk s' show ?thesis by simp
  next
    case False
    then show ?thesis using sibs_unlink [of s' s xs v _ ys] pk s'(2) by auto
  qed
  moreover have "sibs s' (n_child (nodes s' d)) (kids d)" if "d \<in> N" "d \<noteq> p" for d
  proof -
    have l: "last xs \<notin> set (kids d)" if x: "xs \<noteq> []"
      using tree_inv_parent [OF t \<open>d \<in> N\<close> p(1), of "last xs"] \<open>d \<noteq> p\<close> last_in_set [OF x] p(2) by auto
    have "sibs s' n (kids d) = sibs s n (kids d)" for n using l by (intro sibs_cong) (auto simp: s'(2))
    then show ?thesis using tree_invD(1) [OF t that(1)] that(2) by (auto simp: s'(2))
  qed
  moreover have "v \<notin> set (kids d)" if "d \<in> N" "d \<noteq> p" for d
    using tree_inv_parent [OF t that(1) p(1), of v] that(2) p(2) by auto
  moreover define K where "K = kids(p := xs @ ys)"
  moreover have sub: "set (K d) \<subseteq> set (kids d)" "distinct (K d)" "distinct (map (\<lambda>n. n_name (nodes s n)) (K d))" if "d \<in> N" for d
    using tree_invD(2,5) [OF t that] p(2) distinct_map_skip [of _ xs v ys] by (auto simp: K_def simp del: map_append)
  ultimately have d: "sibs s' (n_child (nodes s' d)) (K d)" "v \<notin> set (K d)" if "d \<in> N" for d
    using that pk(2) by auto
  have "v \<in> set (kids p)" using p(2) by simp
  then have v': "v \<noteq> g_root s" using tree_invD(4) [OF t p(1)] by blast
  have "set (K d) \<subseteq> N - {v} - {g_root s}" if "d \<in> N" for d
    using sub(1) [OF that] d(2) [OF that] tree_invD(3,4) [OF t that] by blast
  moreover have "K d = []" if "d \<in> N" "n_type (nodes s d) \<noteq> VFS_DIR" for d
    using sub(1) [OF that(1)] tree_invD(6) [OF t that] by simp
  moreover have "d = d'" if "d \<in> N" "d' \<in> N" "n \<in> set (K d)" "n \<in> set (K d')" for d d' n
    using tree_inv_parent [OF t that(1,2)] sub(1) that by blast
  ultimately show ?thesis
    unfolding tree_inv_def K_def [symmetric] same s'(1) using t sub(2,3) d(1) v' by (simp add: tree_inv_def)
qed

lemma dir_find_detach:
  assumes t: "tree_inv N kids s" and p: "p \<in> N" "kids p = xs @ v # ys" and v: "kids v = []"
    and t': "tree_inv (N - {v}) (kids(p := xs @ ys)) s'"
    and names: "\<And>d. n_name (nodes s' d) = n_name (nodes s d)" and child: "n_child (nodes s' v) = NULL"
    and d: "d \<in> N"
  shows "dir_find d x s' = (if d = p \<and> x = n_name (nodes s v) then NULL else dir_find d x s)"
proof (cases "d = v")
  case True
  then show ?thesis using dir_find_kids [OF t d] child p v by (auto simp: dir_find_def find_sibling.simps)
next
  case False
  then have f: "dir_find d x s' = (case find (\<lambda>y. n_name (nodes s y) = x) (if d = p then xs @ ys else kids d) of
      Some x \<Rightarrow> x | None \<Rightarrow> NULL)"
    using dir_find_kids [OF t', of d x] d by (auto simp: names)
  have "n_name (nodes s v) \<notin> (\<lambda>n. n_name (nodes s n)) ` set (xs @ ys)"
  proof -
    have "distinct (map (\<lambda>n. n_name (nodes s n)) (xs @ v # ys))"
      using tree_invD(5) [OF t p(1)] p(2) by simp
    then show ?thesis by auto
  qed
  then have none: "find (\<lambda>y. n_name (nodes s y) = n_name (nodes s v)) (xs @ ys) = None"
    unfolding find_None_iff by (metis imageI)
  show ?thesis
    using f dir_find_kids [OF t d, of x] p(2) none by (auto simp: find_append split: option.splits)
qed

section \<open>Creation and removal on the tree\<close>

lemma vfs_more_heap:
  "heap.more s' = heap.more s \<Longrightarrow> nodes s' = nodes s \<and> files s' = files s \<and> pipes s' = pipes s \<and> g_root s' = g_root s \<and>
    cur_task s' = cur_task s \<and> task_fds s' = task_fds s \<and> vfs.more s' = vfs.more s"
  by (cases s; cases s') simp

lemmas kalloc_vfs = vfs_more_heap [OF kalloc_more]
lemmas krelease_vfs = vfs_more_heap [OF krelease_more]

lemma create_node_success:
  assumes "create_node path init s = (n, s')" "n \<noteq> NULL"
  obtains dir name s1 where "path_split path 256 VFS_NAME_MAX = Some (dir, name)" "vfs_lookup dir s \<noteq> NULL"
    "n_type (nodes s (vfs_lookup dir s)) = VFS_DIR" "dir_find (vfs_lookup dir s) name s = NULL"
    "kalloc 144 s = (n, s1)"
    "s' = snd (dir_attach (vfs_lookup dir s) n (upd_node n (\<lambda>_. init\<lparr>n_name := name\<rparr>) s1))"
proof -
  obtain m s1 where k: "kalloc 144 s = (m, s1)" by (cases "kalloc 144 s")
  then show thesis
    using assms that
    by (auto simp: create_node_def Let_def dir_attach_def split: option.splits if_splits)
qed

lemma create_node_failure:
  assumes "create_node path init s = (NULL, s')"
  shows "heap.more s' = heap.more s"
proof -
  obtain m s1 where k: "kalloc 144 s = (m, s1)" by (cases "kalloc 144 s")
  moreover have "heap.more s1 = heap.more s" using kalloc_more [of 144 s] k by simp
  ultimately show ?thesis
    using assms by (auto simp: create_node_def Let_def dir_attach_def split: option.splits if_splits)
qed

lemma dir_attach_nodes:
  assumes "v \<noteq> d"
  shows "nodes (snd (dir_attach d v (upd_node v (\<lambda>_. init) s))) =
      (nodes s)(v := init\<lparr>n_parent := d, n_sibling := n_child (nodes s d)\<rparr>, d := (nodes s d)\<lparr>n_child := v\<rparr>)"
    "g_root (snd (dir_attach d v (upd_node v (\<lambda>_. init) s))) = g_root s"
  using assms by (auto simp: dir_attach_def upd_node_def Let_def)

lemma dir_find_attach:
  assumes t: "tree_inv N kids s" and t': "tree_inv (insert v N) (kids(p := v # kids p, v := [])) s'"
    and p: "p \<in> N" "v \<notin> N" and names: "\<And>d. d \<in> N \<Longrightarrow> n_name (nodes s' d) = n_name (nodes s d)"
    and name: "n_name (nodes s' v) = c" and d: "d \<in> N"
  shows "dir_find d x s' = (if d = p \<and> x = c then v else dir_find d x s)"
proof -
  have "find (\<lambda>y. n_name (nodes s' y) = x) (kids d) = find (\<lambda>y. n_name (nodes s y) = x) (kids d)"
    using tree_invD(3) [OF t d] names by (intro find_cong) auto
  then show ?thesis
    using dir_find_kids [OF t d, of x] dir_find_kids [OF t', of d x] d p name by auto
qed

lemma path_split_name: "path_split path ds ns = Some (dir, name) \<Longrightarrow> length name < ns"
  by (auto simp: path_split_def Let_def split: option.splits if_splits)

lemma create_node_resolve:
  assumes t: "tree_inv N kids s" and c: "create_node path init s = (n, s')"
    and n: "n \<noteq> NULL" "n \<notin> N" and init: "n_child init = NULL"
  obtains p dir name where "p \<in> N" "path_split path 256 VFS_NAME_MAX = Some (dir, name)" "vfs_lookup dir s = p"
    "resolve s (g_root s) (comps dir @ [name]) = NULL"
    "tree_inv (insert n N) (kids(p := n # kids p, n := [])) s'"
    "\<And>q. resolve s' (g_root s') q = (if q = comps dir @ [name] then n else resolve s (g_root s) q)"
    "nodes s' = (nodes s)(n := init\<lparr>n_name := name, n_parent := p, n_sibling := n_child (nodes s p)\<rparr>,
       p := (nodes s p)\<lparr>n_child := n\<rparr>)"
proof -
  obtain dir name s1 where sp: "path_split path 256 VFS_NAME_MAX = Some (dir, name)" and p: "vfs_lookup dir s \<noteq> NULL"
    and ty: "n_type (nodes s (vfs_lookup dir s)) = VFS_DIR" and miss: "dir_find (vfs_lookup dir s) name s = NULL"
    and k: "kalloc 144 s = (n, s1)"
    and s': "s' = snd (dir_attach (vfs_lookup dir s) n (upd_node n (\<lambda>_. init\<lparr>n_name := name\<rparr>) s1))"
    using create_node_success [OF c n(1)] .
  define p where "p = vfs_lookup dir s"
  have pN: "p \<in> N" "p \<noteq> NULL" using resolve_root [OF t, of "comps dir"] p by (auto simp: p_def vfs_lookup_resolve)
  have k': "nodes s1 = nodes s" "g_root s1 = g_root s" using kalloc_vfs [of 144 s] k by simp_all
  have np: "n \<noteq> p" using n pN by blast
  have nodes: "nodes s' = (nodes s)(n := init\<lparr>n_name := name, n_parent := p, n_sibling := n_child (nodes s p)\<rparr>,
       p := (nodes s p)\<lparr>n_child := n\<rparr>)" and root: "g_root s' = g_root s"
    using dir_attach_nodes [OF np, of "init\<lparr>n_name := name\<rparr>" s1] by (simp_all add: s' k' p_def)
  have t': "tree_inv (insert n N) (kids(p := n # kids p, n := [])) s'"
    using tree_inv_attach [OF t pN(1) _ n(2,1), of name "init\<lparr>n_name := name\<rparr>"] ty miss init nodes root by (simp add: p_def)
  have find: "dir_find d x s' = (if d = p \<and> x = name then n else dir_find d x s)" if "d \<in> N" for d x
    using n np by (intro dir_find_attach [OF t t' pN(1) n(2) _ _ that]) (auto simp: nodes)
  have nl: "dir_find n x s' = NULL" for x using dir_find_kids [OF t', of n x] by simp
  have ext: "resolve s (g_root s) (comps dir @ [name]) = NULL"
    using miss by (simp add: resolve_append vfs_lookup_resolve)
  have "resolve s (g_root s) (comps dir @ [name] @ [x]) = NULL" for x
    using resolve_append [of s "g_root s" "comps dir @ [name]" x] ext by simp
  then have "resolve s' (g_root s') q = (if q = comps dir @ [name] then n else resolve s (g_root s) q)" for q
    using ty path_split_name [OF sp] n nl pN find
    by (intro resolve_change [OF t root _ pN(2)]) (auto simp: p_def vfs_lookup_resolve nodes)
  with pN(1) sp ext t' nodes show thesis by (intro that [of p dir name]) (simp_all add: p_def)
qed

lemma create_node_tree:
  assumes t: "tree_inv N kids s" and path: "path \<noteq> []" and c: "create_node path init s = (n, s')"
    and n: "n \<noteq> NULL" "n \<notin> N" and init: "n_child init = NULL"
  obtains p where "p \<in> N" "vfs_lookup path s = NULL"
    "tree_inv (insert n N) (kids(p := n # kids p, n := [])) s'"
    "\<And>q. vfs_lookup q s' = (if comps q = comps path then n else vfs_lookup q s)"
    "nodes s' = (nodes s)(n := init\<lparr>n_name := last (comps path), n_parent := p, n_sibling := n_child (nodes s p)\<rparr>,
       p := (nodes s p)\<lparr>n_child := n\<rparr>)"
proof (rule create_node_resolve [OF t c n init])
  fix p dir name assume p: "p \<in> N" "path_split path 256 VFS_NAME_MAX = Some (dir, name)"
    "resolve s (g_root s) (comps dir @ [name]) = NULL" "tree_inv (insert n N) (kids(p := n # kids p, n := [])) s'"
    "\<And>q. resolve s' (g_root s') q = (if q = comps dir @ [name] then n else resolve s (g_root s) q)"
    "nodes s' = (nodes s)(n := init\<lparr>n_name := name, n_parent := p, n_sibling := n_child (nodes s p)\<rparr>,
       p := (nodes s p)\<lparr>n_child := n\<rparr>)"
  note cp = path_split_comps [OF p(2) path]
  show thesis using p by (intro that [of p]) (simp_all add: vfs_lookup_resolve cp(1))
qed

text \<open>\<open>path_split\<close> accepts the empty path and yields the empty name. The node created for it is linked
  into the root directory, but no path leads to it.\<close>

lemma words_nonempty: "[] \<notin> set (words w p)"
  by (induction w p rule: words.induct) auto

theorem create_empty_name_unreachable:
  assumes t: "tree_inv N kids s" and c: "create_node [] init s = (n, s')"
    and n: "n \<noteq> NULL" "n \<notin> N" and init: "n_child init = NULL"
  shows "vfs_lookup q s' = vfs_lookup q s \<and> n_child (nodes s' (g_root s)) = n"
proof (rule create_node_resolve [OF t c n init])
  fix p dir name assume p: "p \<in> N" "path_split [] 256 VFS_NAME_MAX = Some (dir, name)" "vfs_lookup dir s = p"
    "\<And>q. resolve s' (g_root s') q = (if q = comps dir @ [name] then n else resolve s (g_root s) q)"
    "nodes s' = (nodes s)(n := init\<lparr>n_name := name, n_parent := p, n_sibling := n_child (nodes s p)\<rparr>,
       p := (nodes s p)\<lparr>n_child := n\<rparr>)"
  have d: "dir = ''/''" "name = []" using p(2) by (simp_all add: path_split_def VFS_NAME_MAX_def)
  then have "n_child (nodes s' (g_root s)) = n" using p(3,5) by (simp add: vfs_lookup_def skip_slashes_def)
  moreover have "vfs_lookup q s' = vfs_lookup q s"
    using p(4) words_nonempty [of "[]" q] d(2) by (auto simp: vfs_lookup_resolve comps_def)
  ultimately show ?thesis by blast
qed

subsection \<open>The walk of \<open>vfs_remove\<close>\<close>

definition nlink :: "u64 \<Rightarrow> u64 list \<Rightarrow> node_link" where
  "nlink d xs = (if xs = [] then NChild d else NSibling (last xs))"

lemma sibs_drop: "sibs s n (xs @ ys) \<Longrightarrow> xs \<noteq> [] \<Longrightarrow> sibs s (n_sibling (nodes s (last xs))) ys"
proof (induction xs arbitrary: n)
  case (Cons x xs)
  show ?case using Cons(1) [of "n_sibling (nodes s x)"] Cons(2) by (cases "xs = []") simp_all
qed simp

lemma sibs_nlink: "sibs s (n_child (nodes s d)) (xs @ ys) \<Longrightarrow> sibs s (node_deref s (nlink d xs)) ys"
  using sibs_drop [of s "n_child (nodes s d)" xs ys] by (cases "xs = []") (simp_all add: nlink_def)

lemma nlink_snoc: "nlink d (xs @ [x]) = NSibling x"
  by (simp add: nlink_def)

lemma remove_walk_sibs:
  "sibs s (n_child (nodes s d)) (xs @ ys) \<Longrightarrow>
     remove_walk name (nlink d xs) s =
       Some (case find (\<lambda>x. n_name (nodes s x) = name) ys of
               None \<Rightarrow> (-1, s)
             | Some _ \<Rightarrow> remove_node (nlink d (xs @ takeWhile (\<lambda>x. n_name (nodes s x) \<noteq> name) ys)) s)"
proof (induction ys arbitrary: xs)
  case Nil
  then show ?case using sibs_nlink [OF Nil] by (simp add: remove_walk.simps)
next
  case (Cons y ys)
  note y = sibs_nlink [OF Cons(2)]
  then show ?case
    using Cons(1) [of "xs @ [y]"] Cons(2) by (subst remove_walk.simps) (auto simp: nlink_snoc split: option.split)
qed

lemma find_split:
  "find P xs = Some v \<Longrightarrow> \<exists>zs. xs = takeWhile (\<lambda>x. \<not> P x) xs @ v # zs \<and> P v"
  by (induction xs) (auto split: if_splits)

lemma remove_node_found:
  assumes "sibs s (n_child (nodes s p)) (xs @ v # ys)"
  shows "n_type (nodes s v) = VFS_DIR \<and> n_child (nodes s v) \<noteq> NULL \<Longrightarrow> remove_node (nlink p xs) s = (-1, s)"
    "n_type (nodes s v) \<noteq> VFS_DIR \<or> n_child (nodes s v) = NULL \<Longrightarrow>
       fst (remove_node (nlink p xs) s) = 0 \<and> nodes (snd (remove_node (nlink p xs) s)) =
         (if xs = [] then (nodes s)(p := (nodes s p)\<lparr>n_child := n_sibling (nodes s v)\<rparr>)
          else (nodes s)(last xs := (nodes s (last xs))\<lparr>n_sibling := n_sibling (nodes s v)\<rparr>)) \<and>
       g_root (snd (remove_node (nlink p xs) s)) = g_root s"
proof -
  have v: "node_deref s (nlink p xs) = v" using sibs_nlink [OF assms] by simp
  show "n_type (nodes s v) = VFS_DIR \<and> n_child (nodes s v) \<noteq> NULL \<Longrightarrow> remove_node (nlink p xs) s = (-1, s)"
    by (simp add: remove_node_def v Let_def)
  show "n_type (nodes s v) \<noteq> VFS_DIR \<or> n_child (nodes s v) = NULL \<Longrightarrow>
       fst (remove_node (nlink p xs) s) = 0 \<and> nodes (snd (remove_node (nlink p xs) s)) =
         (if xs = [] then (nodes s)(p := (nodes s p)\<lparr>n_child := n_sibling (nodes s v)\<rparr>)
          else (nodes s)(last xs := (nodes s (last xs))\<lparr>n_sibling := n_sibling (nodes s v)\<rparr>)) \<and>
       g_root (snd (remove_node (nlink p xs) s)) = g_root s"
  proof -
    assume "n_type (nodes s v) \<noteq> VFS_DIR \<or> n_child (nodes s v) = NULL"
    then have "\<not> (n_type (nodes s v) = VFS_DIR \<and> n_child (nodes s v) \<noteq> NULL)" by blast
    then have "fst (remove_node (nlink p xs) s) = 0 \<and>
        heap.more (snd (remove_node (nlink p xs) s)) = heap.more (node_assign (nlink p xs) (n_sibling (nodes s v)) s)"
      by (simp only: remove_node_def v Let_def if_False fst_conv snd_conv krelease_more if_distrib [of heap.more] cong: if_cong) simp
    then show ?thesis using vfs_more_heap [of "snd (remove_node (nlink p xs) s)" "node_assign (nlink p xs) (n_sibling (nodes s v)) s"]
      by (simp add: nlink_def upd_node_def)
  qed
qed

text \<open>What \<open>vfs_remove\<close> does on a well-formed tree: the two outcomes.\<close>

lemma vfs_remove_cases:
  assumes t: "tree_inv N kids s" and path: "path \<noteq> []" and sp: "path_split path 256 VFS_NAME_MAX = Some (dir, name)"
  obtains (absent) "vfs_lookup path s = NULL" "vfs_remove path s = (-1, s)"
  | (full) "vfs_lookup path s \<in> N" "kids (vfs_lookup path s) \<noteq> []" "vfs_remove path s = (-1, s)"
  | (removed) p xs ys s' where "vfs_lookup path s \<in> N" "kids (vfs_lookup path s) = []" "p \<in> N"
      "resolve s (g_root s) (comps dir) = p" "n_type (nodes s p) = VFS_DIR"
      "kids p = xs @ vfs_lookup path s # ys" "n_name (nodes s (vfs_lookup path s)) = name"
      "vfs_remove path s = (0, s')" "g_root s' = g_root s"
      "nodes s' = (if xs = [] then (nodes s)(p := (nodes s p)\<lparr>n_child := n_sibling (nodes s (vfs_lookup path s))\<rparr>)
        else (nodes s)(last xs := (nodes s (last xs))\<lparr>n_sibling := n_sibling (nodes s (vfs_lookup path s))\<rparr>))"
proof -
  note cp = path_split_comps [OF sp path]
  let ?p = "vfs_lookup dir s"
  have look: "vfs_lookup path s = (if ?p = NULL \<or> n_type (nodes s ?p) \<noteq> VFS_DIR then NULL else dir_find ?p name s)"
  proof (cases "comps dir = []")
    case True
    with t have "?p \<noteq> NULL" by (auto simp: vfs_lookup_resolve tree_inv_def)
    with cp(4) show ?thesis by (simp add: vfs_lookup_resolve cp(1) True)
  qed (use cp(4) in \<open>simp add: vfs_lookup_resolve cp(1) resolve_append\<close>)
  show thesis
  proof (cases "?p = NULL \<or> n_type (nodes s ?p) \<noteq> VFS_DIR")
    case True
    then show ?thesis using look by (intro absent) (auto simp: vfs_remove_def sp)
  next
    case False
    then have pN: "?p \<in> N" using resolve_root [OF t] by (simp add: vfs_lookup_resolve)
    note walk = remove_walk_sibs [of s ?p "[]", simplified, OF tree_invD(1) [OF t pN], of name]
    have nl: "nlink ?p [] = NChild ?p" by (simp add: nlink_def)
    show ?thesis
    proof (cases "find (\<lambda>x. n_name (nodes s x) = name) (kids ?p)")
      case None
      then show ?thesis
        using False look walk dir_find_kids [OF t pN, of name] nl
        by (intro absent) (simp_all add: vfs_remove_def sp)
    next
      case (Some v)
      obtain xs ys where xy: "kids ?p = xs @ v # ys" "xs = takeWhile (\<lambda>x. n_name (nodes s x) \<noteq> name) (kids ?p)"
          and vn: "n_name (nodes s v) = name"
        using find_split [OF Some] by blast
      have v: "vfs_lookup path s = v" using look False dir_find_kids [OF t pN, of name] Some by simp
      have vN: "v \<in> N" using tree_invD(3) [OF t pN] xy(1) by auto
      have ch: "n_type (nodes s v) = VFS_DIR \<and> n_child (nodes s v) \<noteq> NULL \<longleftrightarrow> kids v \<noteq> []"
        using tree_invD(1,6) [OF t vN] by (cases "kids v") auto
      have rm: "vfs_remove path s = remove_node (nlink ?p xs) s"
        using False walk Some xy(2) nl by (simp add: vfs_remove_def sp)
      note found = remove_node_found [OF tree_invD(1) [OF t pN, unfolded xy(1)]]
      show ?thesis
      proof (cases "kids v = []")
        case True
        with ch have "n_type (nodes s v) \<noteq> VFS_DIR \<or> n_child (nodes s v) = NULL" by blast
        note f = found(2) [OF this]
        have "vfs_remove path s = (0, snd (remove_node (nlink ?p xs) s))"
          unfolding rm using f by (cases "remove_node (nlink ?p xs) s") simp
        from removed [OF vN [folded v] _ pN _ _ _ _ this] f True False xy(1) vn
        show ?thesis by (simp add: v vfs_lookup_resolve [of dir s, symmetric])
      next
        case False
        then show ?thesis using found(1) ch rm vN by (intro full) (simp_all add: v)
      qed
    qed
  qed
qed

text \<open>Lookups and well-formedness only depend on the nodes and the root.\<close>

lemma find_sibling_cong:
  fixes s s' :: "'a vfs_scheme"
  assumes "nodes s' = nodes s"
  shows "find_sibling name n s' = find_sibling name n s"
proof -
  have *: "find_sibling name n s = Some r \<Longrightarrow> nodes s = nodes s' \<longrightarrow> find_sibling name n s' = Some r"
    for n r and s s' :: "'a vfs_scheme"
    by (erule find_sibling.raw_induct [where P = "\<lambda>name n s r. nodes s = nodes s' \<longrightarrow> find_sibling name n s' = Some r", rotated])
      (subst find_sibling.simps, auto split: if_splits)
  show ?thesis using assms * [of n s _ s'] * [of n s' _ s] by (cases "find_sibling name n s"; cases "find_sibling name n s'") auto
qed

lemma tree_cong:
  fixes s s' :: "'a vfs_scheme"
  assumes "nodes s' = nodes s" "g_root s' = g_root s"
  shows "dir_find d x s' = dir_find d x s" "resolve s' d cs = resolve s d cs" "vfs_lookup q s' = vfs_lookup q s"
    "tree_inv N kids s' = tree_inv N kids s"
proof -
  show d: "dir_find d x s' = dir_find d x s" for d x
    using assms(1) find_sibling_cong [OF assms(1)] by (simp add: dir_find_def)
  show r: "resolve s' d cs = resolve s d cs" for d cs by (induction cs arbitrary: d) (simp_all add: d assms(1))
  show "vfs_lookup q s' = vfs_lookup q s" by (simp add: vfs_lookup_resolve r assms(2))
  have "sibs s' n xs = sibs s n xs" for n xs by (rule sibs_cong) (simp add: assms(1))
  then show "tree_inv N kids s' = tree_inv N kids s" by (simp add: tree_inv_def assms)
qed

text \<open>\<open>vfs_init\<close> establishes the invariant: a tree of the root alone.\<close>

lemma vfs_init_tree:
  assumes "g_root (vfs_init s) \<noteq> NULL"
  shows "tree_inv {g_root (vfs_init s)} (\<lambda>_. []) (vfs_init s)"
  using assms
  by (cases "kalloc 144 s") (auto simp: vfs_init_def Let_def tree_inv_def upd_node_def zero_node_def split: if_splits)

section \<open>Properties\<close>

text \<open>A root directory with one empty file \<open>a\<close>, both in live heap blocks, for the examples.\<close>

definition root_example :: u64 where "root_example = VMM_KHEAP_BASE + 24"
definition file_example :: u64 where "file_example = VMM_KHEAP_BASE + 2072"

definition vfs_example :: vfs where
  "vfs_example = pmm_init (Some [small_region]) 0
     \<lparr>g_bitmap = \<lambda>_. 0, g_total_frames = 0, g_allocated_frames = 0, g_hhdm_offset = 0, g_last_hint = 0,
      pt_mem = \<lambda>_. 0, r_cr3 = 0x100000, g_cr3 = 0x100000, g_root_cr3 = 0x100000,
      hmem = (\<lambda>_. 0)(VMM_KHEAP_BASE := 2024, VMM_KHEAP_BASE + 2048 := 2024), kbytes = \<lambda>_. 0, g_free = NULL,
      g_arena_next = VMM_KHEAP_BASE + 4096, g_arena_bytes = 4096,
      nodes = (\<lambda>_. zero_node)(root_example := zero_node\<lparr>n_name := ''/'', n_type := VFS_DIR, n_child := file_example\<rparr>,
        file_example := zero_node\<lparr>n_name := ''a'', n_type := VFS_FILE, n_parent := root_example\<rparr>),
      files = \<lambda>_. \<lparr>f_node = 0, f_pipe = 0, f_pos = 0, f_flags = 0, f_refs = 0\<rparr>,
      pipes = \<lambda>_. \<lparr>p_buf = [], p_head = 0, p_count = 0, p_refs_r = 0, p_refs_w = 0\<rparr>,
      g_root = root_example, cur_task = Some 0, task_fds = \<lambda>_ _. NULL\<rparr>"

lemma heap_more_pmm: "pmm.more s = pmm.more t \<Longrightarrow> heap.more s = heap.more t"
  using heap_more_vmm vmm_more_pmm by blast

lemma vfs_example_state:
  "hmem vfs_example = (\<lambda>_. 0)(VMM_KHEAP_BASE := 2024, VMM_KHEAP_BASE + 2048 := 2024)" "g_free vfs_example = NULL"
  "g_arena_next vfs_example = VMM_KHEAP_BASE + 4096"
  "nodes vfs_example = (\<lambda>_. zero_node)(root_example := zero_node\<lparr>n_name := ''/'', n_type := VFS_DIR, n_child := file_example\<rparr>,
        file_example := zero_node\<lparr>n_name := ''a'', n_type := VFS_FILE, n_parent := root_example\<rparr>)"
  "g_root vfs_example = root_example" "cur_task vfs_example = Some 0" "task_fds vfs_example = (\<lambda>_ _. NULL)"
  "files vfs_example = (\<lambda>_. \<lparr>f_node = 0, f_pipe = 0, f_pos = 0, f_flags = 0, f_refs = 0\<rparr>)"
  by (simp_all add: vfs_example_def heap_fields_more [OF vmm_more_pmm [OF pmm_init_more]]
      vfs_more_heap [OF heap_more_pmm [OF pmm_init_more]])

lemma vfs_example_tree:
  "tree_inv {root_example, file_example} ((\<lambda>_. [])(root_example := [file_example])) vfs_example"
  by (auto simp: tree_inv_def vfs_example_state root_example_def file_example_def VMM_KHEAP_BASE_def zero_node_def
      VFS_DIR_def VFS_FILE_def)

lemma vfs_example_heap: "live_inv {root_example, file_example} vfs_example" "arena_room vfs_example"
proof -
  have "b_size vfs_example VMM_KHEAP_BASE = 2024" "b_size vfs_example (VMM_KHEAP_BASE + 2048) = 2024"
    by (simp_all add: b_size_def vfs_example_state)
  then have "heap_rep [] {VMM_KHEAP_BASE, VMM_KHEAP_BASE + 2048} vfs_example"
    by (simp add: heap_rep_def blocks_ok_def block_ok_def vfs_example_state VMM_KHEAP_BASE_def pairwise_def extent_def)
  then show "live_inv {root_example, file_example} vfs_example"
    by (simp add: live_inv_def heap_inv_def root_example_def file_example_def HEADER_SIZE_def add.commute) blast
  show "arena_room vfs_example" by (simp add: arena_room_def vfs_example_state VMM_KHEAP_BASE_def)
qed

text \<open>C15: \<open>vfs_lookup\<close>, which scans the path in place, agrees with resolving the list of its
  non-empty components one after the other from the root: repeated, leading and trailing slashes do not matter.\<close>

theorem vfs_lookup_components:
  "vfs_lookup path s = resolve s (g_root s) (comps path)"
  by (rule vfs_lookup_resolve)

lemma live_inv_attach:
  "live_inv P (snd (dir_attach d v (upd_node v f s))) = live_inv P s"
  by (rule live_inv_fields) (simp_all add: dir_attach_def upd_node_def Let_def)

lemma create_node_heap:
  assumes inv: "live_inv P s" "arena_room s" and c: "create_node path init s = (n, s')"
  shows "n = NULL \<and> live_inv P s' \<or> n \<noteq> NULL \<and> n \<notin> P \<and> live_inv (insert n P) s'"
proof -
  obtain m s1 where k: "kalloc 144 s = (m, s1)" by (cases "kalloc 144 s")
  have f: "m = NULL \<and> live_inv P s1 \<or> m \<noteq> NULL \<and> m \<notin> P \<and> live_inv (insert m P) s1"
    using kheap.alloc_fresh [OF inv _ k] by simp
  show ?thesis
  proof (cases "n = NULL")
    case True
    have "s' = s \<or> s' = s1 \<and> m = NULL"
      using c k True by (auto simp: create_node_def Let_def dir_attach_def split: option.splits if_splits)
    then show ?thesis using f inv(1) True by auto
  next
    case False
    from create_node_success [OF c False] obtain dir name where
      "kalloc 144 s = (n, s1)" "s' = snd (dir_attach (vfs_lookup dir s) n (upd_node n (\<lambda>_. init\<lparr>n_name := name\<rparr>) s1))"
      using k by (metis prod.inject)
    then show ?thesis using f k False by (simp add: live_inv_attach)
  qed
qed

lemma create_node_null:
  assumes "create_node path init s = (NULL, s')"
    and "path_split path 256 VFS_NAME_MAX = Some (dir, name)" "path \<noteq> []" "vfs_lookup path s = NULL"
    and "vfs_lookup dir s \<noteq> NULL" "n_type (nodes s (vfs_lookup dir s)) = VFS_DIR"
  shows "fst (kalloc 144 s) = NULL"
proof -
  have "dir_find (vfs_lookup dir s) name s = NULL"
    using assms(4-6) path_split_comps [OF assms(2,3)]
    by (cases "comps dir = []") (auto simp: vfs_lookup_resolve resolve_append split: if_splits)
  then show ?thesis
    using assms by (cases "kalloc 144 s") (auto simp: create_node_def Let_def dir_attach_def split: if_splits)
qed

text \<open>C16: creating a directory, file or device either returns NULL and leaves the tree as it was, or adds
  exactly one node: its address is fresh, the given path and no other now leads to it, every other path
  leads where it did before, and tree and heap stay well-formed. It fails only if the path does not split,
  its directory is missing, the path exists, or memory is exhausted.\<close>

theorem vfs_create_correct:
  assumes "tree_inv N kids s" "live_inv P s" "N \<subseteq> P" "arena_room s" "path \<noteq> []"
    and c: "(n, s') \<in> {vfs_create_dir path s, vfs_create_file path s, vfs_create_device path ops priv s}"
  shows "n = NULL \<and> (\<forall>q. vfs_lookup q s' = vfs_lookup q s) \<and> tree_inv N kids s' \<and> live_inv P s' \<and>
           (case path_split path 256 VFS_NAME_MAX of None \<Rightarrow> True
            | Some (dir, name) \<Rightarrow> vfs_lookup path s \<noteq> NULL \<or> vfs_lookup dir s = NULL \<or>
                n_type (nodes s (vfs_lookup dir s)) \<noteq> VFS_DIR \<or> fst (kalloc 144 s) = NULL) \<or>
         n \<noteq> NULL \<and> n \<notin> P \<and> vfs_lookup path s = NULL \<and>
           (\<forall>q. vfs_lookup q s' = (if comps q = comps path then n else vfs_lookup q s)) \<and>
           (\<exists>kids'. tree_inv (insert n N) kids' s') \<and> live_inv (insert n P) s' \<and>
           n_name (nodes s' n) = last (comps path) \<and> n_size (nodes s' n) = 0 \<and>
           ((n, s') = vfs_create_dir path s \<longrightarrow> n_type (nodes s' n) = VFS_DIR) \<and>
           ((n, s') = vfs_create_file path s \<longrightarrow> n_type (nodes s' n) = VFS_FILE) \<and>
           ((n, s') = vfs_create_device path ops priv s \<longrightarrow> n_type (nodes s' n) = VFS_DEVICE \<and> n_ops (nodes s' n) = ops)"
proof -
  let ?leaf = "\<lambda>init. create_node path init s = (n, s') \<and> n_child init = NULL \<and> n_size init = 0"
  have "\<exists>init. ?leaf init" if "(n, s') = create_node path i s" "n_child i = NULL" "n_size i = 0" for i
    using that by metis
  then have leaf: "\<exists>init. ?leaf init"
    using c unfolding vfs_create_dir_def vfs_create_file_def vfs_create_device_def
    by (elim insertE emptyE) (auto simp: zero_node_def)
  have node: "n_type (nodes s' n) = n_type init \<and> n_ops (nodes s' n) = n_ops init"
    if "create_node path init s = (n, s')" "n_child init = NULL" "n \<noteq> NULL" "n \<notin> N" for init
  proof (rule create_node_tree [OF assms(1,5) that(1,3,4,2)])
    fix p assume p: "p \<in> N" "nodes s' = (nodes s)(n := init\<lparr>n_name := last (comps path), n_parent := p,
      n_sibling := n_child (nodes s p)\<rparr>, p := (nodes s p)\<lparr>n_child := n\<rparr>)"
    then have "n \<noteq> p" using that(4) by blast
    then show ?thesis by (simp add: p(2))
  qed
  obtain init where i: "?leaf init" using leaf by blast
  note h = create_node_heap [OF assms(2,4), of path init n s']
  show ?thesis
  proof (cases "n = NULL")
    case True
    note m = vfs_more_heap [OF create_node_failure [of path init s s']]
    have "vfs_lookup q s' = vfs_lookup q s" "tree_inv N kids s' = tree_inv N kids s" for q
      using tree_cong(3,4) [of s' s] m i True by simp_all
    then show ?thesis
      using True h i create_node_null [of path init s s'] assms(1,5) by (auto split: option.splits)
  next
    case False
    then have nP: "n \<notin> N" using h i assms(3) by auto
    show ?thesis
    proof (rule create_node_tree [OF assms(1,5) _ False nP, of init])
      fix p assume p: "p \<in> N" "vfs_lookup path s = NULL"
        "tree_inv (insert n N) (kids(p := n # kids p, n := [])) s'"
        "\<And>q. vfs_lookup q s' = (if comps q = comps path then n else vfs_lookup q s)"
        "nodes s' = (nodes s)(n := init\<lparr>n_name := last (comps path), n_parent := p, n_sibling := n_child (nodes s p)\<rparr>,
           p := (nodes s p)\<lparr>n_child := n\<rparr>)"
      have "n \<noteq> p" using p(1) nP by blast
      then have "n_name (nodes s' n) = last (comps path)" "n_size (nodes s' n) = 0" using i p(5) by simp_all
      moreover have "(n, s') = vfs_create_dir path s \<longrightarrow> n_type (nodes s' n) = VFS_DIR"
        "(n, s') = vfs_create_file path s \<longrightarrow> n_type (nodes s' n) = VFS_FILE"
        "(n, s') = vfs_create_device path ops priv s \<longrightarrow> n_type (nodes s' n) = VFS_DEVICE \<and> n_ops (nodes s' n) = ops"
        using node False nP by (auto simp: vfs_create_dir_def vfs_create_file_def vfs_create_device_def zero_node_def)
      ultimately show ?thesis using False h i p(2,3,4) by blast
    qed (use i in auto)
  qed
qed

theorem vfs_create_correct_witness:
  "\<exists>n s'. vfs_create_file ''/b'' vfs_example = (n, s') \<and> n \<noteq> NULL \<and>
     (\<forall>q. vfs_lookup q s' = (if comps q = [''b''] then n else vfs_lookup q vfs_example))"
proof -
  obtain n s' where c: "vfs_create_file ''/b'' vfs_example = (n, s')" by fastforce
  obtain p t where k: "kalloc 144 vfs_example = (p, t)" by (cases "kalloc 144 vfs_example")
  have "pmm_inv vfs_example" "free_addrs vfs_example \<noteq> {}"
    by (simp_all add: vfs_example_def small_region_init free_addrs_def)
  then have frame: "fst (pmm_alloc_frame vfs_example) \<noteq> 0" using pmm.alloc_zero_iff by blast
  have "heap_inv ((\<lambda>p. p - HEADER_SIZE) ` {root_example, file_example}) vfs_example"
    using vfs_example_heap(1) by (simp add: live_inv_def)
  from kalloc_cases [OF this _ vfs_example_heap(2) k] frame have nn: "p \<noteq> NULL" by force
  have sp: "path_split ''/b'' 256 VFS_NAME_MAX = Some (''/'', ''b'')" by (simp add: path_split_def VFS_NAME_MAX_def)
  have cb: "comps ''/b'' = [''b'']" by (simp add: comps_def)
  have lk: "vfs_lookup ''/b'' vfs_example = NULL" "vfs_lookup ''/'' vfs_example = root_example"
    using dir_find_kids [OF vfs_example_tree, of root_example "''b''"]
    by (simp_all add: vfs_lookup_resolve comps_def vfs_example_state zero_node_def file_example_def root_example_def)
  have r: "root_example \<noteq> NULL" "n_type (nodes vfs_example root_example) = VFS_DIR"
    by (simp_all add: root_example_def file_example_def VMM_KHEAP_BASE_def vfs_example_state)
  show ?thesis
    using vfs_create_correct [OF vfs_example_tree vfs_example_heap(1) subset_refl vfs_example_heap(2), of "''/b''" n s'] c nn lk r
    by (auto simp: sp cb k)
qed



end
