(* ===== verification/Vfs_File.thy ===== *)
theory Vfs_File
  imports Vfs_Tree
begin

text \<open>
  Open files of \<open>kernel/vfs/vfs.c\<close>: descriptor tables, reference counts, pipes, file contents, directory
  listing. User buffers are passed by value: a read returns the bytes it stores, a write takes the bytes,
  and a NULL buffer is \<open>False\<close> or \<open>None\<close>. The drivers behind \<open>struct file_ops\<close> are arguments; the theory of
  the devices supplies them. A pipe write that waits is the outcome \<open>Hlt\<close> with the number of bytes transferred so far.
\<close>

section \<open>Descriptors\<close>

definition upd_file :: "u64 \<Rightarrow> (vfs_file \<Rightarrow> vfs_file) \<Rightarrow> 'a vfs_scheme \<Rightarrow> 'a vfs_scheme" where
  "upd_file f g s = s\<lparr>files := (files s)(f := g (files s f))\<rparr>"

definition upd_pipe :: "u64 \<Rightarrow> (vfs_pipe \<Rightarrow> vfs_pipe) \<Rightarrow> 'a vfs_scheme \<Rightarrow> 'a vfs_scheme" where
  "upd_pipe p g s = s\<lparr>pipes := (pipes s)(p := g (pipes s p))\<rparr>"

definition set_fd :: "nat \<Rightarrow> nat \<Rightarrow> u64 \<Rightarrow> 'a vfs_scheme \<Rightarrow> 'a vfs_scheme" where
  "set_fd t i f s = s\<lparr>task_fds := (task_fds s)(t := (task_fds s t)(i := f))\<rparr>"

definition write_end :: "vfs_file \<Rightarrow> bool" where
  "write_end f \<longleftrightarrow> f_flags f AND O_WRONLY \<noteq> 0"

definition count_end :: "vfs_file \<Rightarrow> int \<Rightarrow> vfs_pipe \<Rightarrow> vfs_pipe" where
  "count_end f d p = (if write_end f then p\<lparr>p_refs_w := p_refs_w p + d\<rparr> else p\<lparr>p_refs_r := p_refs_r p + d\<rparr>)"

definition file_ref :: "u64 \<Rightarrow> 'a vfs_scheme \<Rightarrow> 'a vfs_scheme" where
  "file_ref f s =
     (let s = upd_file f (\<lambda>v. v\<lparr>f_refs := f_refs v + 1\<rparr>) s; v = files s f
      in if f_pipe v \<noteq> NULL then upd_pipe (f_pipe v) (count_end v 1) s else s)"

definition file_unref :: "u64 \<Rightarrow> 'a vfs_scheme \<Rightarrow> 'a vfs_scheme" where
  "file_unref f s =
     (let v = files s f; p = f_pipe v;
          s = (if p \<noteq> NULL then upd_pipe p (count_end v (-1)) s else s);
          s = upd_file f (\<lambda>v. v\<lparr>f_refs := f_refs v - 1\<rparr>) s
      in if f_refs (files s f) = 0
         then krelease f (if p \<noteq> NULL \<and> p_refs_r (pipes s p) = 0 \<and> p_refs_w (pipes s p) = 0 then krelease p s else s)
         else s)"

definition fd_alloc :: "u64 \<Rightarrow> 'a vfs_scheme \<Rightarrow> klong \<times> 'a vfs_scheme" where
  "fd_alloc f s =
     (case cur_task s of
        None \<Rightarrow> (- EBADF, s)
      | Some t \<Rightarrow>
          (case find (\<lambda>i. task_fds s t i = NULL) [3..<VFS_MAX_FDS] of
             Some i \<Rightarrow> (int i, set_fd t i f s)
           | None \<Rightarrow> (- ENOMEM, s)))"

definition fd_valid :: "klong \<Rightarrow> bool" where
  "fd_valid fd \<longleftrightarrow> 0 \<le> fd \<and> fd < int VFS_MAX_FDS"

definition fd_get :: "klong \<Rightarrow> 'a vfs_scheme \<Rightarrow> u64" where
  "fd_get fd s =
     (case cur_task s of
        None \<Rightarrow> NULL
      | Some t \<Rightarrow> if fd_valid fd then task_fds s t (nat fd) else NULL)"

text \<open>The part of \<open>vfs_open\<close> after the node is known and may be opened.\<close>

definition open_node :: "u64 \<Rightarrow> u32 \<Rightarrow> 'a vfs_scheme \<Rightarrow> klong \<times> 'a vfs_scheme" where
  "open_node node flags s =
     (let s = (if n_type (nodes s node) = VFS_FILE \<and> flags AND O_TRUNC \<noteq> 0
               then upd_node node (n_size_update (\<lambda>_. 0)) s else s);
          (f, s) = kalloc 32 s
      in if f = NULL then (- ENOMEM, s)
         else fd_alloc f (upd_file f (\<lambda>_. \<lparr>f_node = node, f_pipe = NULL,
                f_pos = (if flags AND O_APPEND \<noteq> 0 then n_size (nodes s node) else 0),
                f_flags = flags, f_refs = 1\<rparr>) s))"

definition vfs_open :: "string option \<Rightarrow> u32 \<Rightarrow> 'a vfs_scheme \<Rightarrow> klong \<times> 'a vfs_scheme" where
  "vfs_open path flags s =
     (case path of
        None \<Rightarrow> (- EINVAL, s)
      | Some path \<Rightarrow>
          (let node = vfs_lookup path s;
               (node, s) = (if node = NULL \<and> flags AND O_CREAT \<noteq> 0 then vfs_create_file path s else (node, s))
           in if node = NULL then (- ENOENT, s)
              else if n_type (nodes s node) = VFS_DIR \<and> flags AND (O_WRONLY OR O_RDWR) \<noteq> 0 then (- EISDIR, s)
              else open_node node flags s))"

definition vfs_close :: "klong \<Rightarrow> 'a vfs_scheme \<Rightarrow> klong \<times> 'a vfs_scheme" where
  "vfs_close fd s =
     (case cur_task s of
        None \<Rightarrow> (- EBADF, s)
      | Some t \<Rightarrow>
          if \<not> fd_valid fd \<or> task_fds s t (nat fd) = NULL then (- EBADF, s)
          else let f = task_fds s t (nat fd)
               in (0, file_unref f (set_fd t (nat fd) NULL s)))"

definition vfs_dup :: "klong \<Rightarrow> 'a vfs_scheme \<Rightarrow> klong \<times> 'a vfs_scheme" where
  "vfs_dup oldfd s =
     (case cur_task s of
        None \<Rightarrow> (- EBADF, s)
      | Some t \<Rightarrow>
          if \<not> fd_valid oldfd \<or> task_fds s t (nat oldfd) = NULL then (- EBADF, s)
          else case find (\<lambda>i. task_fds s t i = NULL) [0..<VFS_MAX_FDS] of
                 Some i \<Rightarrow> (let s = set_fd t i (task_fds s t (nat oldfd)) s
                            in (int i, file_ref (task_fds s t (nat oldfd)) s))
               | None \<Rightarrow> (- ENOMEM, s))"

definition vfs_dup2 :: "klong \<Rightarrow> klong \<Rightarrow> 'a vfs_scheme \<Rightarrow> klong \<times> 'a vfs_scheme" where
  "vfs_dup2 oldfd newfd s =
     (case cur_task s of
        None \<Rightarrow> (- EBADF, s)
      | Some t \<Rightarrow>
          if \<not> fd_valid oldfd \<or> task_fds s t (nat oldfd) = NULL then (- EBADF, s)
          else if \<not> fd_valid newfd then (- EBADF, s)
          else if oldfd = newfd then (newfd, s)
          else let s = (if task_fds s t (nat newfd) \<noteq> NULL then file_unref (task_fds s t (nat newfd)) s else s);
                   s = set_fd t (nat newfd) (task_fds s t (nat oldfd)) s
               in (newfd, file_ref (task_fds s t (nat oldfd)) s))"

definition zero_pipe :: vfs_pipe where
  "zero_pipe = \<lparr>p_buf = replicate PIPE_BUF_SIZE 0, p_head = 0, p_count = 0, p_refs_r = 0, p_refs_w = 0\<rparr>"

definition release_all :: "u64 list \<Rightarrow> 'a vfs_scheme \<Rightarrow> 'a vfs_scheme" where
  "release_all ps s = fold krelease ps s"

text \<open>On success the result carries the two descriptors stored in \<open>fds\<close>.\<close>

definition vfs_pipe_fds :: "'a vfs_scheme \<Rightarrow> (klong \<times> (klong \<times> klong) option) \<times> 'a vfs_scheme" where
  "vfs_pipe_fds s =
     (case cur_task s of
        None \<Rightarrow> ((- EBADF, None), s)
      | Some t \<Rightarrow>
          (let (p, s) = kalloc 4120 s
           in if p = NULL then ((- ENOMEM, None), s)
              else
                let s = upd_pipe p (\<lambda>_. zero_pipe\<lparr>p_refs_r := 1, p_refs_w := 1\<rparr>) s;
                    (r, s) = kalloc 32 s;
                    (w, s) = kalloc 32 s
                in if r = NULL \<or> w = NULL then ((- ENOMEM, None), release_all [r, w, p] s)
                   else
                     let s = upd_file r (\<lambda>_. \<lparr>f_node = NULL, f_pipe = p, f_pos = 0, f_flags = O_RDONLY, f_refs = 1\<rparr>) s;
                         s = upd_file w (\<lambda>_. \<lparr>f_node = NULL, f_pipe = p, f_pos = 0, f_flags = O_WRONLY, f_refs = 1\<rparr>) s;
                         (a, s) = fd_alloc r s;
                         (b, s) = fd_alloc w s
                     in if a < 0 \<or> b < 0
                        then let s = (if a \<ge> 0 then set_fd t (nat a) NULL s else s);
                                 s = (if b \<ge> 0 then set_fd t (nat b) NULL s else s)
                             in ((- ENOMEM, None), release_all [r, w, p] s)
                        else ((0, Some (a, b)), s)))"

definition vfs_close_all :: "'a vfs_scheme \<Rightarrow> 'a vfs_scheme" where
  "vfs_close_all s =
     (case cur_task s of
        None \<Rightarrow> s
      | Some t \<Rightarrow>
          fold (\<lambda>i s. if task_fds s t i \<noteq> NULL then set_fd t i NULL (file_unref (task_fds s t i) s) else s)
            [0..<VFS_MAX_FDS] s)"

text \<open>The tables are those of the tasks \<open>dst\<close> and \<open>src\<close>.\<close>

definition vfs_fd_inherit :: "nat \<Rightarrow> nat \<Rightarrow> 'a vfs_scheme \<Rightarrow> 'a vfs_scheme" where
  "vfs_fd_inherit dst src s =
     fold (\<lambda>i s. let s = set_fd dst i NULL s
                 in if task_fds s src i \<noteq> NULL
                    then file_ref (task_fds s src i) (set_fd dst i (task_fds s src i) s) else s)
       [0..<VFS_MAX_FDS] s"

section \<open>Pipes\<close>

text \<open>\<open>memcpy\<close> of \<open>xs\<close> into the array \<open>b\<close> at position \<open>i\<close>.\<close>

definition splice :: "'b list \<Rightarrow> nat \<Rightarrow> 'b list \<Rightarrow> 'b list" where
  "splice b i xs = take i b @ xs @ drop (i + length xs) b"

definition pipe_read :: "vfs_pipe \<Rightarrow> nat \<Rightarrow> (klong \<times> u8 list, vfs_pipe) io" where
  "pipe_read p cnt =
     (if p_count p = 0 then (if p_refs_w p = 0 then Ret (0, []) p else Hlt 0 p)
      else
        let n = (if cnt < p_count p then cnt else p_count p);
            first = PIPE_BUF_SIZE - p_head p;
            out = (if n > first then take first (drop (p_head p) (p_buf p)) @ take (n - first) (p_buf p)
                   else take n (drop (p_head p) (p_buf p)))
        in Ret (int n, out) (p\<lparr>p_head := (p_head p + n) mod PIPE_BUF_SIZE, p_count := p_count p - n\<rparr>))"

text \<open>One chunk of \<open>pipe_write\<close>, and its loop; \<open>tot\<close> is the C variable \<open>total\<close>. The buffer never holds more
  than \<open>PIPE_BUF_SIZE\<close> bytes, so the test for a full buffer is an inequality here.\<close>

definition pipe_chunk :: "vfs_pipe \<Rightarrow> u8 list \<Rightarrow> nat \<Rightarrow> nat \<times> vfs_pipe" where
  "pipe_chunk p buf tot =
     (let free = PIPE_BUF_SIZE - p_count p;
          n = (if length buf - tot < free then length buf - tot else free);
          wpos = (p_head p + p_count p) mod PIPE_BUF_SIZE;
          first = PIPE_BUF_SIZE - wpos;
          b = (if n > first
               then splice (splice (p_buf p) wpos (take first (drop tot buf))) 0 (take (n - first) (drop (tot + first) buf))
               else splice (p_buf p) wpos (take n (drop tot buf)))
      in (tot + n, p\<lparr>p_buf := b, p_count := p_count p + n\<rparr>))"

function pipe_write :: "vfs_pipe \<Rightarrow> u8 list \<Rightarrow> nat \<Rightarrow> (klong, vfs_pipe) io" where
  "pipe_write p buf tot =
     (if tot < length buf
      then if p_refs_r p = 0 then Ret (if tot > 0 then int tot else - EPIPE) p
           else if p_count p \<ge> PIPE_BUF_SIZE then Hlt tot p
           else let (tot', p') = pipe_chunk p buf tot in pipe_write p' buf tot'
      else Ret (int tot) p)"
  by pat_completeness auto
termination
  by (relation "measure (\<lambda>(p, buf, tot). length buf - tot)") (auto simp: pipe_chunk_def Let_def split: if_splits)

declare pipe_write.simps [simp del]

section \<open>File contents\<close>

definition load_bytes :: "u64 \<Rightarrow> nat \<Rightarrow> 'a heap_scheme \<Rightarrow> u8 list" where
  "load_bytes a n s = map (\<lambda>i. kbytes s (a + of_nat i)) [0..<n]"

definition store_bytes :: "u64 \<Rightarrow> u8 list \<Rightarrow> 'a heap_scheme \<Rightarrow> 'a heap_scheme" where
  "store_bytes a xs s = s\<lparr>kbytes := (\<lambda>x. if unat (x - a) < length xs then xs ! unat (x - a) else kbytes s x)\<rparr>"

definition file_read :: "u64 \<Rightarrow> u64 \<Rightarrow> 'a vfs_scheme \<Rightarrow> (klong \<times> u8 list) \<times> 'a vfs_scheme" where
  "file_read f cnt s =
     (let pos = f_pos (files s f); node = nodes s (f_node (files s f))
      in if pos \<ge> n_size node then ((0, []), s)
         else let avail = n_size node - pos;
                  cnt = (if cnt > avail then avail else cnt)
              in ((uint cnt, load_bytes (n_data node + pos) (unat cnt) s),
                  upd_file f (f_pos_update (\<lambda>p. p + cnt)) s))"

partial_function (option) grow_cap :: "u64 \<Rightarrow> u64 \<Rightarrow> u64 option" where
  "grow_cap newcap need = (if newcap < need then grow_cap (newcap * 2) need else Some newcap)"

text \<open>The growth both \<open>file_write\<close> and \<open>vfs_ftruncate\<close> begin with: whether the node now has room, \<open>None\<close> if
  the call does not return.\<close>

definition reserve :: "u64 \<Rightarrow> u64 \<Rightarrow> 'a vfs_scheme \<Rightarrow> (bool \<times> 'a vfs_scheme) option" where
  "reserve node need s =
     (let v = nodes s node
      in if need > n_capacity v
         then case grow_cap (if n_capacity v \<noteq> 0 then n_capacity v else 64) need of
                None \<Rightarrow> None
              | Some newcap \<Rightarrow>
                  (case krealloc (n_data v) newcap s of
                     None \<Rightarrow> None
                   | Some (fresh, s) \<Rightarrow>
                       if fresh = NULL then Some (False, s)
                       else Some (True, upd_node node (\<lambda>v. v\<lparr>n_data := fresh, n_capacity := newcap\<rparr>) s))
         else Some (True, s))"

definition file_write :: "u64 \<Rightarrow> u8 list \<Rightarrow> 'a vfs_scheme \<Rightarrow> (klong, 'a vfs_scheme) io" where
  "file_write f buf s =
     (let cnt = of_nat (length buf); pos = f_pos (files s f); node = f_node (files s f)
      in case reserve node (pos + cnt) s of
           None \<Rightarrow> Loop
         | Some (False, s) \<Rightarrow> Ret (- ENOMEM) s
         | Some (True, s) \<Rightarrow>
             (let s = store_bytes (n_data (nodes s node) + pos) buf s;
                  s = upd_file f (f_pos_update (\<lambda>p. p + cnt)) s;
                  pos = f_pos (files s f);
                  s = (if pos > n_size (nodes s node) then upd_node node (n_size_update (\<lambda>_. pos)) s else s)
              in Ret (int (length buf)) s))"

definition vfs_ftruncate :: "klong \<Rightarrow> klong \<Rightarrow> 'a vfs_scheme \<Rightarrow> (klong, 'a vfs_scheme) io" where
  "vfs_ftruncate fd len s =
     (let f = fd_get fd s; node = f_node (files s f)
      in if f = NULL \<or> f_pipe (files s f) \<noteq> NULL \<or> n_type (nodes s node) \<noteq> VFS_FILE then Ret (- EBADF) s
         else if len < 0 then Ret (- EINVAL) s
         else let need = word_of_int len
              in if need < n_size (nodes s node) then Ret 0 (upd_node node (n_size_update (\<lambda>_. need)) s)
                 else case reserve node need s of
                        None \<Rightarrow> Loop
                      | Some (False, s) \<Rightarrow> Ret (- ENOMEM) s
                      | Some (True, s) \<Rightarrow>
                          (let v = nodes s node
                           in if need > n_size v
                              then Ret 0 (upd_node node (n_size_update (\<lambda>_. need))
                                     (store_bytes (n_data v + n_size v) (replicate (unat (need - n_size v)) 0) s))
                              else Ret 0 s))"

section \<open>The calls on descriptors\<close>

text \<open>A driver's \<open>read\<close>, \<open>write\<close> and \<open>ioctl\<close>, given its private pointer; \<open>None\<close> is a missing operation.\<close>

type_synonym 's drv_read = "file_ops \<Rightarrow> (u64 \<Rightarrow> u64 \<Rightarrow> u64 \<Rightarrow> 's \<Rightarrow> (klong \<times> u8 list, 's) io) option"
type_synonym 's drv_write = "file_ops \<Rightarrow> (u64 \<Rightarrow> u8 list \<Rightarrow> u64 \<Rightarrow> 's \<Rightarrow> (klong, 's) io) option"
type_synonym 's drv_ioctl = "file_ops \<Rightarrow> (u64 \<Rightarrow> u64 \<Rightarrow> u8 list option \<Rightarrow> 's \<Rightarrow> (klong \<times> u8 list) \<times> 's) option"

definition advance :: "u64 \<Rightarrow> klong \<Rightarrow> 'a vfs_scheme \<Rightarrow> 'a vfs_scheme" where
  "advance f n s = (if n > 0 then upd_file f (f_pos_update (\<lambda>p. p + word_of_int n)) s else s)"

definition vfs_read :: "'a vfs_scheme drv_read \<Rightarrow> klong \<Rightarrow> bool \<Rightarrow> u64 \<Rightarrow> 'a vfs_scheme \<Rightarrow> (klong \<times> u8 list, 'a vfs_scheme) io" where
  "vfs_read drv fd buf cnt s =
     (let f = fd_get fd s; v = files s f
      in if f = NULL then Ret (- EBADF, []) s
         else if \<not> buf then Ret (- EINVAL, []) s
         else if f_flags v AND 3 = O_WRONLY then Ret (- EBADF, []) s
         else if f_pipe v \<noteq> NULL
         then case pipe_read (pipes s (f_pipe v)) (unat cnt) of
                Ret r p \<Rightarrow> Ret r (upd_pipe (f_pipe v) (\<lambda>_. p) s)
              | Hlt n p \<Rightarrow> Hlt n (upd_pipe (f_pipe v) (\<lambda>_. p) s)
              | Loop \<Rightarrow> Loop
         else let node = nodes s (f_node v)
              in if n_type node = VFS_FILE then (let (r, s) = file_read f cnt s in Ret r s)
                 else if n_type node = VFS_DEVICE
                 then case drv (n_ops node) of
                        None \<Rightarrow> Ret (- EIO, []) s
                      | Some rd \<Rightarrow>
                          (case rd (n_priv node) cnt (f_pos v) s of
                             Ret (n, out) s \<Rightarrow> Ret (n, out) (advance f n s)
                           | r \<Rightarrow> r)
                 else Ret (- EISDIR, []) s)"

definition vfs_pread :: "klong \<Rightarrow> bool \<Rightarrow> u64 \<Rightarrow> u64 \<Rightarrow> 'a vfs_scheme \<Rightarrow> klong \<times> u8 list" where
  "vfs_pread fd buf cnt offset s =
     (let f = fd_get fd s; v = files s f; node = nodes s (f_node v)
      in if f = NULL then (- EBADF, [])
         else if \<not> buf then (- EINVAL, [])
         else if f_pipe v \<noteq> NULL \<or> n_type node \<noteq> VFS_FILE then (- EISDIR, [])
         else if offset \<ge> n_size node then (0, [])
         else let avail = n_size node - offset;
                  cnt = (if cnt > avail then avail else cnt)
              in (uint cnt, load_bytes (n_data node + offset) (unat cnt) s))"

definition vfs_write :: "'a vfs_scheme drv_write \<Rightarrow> klong \<Rightarrow> u8 list option \<Rightarrow> nat \<Rightarrow> 'a vfs_scheme \<Rightarrow> (klong, 'a vfs_scheme) io" where
  "vfs_write drv fd buf sent s =
     (let f = fd_get fd s; v = files s f
      in if f = NULL then Ret (- EBADF) s
         else case buf of
           None \<Rightarrow> Ret (- EINVAL) s
         | Some buf \<Rightarrow>
             if f_flags v AND 3 = O_RDONLY then Ret (- EBADF) s
             else if f_pipe v \<noteq> NULL
             then case pipe_write (pipes s (f_pipe v)) buf sent of
                    Ret r p \<Rightarrow> Ret r (upd_pipe (f_pipe v) (\<lambda>_. p) s)
                  | Hlt n p \<Rightarrow> Hlt n (upd_pipe (f_pipe v) (\<lambda>_. p) s)
                  | Loop \<Rightarrow> Loop
             else let node = nodes s (f_node v)
                  in if n_type node = VFS_FILE then file_write f buf s
                     else if n_type node = VFS_DEVICE
                     then case drv (n_ops node) of
                            None \<Rightarrow> Ret (- EIO) s
                          | Some wr \<Rightarrow>
                              (case wr (n_priv node) buf (f_pos v) s of
                                 Ret n s \<Rightarrow> Ret n (advance f n s)
                               | r \<Rightarrow> r)
                     else Ret (- EISDIR) s)"

definition vfs_ioctl :: "'a vfs_scheme drv_ioctl \<Rightarrow> klong \<Rightarrow> u64 \<Rightarrow> u8 list option \<Rightarrow> 'a vfs_scheme \<Rightarrow> (klong \<times> u8 list) \<times> 'a vfs_scheme" where
  "vfs_ioctl drv fd req arg s =
     (let f = fd_get fd s; v = files s f; node = nodes s (f_node v)
      in if f = NULL then ((- EBADF, []), s)
         else if f_pipe v \<noteq> NULL \<or> n_type node \<noteq> VFS_DEVICE then ((- ENOTTY, []), s)
         else case drv (n_ops node) of
                None \<Rightarrow> ((- ENOTTY, []), s)
              | Some ctl \<Rightarrow> ctl (n_priv node) req arg s)"

record vfs_dirent =
  d_name :: string
  d_type :: u32
  d_size :: u32
  d_mode :: u32

primrec readdir_skip :: "nat \<Rightarrow> u64 \<Rightarrow> 'a vfs_scheme \<Rightarrow> u64" where
  "readdir_skip 0 n s = n"
| "readdir_skip (Suc k) n s = (if n \<noteq> NULL then readdir_skip k (n_sibling (nodes s n)) s else n)"

definition dirent_of :: "vfs_node \<Rightarrow> vfs_dirent" where
  "dirent_of v = \<lparr>d_name = n_name v, d_type = n_type v, d_size = ucast (n_size v), d_mode = n_mode v\<rparr>"

text \<open>The bytes left in the buffer are \<open>room\<close>; \<open>sizeof(struct vfs_dirent)\<close> is 76.\<close>

function readdir_fill :: "nat \<Rightarrow> u64 \<Rightarrow> 'a vfs_scheme \<Rightarrow> vfs_dirent list" where
  "readdir_fill room n s =
     (if n \<noteq> NULL \<and> 76 \<le> room
      then dirent_of (nodes s n) # readdir_fill (room - 76) (n_sibling (nodes s n)) s
      else [])"
  by pat_completeness auto
termination
  by (relation "measure (\<lambda>(room, n, s). room)") auto

declare readdir_fill.simps [simp del]

definition vfs_readdir :: "klong \<Rightarrow> bool \<Rightarrow> u64 \<Rightarrow> 'a vfs_scheme \<Rightarrow> (klong \<times> vfs_dirent list) \<times> 'a vfs_scheme" where
  "vfs_readdir fd buf cnt s =
     (let f = fd_get fd s; v = files s f; node = nodes s (f_node v)
      in if f = NULL then ((- EBADF, []), s)
         else if f_pipe v \<noteq> NULL \<or> n_type node \<noteq> VFS_DIR then ((- ENOTDIR, []), s)
         else if \<not> buf then ((- EINVAL, []), s)
         else let n = readdir_skip (unat (f_pos v)) (n_child node) s;
                  out = readdir_fill (unat cnt) n s
              in ((76 * int (length out), out), upd_file f (f_pos_update (\<lambda>p. p + of_nat (length out))) s))"

end
