(* ===== verification/Rootfs.thy ===== *)
theory Rootfs
  imports Vfs_File
begin

text \<open>
  Mounting the root file system, \<open>kernel/vfs/rootfs.c\<close>: a tar archive in memory is read entry by entry and
  its directories and files are created in the tree. The image is the list of its bytes; \<open>None\<close> is a
  read behind its end. An archive written by the format's rules is replayed entry by entry.
\<close>

section \<open>The archive reader\<close>

abbreviation TAR_BLOCK :: nat where "TAR_BLOCK \<equiv> 512"

fun tar_octal_loop :: "u64 \<Rightarrow> u8 list \<Rightarrow> u64" where
  "tar_octal_loop v [] = v"
| "tar_octal_loop v (c # field) =
     (if 48 \<le> c \<and> c \<le> 55 then tar_octal_loop (push_bit 3 v OR ucast (c - 48)) field
      else if c = 32 \<or> c = 0 then tar_octal_loop v field
      else v)"

definition tar_octal :: "u8 list \<Rightarrow> u64" where
  "tar_octal field = tar_octal_loop 0 field"

text \<open>The argument is the image from the name on; the buffer has 101 characters.\<close>

definition tar_normalise :: "u8 list \<Rightarrow> string option" where
  "tar_normalise name =
     (let name = (if take 2 name = [46, 47] then drop 2 name else name);
          buf = takeWhile (\<lambda>b. b \<noteq> 0) (take 100 name);
          buf = rev (dropWhile (\<lambda>b. b = 47) (rev buf))
      in if buf = [] then None else Some (map byte_char buf))"

text \<open>The two kinds of entry that are extracted; the Boolean is whether the mount goes on.\<close>

definition mount_dir :: "string \<Rightarrow> u32 \<Rightarrow> 'a vfs_scheme \<Rightarrow> 'a vfs_scheme" where
  "mount_dir path mode s =
     (let (dir, s) = vfs_create_dir path s
      in if dir \<noteq> NULL \<and> mode \<noteq> 0 then upd_node dir (n_mode_update (\<lambda>_. mode)) s else s)"

definition mount_file :: "string \<Rightarrow> u32 \<Rightarrow> u8 list \<Rightarrow> 'a vfs_scheme \<Rightarrow> bool \<times> 'a vfs_scheme" where
  "mount_file path mode content s =
     (let (node, s) = vfs_create_file path s
      in if node = NULL then (False, s)
         else
           let s = (if mode \<noteq> 0 then upd_node node (n_mode_update (\<lambda>_. mode)) s else s);
               fsize = of_nat (length content)
           in if fsize > 0
              then let (d, s) = kalloc fsize s; s = upd_node node (n_data_update (\<lambda>_. d)) s
                   in if d = NULL then (False, upd_node node (n_size_update (\<lambda>_. 0)) s)
                      else (True, upd_node node (\<lambda>v. v\<lparr>n_size := fsize, n_capacity := fsize\<rparr>) (store_bytes d content s))
              else (True, s))"

definition mount_entry :: "char \<Rightarrow> string option \<Rightarrow> u32 \<Rightarrow> u8 list \<Rightarrow> 'a vfs_scheme \<Rightarrow> bool \<times> 'a vfs_scheme" where
  "mount_entry type path mode content s =
     (case path of
        None \<Rightarrow> (True, s)
      | Some path \<Rightarrow>
          if type = CHR ''5'' then (True, mount_dir path mode s)
          else if type = CHR ''0'' \<or> type = CHR 0x00 then mount_file path mode content s
          else (True, s))"

definition tar_padded :: "u64 \<Rightarrow> u64" where
  "tar_padded fsize = (fsize + 511) AND NOT 511"

text \<open>Whether the entry's data is copied: a regular file's whole data, even behind the end of the image.\<close>

definition tar_copies :: "char \<Rightarrow> string option \<Rightarrow> bool" where
  "tar_copies type path \<longleftrightarrow> path \<noteq> None \<and> (type = CHR ''0'' \<or> type = CHR 0x00)"

function mount_from :: "u8 list \<Rightarrow> 'a vfs_scheme \<Rightarrow> (int \<times> 'a vfs_scheme) option" where
  "mount_from p s =
     (if length p < TAR_BLOCK \<or> (\<forall>b \<in> set (take TAR_BLOCK p). b = 0) then Some (0, s)
      else
        let type = byte_char (p ! 156);
            fsize = tar_octal (take 12 (drop 124 p));
            mode = ucast (tar_octal (take 8 (drop 100 p)));
            path = tar_normalise p;
            next = TAR_BLOCK + unat (tar_padded fsize)
        in if tar_copies type path \<and> TAR_BLOCK + unat fsize > length p then None
           else case mount_entry type path mode (take (unat fsize) (drop TAR_BLOCK p)) s of
                  (False, s) \<Rightarrow> Some (-1, s)
                | (True, s) \<Rightarrow> if next > length p then Some (-1, s) else mount_from (drop next p) s)"
  by pat_completeness auto
termination
  by (relation "measure (\<lambda>(p, s). length p)") auto

declare mount_from.simps [simp del]

definition vfs_mount_rootfs :: "u8 list option \<Rightarrow> 'a vfs_scheme \<Rightarrow> (int \<times> 'a vfs_scheme) option" where
  "vfs_mount_rootfs img s =
     (case img of
        None \<Rightarrow> Some (-1, s)
      | Some img \<Rightarrow> if length img < TAR_BLOCK * 2 then Some (-1, s) else mount_from img s)"

section \<open>Archives\<close>

text \<open>An entry of an archive. The owner ids, the times with the checksum, and the fields after the type are
  not interpreted.\<close>

record tar_entry =
  te_name :: string
  te_mode :: nat
  te_type :: char
  te_data :: "u8 list"
  te_ids :: "u8 list"
  te_times :: "u8 list"
  te_tail :: "u8 list"

primrec octal :: "nat \<Rightarrow> nat \<Rightarrow> u8 list" where
  "octal 0 n = []"
| "octal (Suc k) n = octal k (n div 8) @ [of_nat (48 + n mod 8)]"

definition tar_header :: "tar_entry \<Rightarrow> u8 list" where
  "tar_header e = map char_byte (te_name e) @ replicate (100 - length (te_name e)) 0 @ octal 7 (te_mode e) @ [0] @ te_ids e @
     octal 11 (length (te_data e)) @ [0] @ te_times e @ [char_byte (te_type e)] @ te_tail e"

definition tar_block_pad :: "nat \<Rightarrow> nat" where
  "tar_block_pad n = (n + 511) div 512 * 512 - n"

definition tar_encode :: "tar_entry \<Rightarrow> u8 list" where
  "tar_encode e = tar_header e @ te_data e @ replicate (tar_block_pad (length (te_data e))) 0"

definition tar_archive :: "tar_entry list \<Rightarrow> u8 list" where
  "tar_archive es = concat (map tar_encode es) @ replicate 1024 0"

definition tar_entry_ok :: "tar_entry \<Rightarrow> bool" where
  "tar_entry_ok e \<longleftrightarrow> te_name e \<noteq> [] \<and> length (te_name e) < 100 \<and> CHR 0x00 \<notin> set (te_name e) \<and> te_mode e < 8 ^ 7 \<and>
     length (te_data e) < 8 ^ 11 \<and> length (te_ids e) = 16 \<and> length (te_times e) = 20 \<and> length (te_tail e) = 355"

text \<open>What mounting means for the entries: directories and files are created in order until a file fails.\<close>

definition entry_path :: "tar_entry \<Rightarrow> string option" where
  "entry_path e =
     (let name = (if take 2 (te_name e) = ''./'' then drop 2 (te_name e) else te_name e);
          name = rev (dropWhile (\<lambda>c. c = CHR ''/'') (rev name))
      in if name = [] then None else Some name)"

primrec replay :: "tar_entry list \<Rightarrow> 'a vfs_scheme \<Rightarrow> int \<times> 'a vfs_scheme" where
  "replay [] s = (0, s)"
| "replay (e # es) s =
     (case mount_entry (te_type e) (entry_path e) (of_nat (te_mode e)) (te_data e) s of
        (False, s) \<Rightarrow> (-1, s)
      | (True, s) \<Rightarrow> replay es s)"

section \<open>Reading what was written\<close>

lemma length_octal [simp]: "length (octal k n) = k"
  by (induction k arbitrary: n) simp_all

lemma or_low3:
  assumes "unat v * 8 + 7 < 2 ^ 64" "d < 8"
  shows "unat (push_bit 3 v OR of_nat d :: u64) = unat v * 8 + d"
proof -
  have "\<not> bit (push_bit 3 v) n \<or> \<not> bit (of_nat d :: u64) n" for n
  proof (cases "n < 3")
    case False
    have "d < 2 ^ n" using assms(2) False power_increasing [of 3 n "2 :: nat"] by simp
    then have "\<not> bit d n" by (simp add: bit_iff_odd)
    then show ?thesis by (simp add: bit_of_nat_iff)
  qed (simp add: bit_simps)
  then have "push_bit 3 v OR of_nat d = push_bit 3 v + (of_nat d :: u64)" by (simp add: disjunctive_add)
  also have "\<dots> = of_nat (unat v * 8 + d)" by (simp add: push_bit_eq_mult)
  finally have "unat (push_bit 3 v OR of_nat d :: u64) = unat (of_nat (unat v * 8 + d) :: u64)" by (rule arg_cong)
  also have "\<dots> = unat v * 8 + d" by (rule unat_of_nat_small) (use assms in simp)
  finally show ?thesis .
qed

lemma octal_digit: "(48 :: u8) \<le> of_nat (48 + n mod 8) \<and> of_nat (48 + n mod 8) \<le> (55 :: u8) \<and>
    ucast (of_nat (48 + n mod 8) - 48 :: u8) = (of_nat (n mod 8) :: u64)"
proof -
  have m: "n mod 8 < 8" by simp
  have "unat (of_nat (48 + n mod 8) :: u8) = 48 + n mod 8" by (rule unat_of_nat_small) (use m in simp)
  moreover have "(of_nat (48 + n mod 8) - 48 :: u8) = of_nat (n mod 8)" by simp
  moreover have "unat (of_nat (n mod 8) :: u8) = n mod 8" using m by (simp add: unat_of_nat)
  ultimately show ?thesis by (simp add: word_le_nat_alt word_unat_eq_iff unsigned_ucast_eq unat_of_nat take_bit_nat_eq_self)
qed

lemma tar_octal_loop_octal:
  assumes "unat v * 8 ^ k + n < 2 ^ 60" "n < 8 ^ k"
  shows "tar_octal_loop v (octal k n @ rest) = tar_octal_loop (of_nat (unat v * 8 ^ k + n)) rest"
  using assms
proof (induction k arbitrary: n rest)
  case (Suc k)
  have n: "n div 8 < 8 ^ k" using Suc.prems(2) by (simp add: less_mult_imp_div_less mult.commute)
  let ?w = "of_nat (unat v * 8 ^ k + n div 8) :: u64"
  have b: "(unat v * 8 ^ k + n div 8) * 8 \<le> unat v * 8 ^ Suc k + n" by (simp add: algebra_simps)
  from le_less_trans [OF b Suc.prems(1)] have lt: "unat v * 8 ^ k + n div 8 < 2 ^ 57" by simp
  then have w: "unat ?w = unat v * 8 ^ k + n div 8" by (intro unat_of_nat_small) simp
  have "tar_octal_loop v (octal (Suc k) n @ rest) = tar_octal_loop ?w (of_nat (48 + n mod 8) # rest)"
    using Suc.IH [OF _ n, of "of_nat (48 + n mod 8) # rest"] lt by simp
  also have "\<dots> = tar_octal_loop (push_bit 3 ?w OR of_nat (n mod 8)) rest" using octal_digit [of n] by simp
  also have "push_bit 3 ?w OR of_nat (n mod 8) = (of_nat (unat v * 8 ^ Suc k + n) :: u64)"
  proof -
    have "unat (push_bit 3 ?w OR of_nat (n mod 8)) = unat ?w * 8 + n mod 8" using w lt by (intro or_low3) simp_all
    also have "\<dots> = unat v * 8 ^ Suc k + n" using w by (simp add: algebra_simps)
    finally have "of_nat (unat (push_bit 3 ?w OR of_nat (n mod 8))) = (of_nat (unat v * 8 ^ Suc k + n) :: u64)" by (rule arg_cong)
    then show ?thesis by simp
  qed
  finally show ?case .
qed simp

lemma tar_octal_field:
  assumes "n < 8 ^ k" "k \<le> 12"
  shows "tar_octal (octal k n @ [0]) = of_nat n"
proof -
  have "(8 :: nat) ^ k \<le> 8 ^ 12" using assms(2) by (rule power_increasing) simp
  then have "n < 2 ^ 60" using assms(1) by simp
  then show ?thesis using tar_octal_loop_octal [of 0 k n "[0]"] assms(1) by (simp add: tar_octal_def)
qed

lemma char_byte_simps:
  "byte_char (char_byte c) = c" "char_byte c = 0 \<longleftrightarrow> c = CHR 0x00" "char_byte c = 46 \<longleftrightarrow> c = CHR ''.''" "char_byte c = 47 \<longleftrightarrow> c = CHR ''/''"
proof -
  have k: "char_byte (CHR ''.'') = 46" "char_byte (CHR ''/'') = 47" by (simp_all add: char_byte_def)
  show "char_byte c = 46 \<longleftrightarrow> c = CHR ''.''" "char_byte c = 47 \<longleftrightarrow> c = CHR ''/''"
    using char_byte_inj [of c "CHR ''.''"] char_byte_inj [of c "CHR ''/''"] unfolding k by simp_all
qed (simp_all add: byte_char_byte char_byte_0)

lemma length_tar_header: "tar_entry_ok e \<Longrightarrow> length (tar_header e) = 512"
  by (simp add: tar_header_def tar_entry_ok_def)

lemma tar_header_fields:
  assumes "tar_entry_ok e"
  shows "take 8 (drop 100 (tar_header e @ x)) = octal 7 (te_mode e) @ [0]"
    "take 12 (drop 124 (tar_header e @ x)) = octal 11 (length (te_data e)) @ [0]"
    "(tar_header e @ x) ! 156 = char_byte (te_type e)"
proof -
  define nm where "nm = map char_byte (te_name e) @ replicate (100 - length (te_name e)) 0"
  define a where "a = octal 7 (te_mode e) @ [0]"
  define b where "b = octal 11 (length (te_data e)) @ [0]"
  have l: "length nm = 100" "length a = 8" "length b = 12" "length (te_ids e) = 16" "length (te_times e) = 20"
    using assms by (simp_all add: nm_def a_def b_def tar_entry_ok_def)
  have h: "tar_header e @ x = nm @ a @ te_ids e @ b @ te_times e @ [char_byte (te_type e)] @ te_tail e @ x"
    by (simp add: tar_header_def nm_def a_def b_def)
  show "take 8 (drop 100 (tar_header e @ x)) = octal 7 (te_mode e) @ [0]"
    "take 12 (drop 124 (tar_header e @ x)) = octal 11 (length (te_data e)) @ [0]"
    "(tar_header e @ x) ! 156 = char_byte (te_type e)"
    unfolding h a_def [symmetric] b_def [symmetric] by (simp_all add: l nth_append)
qed

lemma takeWhile_name:
  assumes "CHR 0x00 \<notin> set nm" "length nm < 100" "0 < k"
  shows "takeWhile (\<lambda>b. b \<noteq> 0) (take 100 (map char_byte nm @ replicate k 0 @ y)) = map char_byte nm"
proof -
  obtain j where k: "k = Suc j" using assms(3) by (cases k) auto
  obtain i where i: "100 - length nm = Suc i" using assms(2) by (cases "100 - length nm") auto
  have "\<forall>b \<in> set (map char_byte nm). b \<noteq> 0" using assms(1) by (auto simp: char_byte_simps)
  then show ?thesis using i assms(2) by (simp add: k takeWhile_append)
qed

lemma tar_normalise_header:
  assumes ok: "tar_entry_ok e"
  shows "tar_normalise (tar_header e @ x) = entry_path e"
proof -
  let ?n = "te_name e"
  define y where "y = octal 7 (te_mode e) @ [0] @ te_ids e @ octal 11 (length (te_data e)) @ [0] @ te_times e @ [char_byte (te_type e)] @ te_tail e @ x"
  have o: "?n \<noteq> []" "length ?n < 100" "CHR 0x00 \<notin> set ?n" using ok by (auto simp: tar_entry_ok_def)
  have h: "tar_header e @ x = map char_byte ?n @ replicate (100 - length ?n) 0 @ y" by (simp add: tar_header_def y_def)
  have pre: "take 2 (tar_header e @ x) = [46, 47] \<longleftrightarrow> take 2 ?n = ''./''"
  proof (cases ?n)
    case (Cons c cs)
    obtain j where "100 - length ?n = Suc j" using o(2) by (cases "100 - length ?n") auto
    then show ?thesis unfolding h by (cases cs) (simp_all add: Cons char_byte_simps)
  qed (use o in simp)
  define m where "m = (if take 2 ?n = ''./'' then drop 2 ?n else ?n)"
  have "takeWhile (\<lambda>b. b \<noteq> 0) (take 100 (if take 2 (tar_header e @ x) = [46, 47] then drop 2 (tar_header e @ x) else tar_header e @ x)) = map char_byte m"
  proof (cases "take 2 ?n = ''./''")
    case True
    then have "2 \<le> length ?n" by (cases ?n; cases "tl ?n") auto
    then have "drop 2 (tar_header e @ x) = map char_byte (drop 2 ?n) @ replicate (100 - length ?n) 0 @ y" unfolding h by (simp add: drop_map)
    moreover have "CHR 0x00 \<notin> set (drop 2 ?n)" using o(3) by (meson in_set_dropD)
    ultimately show ?thesis using True pre o takeWhile_name [of "drop 2 ?n" "100 - length ?n" y] by (simp add: m_def)
  next
    case False
    then show ?thesis using pre o takeWhile_name [of ?n "100 - length ?n" y] by (simp add: m_def h)
  qed
  moreover have "rev (dropWhile (\<lambda>b. b = 47) (rev (map char_byte m))) = map char_byte (rev (dropWhile (\<lambda>c. c = CHR ''/'') (rev m)))"
    unfolding rev_map dropWhile_map comp_def char_byte_simps ..
  ultimately show ?thesis
    by (simp add: tar_normalise_def entry_path_def Let_def m_def [symmetric] comp_def char_byte_simps)
qed

lemma and_not_mask: "(w :: u64) AND NOT (mask n) = push_bit n (drop_bit n w)"
  by (rule bit_eqI) (auto simp: bit_simps)

lemma tar_padded_pad:
  assumes "n < 8 ^ 11"
  shows "unat (tar_padded (of_nat n)) = n + tar_block_pad n"
proof -
  have m: "511 = (mask 9 :: u64)" by (simp add: mask_eq_exp_minus_1)
  have lt: "n + 511 < 2 ^ 60" using assms by simp
  have "(n + 511) div 512 * 512 \<le> n + 511" by simp
  then have lt2: "(n + 511) div 512 * 512 < 2 ^ 64" using lt by simp
  have "unat (of_nat n + 511 :: u64) = n + 511" using unat_of_nat_small [of "n + 511", where ?'a = 64] lt by simp
  then have "unat (drop_bit 9 (of_nat n + 511 :: u64)) = (n + 511) div 512" by (simp only: unat_drop_bit_eq) (simp add: drop_bit_eq_div)
  then have "of_nat (unat (drop_bit 9 (of_nat n + 511 :: u64))) = (of_nat ((n + 511) div 512) :: u64)" by (rule arg_cong)
  then have "drop_bit 9 (of_nat n + 511 :: u64) = of_nat ((n + 511) div 512)" by (simp only: of_nat_unat ucast_id)
  then have "tar_padded (of_nat n) = of_nat ((n + 511) div 512 * 512)"
    unfolding tar_padded_def m and_not_mask by (simp add: m [symmetric] push_bit_eq_mult)
  then have "unat (tar_padded (of_nat n)) = (n + 511) div 512 * 512" using unat_of_nat_small [of "(n + 511) div 512 * 512", where ?'a = 64] lt2 by simp
  moreover have "n \<le> (n + 511) div 512 * 512"
    using div_mult_mod_eq [of "n + 511" 512] mod_less_divisor [of 512 "n + 511"] by linarith
  ultimately show ?thesis by (simp add: tar_block_pad_def)
qed

lemma mount_from_entry:
  assumes ok: "tar_entry_ok e"
  shows "mount_from (tar_encode e @ rest) s =
    (case mount_entry (te_type e) (entry_path e) (of_nat (te_mode e)) (te_data e) s of
       (False, s) \<Rightarrow> Some (-1, s)
     | (True, s) \<Rightarrow> mount_from rest s)"
proof -
  define p where "p = tar_encode e @ rest"
  let ?n = "length (te_data e)"
  have p: "p = tar_header e @ te_data e @ replicate (tar_block_pad ?n) 0 @ rest" by (simp add: p_def tar_encode_def)
  have o: "te_mode e < 8 ^ 7" "?n < 8 ^ 11" "te_name e \<noteq> []" "CHR 0x00 \<notin> set (te_name e)" using ok by (simp_all add: tar_entry_ok_def)
  note l = length_tar_header [OF ok]
  have nonzero: "\<not> (\<forall>b \<in> set (take 512 p). b = 0)"
  proof -
    have "char_byte (hd (te_name e)) \<in> set (take 512 p)" using o(3) by (simp add: p l) (simp add: tar_header_def)
    moreover have "char_byte (hd (te_name e)) \<noteq> 0" using o(3,4) by (metis char_byte_simps(2) hd_in_set)
    ultimately show ?thesis by blast
  qed
  have fs: "tar_octal (take 12 (drop 124 p)) = of_nat ?n" unfolding p tar_header_fields(2) [OF ok] using tar_octal_field [OF o(2)] by simp
  have "tar_octal (take 8 (drop 100 p)) = of_nat (te_mode e)" unfolding p tar_header_fields(1) [OF ok] using tar_octal_field [OF o(1)] by simp
  then have md: "(ucast (tar_octal (take 8 (drop 100 p))) :: u32) = of_nat (te_mode e)" using o(1) by (simp add: unsigned_of_nat take_bit_nat_eq_self)
  have un: "unat (of_nat ?n :: u64) = ?n" by (rule unat_of_nat_small) (use o(2) in simp)
  have "length p = 512 + ?n + tar_block_pad ?n + length rest" by (simp add: p l)
  moreover have "drop (512 + (?n + tar_block_pad ?n)) p = rest" by (simp add: p l)
  moreover have "take ?n (drop 512 p) = te_data e" by (simp add: p l)
  moreover have "byte_char (p ! 156) = te_type e" unfolding p tar_header_fields(3) [OF ok] by (simp add: char_byte_simps)
  moreover have "tar_normalise p = entry_path e" unfolding p by (rule tar_normalise_header [OF ok])
  moreover have "unat (tar_padded (of_nat ?n)) = ?n + tar_block_pad ?n" by (rule tar_padded_pad [OF o(2)])
  ultimately show ?thesis unfolding p_def [symmetric]
    by (subst mount_from.simps) (simp add: nonzero fs md un Let_def cong: if_cong prod.case_cong bool.case_cong)
qed

lemma mount_from_archive:
  "\<forall>e \<in> set es. tar_entry_ok e \<Longrightarrow> mount_from (tar_archive es) s = Some (replay es s)"
proof (induction es arbitrary: s)
  case Nil
  show ?case by (subst mount_from.simps) (simp add: tar_archive_def)
next
  case (Cons e es)
  have "mount_from (tar_archive (e # es)) s = mount_from (tar_encode e @ tar_archive es) s" by (simp add: tar_archive_def)
  with Cons mount_from_entry [of e "tar_archive es" s] show ?case by (simp split: prod.splits bool.splits)
qed

section \<open>Properties\<close>


definition etc_entries :: "tar_entry list" where
  "etc_entries =
     [\<lparr>te_name = ''./etc/'', te_mode = 0x1ED, te_type = CHR ''5'', te_data = [], te_ids = replicate 16 0, te_times = replicate 20 0, te_tail = replicate 355 0\<rparr>,
      \<lparr>te_name = ''./etc/motd'', te_mode = 0x1A4, te_type = CHR ''0'', te_data = [104, 105], te_ids = replicate 16 0, te_times = replicate 20 0,
       te_tail = replicate 355 0\<rparr>]"


text \<open>A header whose size field exceeds the image is only noticed after the data was copied.\<close>

lemma truncated_archive_over_read:
  assumes ok: "tar_entry_ok e" and "te_type e = CHR ''0''" "entry_path e \<noteq> None" "length x < length (te_data e)" "512 \<le> length x"
  shows "vfs_mount_rootfs (Some (tar_header e @ x)) s = None"
proof -
  let ?p = "tar_header e @ x"
  have o: "length (te_data e) < 8 ^ 11" "te_name e \<noteq> []" "CHR 0x00 \<notin> set (te_name e)" using ok by (simp_all add: tar_entry_ok_def)
  note l = length_tar_header [OF ok]
  have "char_byte (hd (te_name e)) \<in> set (take 512 ?p)" using o(2) by (simp add: l) (simp add: tar_header_def)
  moreover have "char_byte (hd (te_name e)) \<noteq> 0" using o(2,3) by (metis char_byte_simps(2) hd_in_set)
  ultimately have "\<not> (\<forall>b \<in> set (take 512 ?p). b = 0)" by blast
  moreover have "unat (tar_octal (take 12 (drop 124 ?p))) = length (te_data e)"
    unfolding tar_header_fields(2) [OF ok] using tar_octal_field [OF o(1)] unat_of_nat_small [of "length (te_data e)", where ?'a = 64] o(1) by simp
  moreover have "tar_copies (byte_char (?p ! 156)) (tar_normalise ?p)"
    unfolding tar_header_fields(3) [OF ok] tar_normalise_header [OF ok] using assms(2,3) by (simp add: tar_copies_def char_byte_simps)
  ultimately have "mount_from ?p s = None" using assms(4) by (subst mount_from.simps) (simp add: l)
  then show ?thesis using assms(5) by (simp add: vfs_mount_rootfs_def l)
qed

end
