(* ===== verification/Vfs_Fd.thy ===== *)
theory Vfs_Fd
  imports Vfs_File
begin

text \<open>
  The descriptor tables: every open file and every pipe end counts the slots that refer to it, whatever
  sequence of duplications, closes and inheritances the tasks perform, and opening a file fills the lowest
  free slot.
\<close>

section \<open>Reference counts\<close>

definition TASK_MAX :: nat where "TASK_MAX = 16"

text \<open>
  The number of descriptor slots, over all tasks, that hold an open file with the property \<open>Q\<close>.
\<close>

definition fd_slots :: "(nat \<times> nat) set" where
  "fd_slots = {..<TASK_MAX} \<times> {..<VFS_MAX_FDS}"

definition nref :: "(u64 \<Rightarrow> bool) \<Rightarrow> (nat \<Rightarrow> nat \<Rightarrow> u64) \<Rightarrow> nat" where
  "nref Q fds = card {(t, i) \<in> fd_slots. fds t i \<noteq> NULL \<and> Q (fds t i)}"

definition pipe_end :: "(u64 \<Rightarrow> vfs_file) \<Rightarrow> bool \<Rightarrow> u64 \<Rightarrow> u64 \<Rightarrow> bool" where
  "pipe_end fs w p f \<longleftrightarrow> f_pipe (fs f) = p \<and> write_end (fs f) = w"

text \<open>
  Every open file counts the slots that hold it, and every pipe with an open end counts the slots
  that hold its write end and those that hold its read end.
\<close>

definition ref_ok :: "(nat \<Rightarrow> nat \<Rightarrow> u64) \<Rightarrow> (u64 \<Rightarrow> vfs_file) \<Rightarrow> (u64 \<Rightarrow> vfs_pipe) \<Rightarrow> bool" where
  "ref_ok fds fs ps \<longleftrightarrow>
     (\<forall>f. nref ((=) f) fds > 0 \<longrightarrow> f_refs (fs f) = int (nref ((=) f) fds)) \<and>
     (\<forall>p. p \<noteq> NULL \<longrightarrow> nref (\<lambda>f. f_pipe (fs f) = p) fds > 0 \<longrightarrow>
        p_refs_w (ps p) = int (nref (pipe_end fs True p) fds) \<and> p_refs_r (ps p) = int (nref (pipe_end fs False p) fds))"

definition ref_inv :: "'a vfs_scheme \<Rightarrow> bool" where
  "ref_inv s \<longleftrightarrow> ref_ok (task_fds s) (files s) (pipes s)"

lemma finite_slots [simp]: "finite fd_slots"
  by (simp add: fd_slots_def)

lemma nref_upd:
  assumes "(t, i) \<in> fd_slots"
  shows "int (nref Q (fds(t := (fds t)(i := v)))) =
    int (nref Q fds) - (if fds t i \<noteq> NULL \<and> Q (fds t i) then 1 else 0) + (if v \<noteq> NULL \<and> Q v then 1 else 0)"
proof -
  define A where "A = {(t', i') \<in> fd_slots - {(t, i)}. fds t' i' \<noteq> NULL \<and> Q (fds t' i')}"
  have fin: "finite A" "(t, i) \<notin> A" by (auto simp: A_def intro: finite_subset [OF _ finite_slots])
  have "{(t', i') \<in> fd_slots. fds t' i' \<noteq> NULL \<and> Q (fds t' i')} = (if fds t i \<noteq> NULL \<and> Q (fds t i) then insert (t, i) A else A)"
    using assms by (auto simp: A_def)
  moreover have "{(t', i') \<in> fd_slots. (fds(t := (fds t)(i := v))) t' i' \<noteq> NULL \<and> Q ((fds(t := (fds t)(i := v))) t' i')} =
      (if v \<noteq> NULL \<and> Q v then insert (t, i) A else A)"
    using assms by (auto simp: A_def split: if_splits)
  ultimately show ?thesis using fin by (simp add: nref_def)
qed

lemma nref_pos: "(t, i) \<in> fd_slots \<Longrightarrow> fds t i = f \<Longrightarrow> f \<noteq> NULL \<Longrightarrow> Q f \<Longrightarrow> nref Q fds > 0"
  unfolding nref_def by (rule card_gt_0_iff [THEN iffD2]) (auto intro: finite_subset [OF _ finite_slots])

lemma nref_mono: "(\<And>f. Q f \<Longrightarrow> R f) \<Longrightarrow> nref Q fds \<le> nref R fds"
  unfolding nref_def by (rule card_mono) (auto intro: finite_subset [OF _ finite_slots])

text \<open>Changing only reference counts does not change which end of which pipe a file is.\<close>

lemma pipe_end_refs:
  "f_pipe ((fs(g := fs g\<lparr>f_refs := k\<rparr>)) f) = f_pipe (fs f)" "pipe_end (fs(g := fs g\<lparr>f_refs := k\<rparr>)) w p = pipe_end fs w p"
  by (auto simp: pipe_end_def write_end_def fun_eq_iff)

lemma count_end_refs:
  "p_refs_w (count_end v d q) = p_refs_w q + (if write_end v then d else 0)"
  "p_refs_r (count_end v d q) = p_refs_r q + (if write_end v then 0 else d)"
  by (simp_all add: count_end_def)

text \<open>A slot changes from an unused one to an open file, or back, with the counts adjusted by \<open>d\<close>.\<close>

lemma ref_ok_add:
  assumes ok: "ref_ok fds fs ps" and x: "(t, i) \<in> fd_slots" "fds t i = NULL" and v: "v \<noteq> NULL" "nref ((=) v) fds > 0"
  shows "ref_ok (fds(t := (fds t)(i := v))) (fs(v := fs v\<lparr>f_refs := f_refs (fs v) + 1\<rparr>))
    (if f_pipe (fs v) \<noteq> NULL then ps(f_pipe (fs v) := count_end (fs v) 1 (ps (f_pipe (fs v)))) else ps)"
proof -
  have n: "int (nref Q (fds(t := (fds t)(i := v)))) = int (nref Q fds) + (if Q v then 1 else 0)" for Q
    using nref_upd [OF x(1), of Q fds v] x(2) v(1) by simp
  have p: "nref (\<lambda>f. f_pipe (fs f) = f_pipe (fs v)) fds > 0"
    using nref_mono [of "(=) v" "\<lambda>f. f_pipe (fs f) = f_pipe (fs v)" fds] v(2) by simp
  show ?thesis
    unfolding ref_ok_def pipe_end_refs
  proof (intro conjI allI impI)
    fix f assume "nref ((=) f) (fds(t := (fds t)(i := v))) > 0"
    then have "nref ((=) f) fds > 0" using n [of "(=) f"] v(2) by (cases "f = v") auto
    then show "f_refs ((fs(v := fs v\<lparr>f_refs := f_refs (fs v) + 1\<rparr>)) f) = int (nref ((=) f) (fds(t := (fds t)(i := v))))"
      using ok n [of "(=) f"] by (auto simp: ref_ok_def)
  next
    fix q assume q: "q \<noteq> NULL" "nref (\<lambda>f. f_pipe (fs f) = q) (fds(t := (fds t)(i := v))) > 0"
    let ?ps = "if f_pipe (fs v) \<noteq> NULL then ps(f_pipe (fs v) := count_end (fs v) 1 (ps (f_pipe (fs v)))) else ps"
    have "nref (\<lambda>f. f_pipe (fs f) = q) fds > 0"
      using q(2) n [of "\<lambda>f. f_pipe (fs f) = q"] p by (cases "f_pipe (fs v) = q") auto
    then have o: "p_refs_w (ps q) = int (nref (pipe_end fs True q) fds)" "p_refs_r (ps q) = int (nref (pipe_end fs False q) fds)"
      using ok q(1) by (auto simp: ref_ok_def)
    show "p_refs_w (?ps q) = int (nref (pipe_end fs True q) (fds(t := (fds t)(i := v))))"
      "p_refs_r (?ps q) = int (nref (pipe_end fs False q) (fds(t := (fds t)(i := v))))"
      using o q(1) n [of "pipe_end fs True q"] n [of "pipe_end fs False q"]
      by (auto simp: count_end_refs pipe_end_def)
  qed
qed

lemma ref_ok_drop:
  assumes ok: "ref_ok fds fs ps" and x: "(t, i) \<in> fd_slots" "fds t i = v" and v: "v \<noteq> NULL"
  shows "ref_ok (fds(t := (fds t)(i := NULL))) (fs(v := fs v\<lparr>f_refs := f_refs (fs v) - 1\<rparr>))
    (if f_pipe (fs v) \<noteq> NULL then ps(f_pipe (fs v) := count_end (fs v) (-1) (ps (f_pipe (fs v)))) else ps)"
proof -
  have n: "int (nref Q (fds(t := (fds t)(i := NULL)))) = int (nref Q fds) - (if Q v then 1 else 0)" for Q
    using nref_upd [OF x(1), of Q fds NULL] x(2) v by simp
  show ?thesis
    unfolding ref_ok_def pipe_end_refs
  proof (intro conjI allI impI)
    fix f assume "nref ((=) f) (fds(t := (fds t)(i := NULL))) > 0"
    then have "nref ((=) f) fds > 0" using n [of "(=) f"] by (auto split: if_splits)
    then show "f_refs ((fs(v := fs v\<lparr>f_refs := f_refs (fs v) - 1\<rparr>)) f) = int (nref ((=) f) (fds(t := (fds t)(i := NULL))))"
      using ok n [of "(=) f"] by (auto simp: ref_ok_def)
  next
    fix q assume q: "q \<noteq> NULL" "nref (\<lambda>f. f_pipe (fs f) = q) (fds(t := (fds t)(i := NULL))) > 0"
    let ?ps = "if f_pipe (fs v) \<noteq> NULL then ps(f_pipe (fs v) := count_end (fs v) (-1) (ps (f_pipe (fs v)))) else ps"
    have "nref (\<lambda>f. f_pipe (fs f) = q) fds > 0"
      using q(2) n [of "\<lambda>f. f_pipe (fs f) = q"] by (auto split: if_splits)
    then have o: "p_refs_w (ps q) = int (nref (pipe_end fs True q) fds)" "p_refs_r (ps q) = int (nref (pipe_end fs False q) fds)"
      using ok q(1) by (auto simp: ref_ok_def)
    show "p_refs_w (?ps q) = int (nref (pipe_end fs True q) (fds(t := (fds t)(i := NULL))))"
      "p_refs_r (?ps q) = int (nref (pipe_end fs False q) (fds(t := (fds t)(i := NULL))))"
      using o q(1) n [of "pipe_end fs True q"] n [of "pipe_end fs False q"]
      by (auto simp: count_end_refs pipe_end_def)
  qed
qed

lemma file_ref_fields:
  "files (file_ref v s) = (files s)(v := files s v\<lparr>f_refs := f_refs (files s v) + 1\<rparr>)"
  "pipes (file_ref v s) = (if f_pipe (files s v) \<noteq> NULL
     then (pipes s)(f_pipe (files s v) := count_end (files s v) 1 (pipes s (f_pipe (files s v)))) else pipes s)"
  "task_fds (file_ref v s) = task_fds s" "cur_task (file_ref v s) = cur_task s"
  by (simp_all add: file_ref_def Let_def upd_file_def upd_pipe_def count_end_def write_end_def)

lemma file_unref_fields:
  "files (file_unref v s) = (files s)(v := files s v\<lparr>f_refs := f_refs (files s v) - 1\<rparr>)"
  "pipes (file_unref v s) = (if f_pipe (files s v) \<noteq> NULL
     then (pipes s)(f_pipe (files s v) := count_end (files s v) (-1) (pipes s (f_pipe (files s v)))) else pipes s)"
  "task_fds (file_unref v s) = task_fds s" "cur_task (file_unref v s) = cur_task s"
  by (simp_all add: file_unref_def Let_def upd_file_def upd_pipe_def krelease_vfs)

lemma set_fd_fields [simp]:
  "files (set_fd t i v s) = files s" "pipes (set_fd t i v s) = pipes s" "cur_task (set_fd t i v s) = cur_task s"
  "task_fds (set_fd t i v s) = (task_fds s)(t := (task_fds s t)(i := v))"
  by (simp_all add: set_fd_def)

lemma slot_in: "t < TASK_MAX \<Longrightarrow> i < VFS_MAX_FDS \<Longrightarrow> (t, i) \<in> fd_slots"
  by (simp add: fd_slots_def)

lemma fd_valid_slot: "fd_valid fd \<Longrightarrow> nat fd < VFS_MAX_FDS"
  by (auto simp: fd_valid_def)

lemma find_slot: "find P [a..<b] = Some i \<Longrightarrow> i < b \<and> P i"
  by (auto simp: find_Some_iff)

lemma ref_inv_ref:
  assumes "ref_inv s" "(t, i) \<in> fd_slots" "task_fds s t i = NULL" "v \<noteq> NULL" "nref ((=) v) (task_fds s) > 0"
  shows "ref_inv (file_ref v (set_fd t i v s))"
  using ref_ok_add [of "task_fds s" "files s" "pipes s", OF _ assms(2-5)] assms(1)
  by (simp only: ref_inv_def file_ref_fields set_fd_fields)

lemma ref_inv_unref:
  assumes "ref_inv s" "(t, i) \<in> fd_slots" "task_fds s t i = v" "v \<noteq> NULL"
  shows "ref_inv (file_unref v (set_fd t i NULL s))" and "ref_inv (set_fd t i NULL (file_unref v s))"
  using ref_ok_drop [of "task_fds s" "files s" "pipes s", OF _ assms(2-4)] assms(1)
  by (simp_all only: ref_inv_def file_unref_fields set_fd_fields)

lemma vfs_dup_refs:
  assumes "ref_inv s" "cur_task s = Some t" "t < TASK_MAX"
  shows "ref_inv (snd (vfs_dup fd s))"
proof -
  let ?v = "task_fds s t (nat fd)"
  have "ref_inv (file_ref ?v (set_fd t i ?v s))"
    if "fd_valid fd" "?v \<noteq> NULL" "find (\<lambda>i. task_fds s t i = NULL) [0..<VFS_MAX_FDS] = Some i" for i
  proof -
    have i: "i < VFS_MAX_FDS" "task_fds s t i = NULL" using find_slot [OF that(3)] by auto
    have "nref ((=) ?v) (task_fds s) > 0" using slot_in [OF assms(3) fd_valid_slot [OF that(1)]] that(2) by (auto intro: nref_pos)
    then show ?thesis using ref_inv_ref [OF assms(1) slot_in [OF assms(3) i(1)] i(2) that(2)] by simp
  qed
  moreover have "i \<noteq> nat fd" if "?v \<noteq> NULL" "find (\<lambda>i. task_fds s t i = NULL) [0..<VFS_MAX_FDS] = Some i" for i
    using find_slot [OF that(2)] that(1) by auto
  ultimately show ?thesis
    using assms(1,2) by (auto simp: vfs_dup_def Let_def split: option.splits)
qed

lemma vfs_close_refs:
  assumes "ref_inv s" "cur_task s = Some t" "t < TASK_MAX"
  shows "ref_inv (snd (vfs_close fd s))"
  using assms ref_inv_unref(1) [OF assms(1) slot_in [OF assms(3) fd_valid_slot]]
  by (auto simp: vfs_close_def Let_def)

lemma vfs_dup2_refs:
  assumes inv: "ref_inv s" and t: "cur_task s = Some t" "t < TASK_MAX"
  shows "ref_inv (snd (vfs_dup2 oldfd newfd s))"
proof -
  let ?o = "nat oldfd" and ?n = "nat newfd"
  let ?v = "task_fds s t ?o" and ?u = "task_fds s t ?n"
  have "ref_inv (file_ref ?v (set_fd t ?n ?v s'))"
    if v: "fd_valid oldfd" "fd_valid newfd" "oldfd \<noteq> newfd" "?v \<noteq> NULL" and s': "s' = (if ?u \<noteq> NULL then file_unref ?u s else s)" for s'
  proof -
    have ne: "?o \<noteq> ?n" using v(1-3) by (auto simp: fd_valid_def)
    have sl: "(t, ?o) \<in> fd_slots" "(t, ?n) \<in> fd_slots" using v t(2) by (auto intro!: slot_in fd_valid_slot)
    let ?s = "set_fd t ?n NULL s'"
    have r: "ref_inv ?s"
    proof (cases "?u = NULL")
      case True
      then have "task_fds ?s = task_fds s" by (auto simp: s' fun_eq_iff)
      then show ?thesis using inv True by (simp add: ref_inv_def s')
    next
      case False
      then show ?thesis using ref_inv_unref(2) [OF inv sl(2) refl] by (simp add: s')
    qed
    have "task_fds ?s t ?o = ?v" "task_fds ?s t ?n = NULL" using ne by (auto simp: s' file_unref_fields)
    moreover from this have "nref ((=) ?v) (task_fds ?s) > 0" using sl(1) v(4) by (auto intro: nref_pos)
    ultimately have "ref_inv (file_ref ?v (set_fd t ?n ?v ?s))" using ref_inv_ref [OF r sl(2) _ v(4)] by simp
    moreover have "set_fd t ?n ?v ?s = set_fd t ?n ?v s'" by (simp add: set_fd_def)
    ultimately show ?thesis by simp
  qed
  moreover have "task_fds (if ?u \<noteq> NULL then file_unref ?u s else s) t ?o = ?v" by (simp add: file_unref_fields)
  ultimately show ?thesis
    using inv t(1) by (auto simp: vfs_dup2_def Let_def fd_valid_def file_unref_fields)
qed

lemma vfs_close_all_refs:
  assumes "ref_inv s" "cur_task s = Some t" "t < TASK_MAX"
  shows "ref_inv (vfs_close_all s) \<and> (\<forall>i<VFS_MAX_FDS. task_fds (vfs_close_all s) t i = NULL)"
proof -
  let ?step = "\<lambda>i s. if task_fds s t i \<noteq> NULL then set_fd t i NULL (file_unref (task_fds s t i) s) else s"
  have "ref_inv (fold ?step [0..<n] s) \<and> (\<forall>i<n. task_fds (fold ?step [0..<n] s) t i = NULL)" if "n \<le> VFS_MAX_FDS" for n
    using that
  proof (induction n)
    case (Suc n)
    let ?s = "fold ?step [0..<n] s"
    have IH: "ref_inv ?s" "\<forall>i<n. task_fds ?s t i = NULL" using Suc by auto
    have "ref_inv (?step n ?s)" using IH(1) ref_inv_unref(2) [OF IH(1) slot_in [OF assms(3)], of n] Suc(2) by simp
    moreover have "task_fds (?step n ?s) t i = NULL" if "i < Suc n" for i
      using IH(2) that by (auto simp: file_unref_fields less_Suc_eq)
    ultimately show ?case by simp
  qed (use assms(1) in simp)
  then show ?thesis using assms(2) by (simp add: vfs_close_all_def)
qed

lemma vfs_fd_inherit_refs:
  fixes s :: "'a vfs_scheme"
  assumes "ref_inv s" "src < TASK_MAX" "dst < TASK_MAX" "dst \<noteq> src" "\<forall>i<VFS_MAX_FDS. task_fds s dst i = NULL"
  shows "ref_inv (vfs_fd_inherit dst src s) \<and> (\<forall>i<VFS_MAX_FDS. task_fds (vfs_fd_inherit dst src s) dst i = task_fds s src i)"
proof -
  define step where "step i s = (let s = set_fd dst i NULL s
                 in if task_fds s src i \<noteq> NULL
                    then file_ref (task_fds s src i) (set_fd dst i (task_fds s src i) s) else s)" for i and s :: "'a vfs_scheme"
  have "ref_inv (fold step [0..<n] s) \<and> task_fds (fold step [0..<n] s) src = task_fds s src \<and>
      (\<forall>i<VFS_MAX_FDS. task_fds (fold step [0..<n] s) dst i = (if i < n then task_fds s src i else NULL))" if "n \<le> VFS_MAX_FDS" for n
    using that
  proof (induction n)
    case (Suc n)
    let ?s = "fold step [0..<n] s"
    have IH: "ref_inv ?s" "task_fds ?s src = task_fds s src"
        "\<forall>i<VFS_MAX_FDS. task_fds ?s dst i = (if i < n then task_fds s src i else NULL)" and n: "n < VFS_MAX_FDS"
      using Suc by auto
    let ?v = "task_fds s src n"
    have z: "task_fds (set_fd dst n NULL ?s) = task_fds ?s" using IH(3) n by (auto simp: fun_eq_iff)
    have r: "ref_inv (set_fd dst n NULL ?s)" using IH(1) by (simp only: ref_inv_def z set_fd_fields(1,2))
    have st: "step n ?s = (if ?v \<noteq> NULL then file_ref ?v (set_fd dst n ?v (set_fd dst n NULL ?s)) else set_fd dst n NULL ?s)"
      using IH(2) assms(4) by (simp add: step_def)
    have "ref_inv (step n ?s)"
    proof (cases "?v = NULL")
      case False
      have "nref ((=) ?v) (task_fds (set_fd dst n NULL ?s)) > 0"
        unfolding z using False IH(2) slot_in [OF assms(2) n] by (auto intro: nref_pos)
      from ref_inv_ref [OF r slot_in [OF assms(3) n] _ False this] False show ?thesis by (simp add: st)
    qed (use r in \<open>simp add: st\<close>)
    moreover have "task_fds (step n ?s) src = task_fds s src"
      "\<forall>i<VFS_MAX_FDS. task_fds (step n ?s) dst i = (if i < Suc n then task_fds s src i else NULL)"
      using IH(2,3) assms(4) by (auto simp: st file_ref_fields less_Suc_eq)
    ultimately show ?case by simp
  qed (use assms(1,5) in simp)
  moreover have "vfs_fd_inherit dst src s = fold step [0..<VFS_MAX_FDS] s" unfolding vfs_fd_inherit_def step_def ..
  ultimately show ?thesis by simp
qed

section \<open>Opening an existing node\<close>

lemma ref_ok_files:
  assumes "ref_ok fds fs ps" "nref ((=) f) fds = 0"
  shows "ref_ok fds (fs(f := v)) ps"
proof -
  have e: "nref Q fds = nref R fds" if "\<And>g. g \<noteq> f \<Longrightarrow> Q g = R g" for Q R
  proof -
    have "fds t i \<noteq> f" if "(t, i) \<in> fd_slots" "fds t i \<noteq> NULL" for t i
      using assms(2) nref_pos [OF that(1), of fds f "(=) f"] that(2) by auto
    then have "{(t, i) \<in> fd_slots. fds t i \<noteq> NULL \<and> Q (fds t i)} = {(t, i) \<in> fd_slots. fds t i \<noteq> NULL \<and> R (fds t i)}"
      using that by blast
    then show ?thesis by (simp add: nref_def)
  qed
  have "nref (\<lambda>g. f_pipe ((fs(f := v)) g) = p) fds = nref (\<lambda>g. f_pipe (fs g) = p) fds"
    "nref (pipe_end (fs(f := v)) w p) fds = nref (pipe_end fs w p) fds" for p w
    by (rule e; simp add: pipe_end_def)+
  with assms show ?thesis by (auto simp: ref_ok_def)
qed

lemma ref_ok_new:
  assumes ok: "ref_ok fds fs ps" and x: "(t, i) \<in> fd_slots" "fds t i = NULL"
    and f: "f \<noteq> NULL" "nref ((=) f) fds = 0" and v: "f_pipe (fs f) = NULL" "f_refs (fs f) = 1"
  shows "ref_ok (fds(t := (fds t)(i := f))) fs ps"
proof -
  have n: "int (nref Q (fds(t := (fds t)(i := f)))) = int (nref Q fds) + (if Q f then 1 else 0)" for Q
    using nref_upd [OF x(1), of Q fds f] x(2) f(1) by simp
  have "nref (\<lambda>g. f_pipe (fs g) = p) (fds(t := (fds t)(i := f))) = nref (\<lambda>g. f_pipe (fs g) = p) fds"
    "nref (pipe_end fs w p) (fds(t := (fds t)(i := f))) = nref (pipe_end fs w p) fds" if "p \<noteq> NULL" for p w
    using n [of "\<lambda>g. f_pipe (fs g) = p"] n [of "pipe_end fs w p"] that v(1) by (auto simp: pipe_end_def)
  moreover have "f_refs (fs g) = int (nref ((=) g) (fds(t := (fds t)(i := f))))"
    if "nref ((=) g) (fds(t := (fds t)(i := f))) > 0" for g
    using ok n [of "(=) g"] f(2) v(2) that by (cases "g = f") (auto simp: ref_ok_def)
  ultimately show ?thesis using ok by (auto simp: ref_ok_def)
qed

definition fds_live :: "u64 set \<Rightarrow> 'a vfs_scheme \<Rightarrow> bool" where
  "fds_live P s \<longleftrightarrow> (\<forall>(t, i) \<in> fd_slots. task_fds s t i = NULL \<or> task_fds s t i \<in> P)"

lemma nref_fresh: "fds_live P s \<Longrightarrow> f \<notin> P \<Longrightarrow> nref ((=) f) (task_fds s) = 0"
  unfolding nref_def fds_live_def by (subst card_eq_0_iff) blast

lemma vfs_open_existing:
  assumes "vfs_lookup path s = node" "node \<noteq> NULL"
    and "n_type (nodes s node) \<noteq> VFS_DIR \<or> flags AND (O_WRONLY OR O_RDWR) = 0"
  shows "vfs_open (Some path) flags s = open_node node flags s"
  using assms by (auto simp: vfs_open_def)

lemma open_node_cases:
  assumes inv: "ref_inv s" "live_inv P s" "arena_room s" "fds_live P s" and t: "cur_task s = Some t" "t < TASK_MAX"
    and o: "open_node node flags s = (r, s')"
  shows "ref_inv s' \<and>
    (r = - ENOMEM \<and> live_inv P s' \<and> task_fds s' = task_fds s \<or>
     r = - ENOMEM \<and> (\<forall>i\<in>{3..<VFS_MAX_FDS}. task_fds s t i \<noteq> NULL) \<and> task_fds s' = task_fds s \<and>
       (\<exists>f. f \<noteq> NULL \<and> f \<notin> P \<and> live_inv (insert f P) s') \<or>
     (\<exists>i f. r = int i \<and> 3 \<le> i \<and> i < VFS_MAX_FDS \<and> task_fds s t i = NULL \<and> (\<forall>j\<in>{3..<i}. task_fds s t j \<noteq> NULL) \<and>
        f \<noteq> NULL \<and> f \<notin> P \<and> live_inv (insert f P) s' \<and> task_fds s' = (task_fds s)(t := (task_fds s t)(i := f)) \<and>
        f_node (files s' f) = node \<and> f_pipe (files s' f) = NULL \<and> f_flags (files s' f) = flags \<and> f_refs (files s' f) = 1 \<and>
        f_pos (files s' f) = (if flags AND O_APPEND \<noteq> 0 then n_size (nodes s' node) else 0)))"
proof -
  define s1 where "s1 = (if n_type (nodes s node) = VFS_FILE \<and> flags AND O_TRUNC \<noteq> 0
               then upd_node node (n_size_update (\<lambda>_. 0)) s else s)"
  have s1: "files s1 = files s" "pipes s1 = pipes s" "task_fds s1 = task_fds s" "cur_task s1 = cur_task s"
    "live_inv P s1 = live_inv P s" "arena_room s1 = arena_room s"
    by (simp_all add: s1_def upd_node_def live_inv_def arena_room_def live_inv_fields [of "s\<lparr>nodes := x\<rparr>" s for x, unfolded live_inv_def])
  obtain f s2 where k: "kalloc 32 s1 = (f, s2)" by (cases "kalloc 32 s1")
  have s2: "nodes s2 = nodes s1" "files s2 = files s" "pipes s2 = pipes s" "task_fds s2 = task_fds s" "cur_task s2 = cur_task s"
    using kalloc_vfs [of 32 s1] k s1 by simp_all
  have h: "f = NULL \<and> live_inv P s2 \<or> f \<noteq> NULL \<and> f \<notin> P \<and> live_inv (insert f P) s2"
    using kheap.alloc_fresh [OF _ _ _ k, of P] inv(2,3) s1(5,6) by simp
  define v where "v = \<lparr>f_node = node, f_pipe = NULL,
                f_pos = (if flags AND O_APPEND \<noteq> 0 then n_size (nodes s2 node) else 0), f_flags = flags, f_refs = 1\<rparr>"
  define s3 where "s3 = upd_file f (\<lambda>_. v) s2"
  have o': "(r, s') = (if f = NULL then (- ENOMEM, s2) else fd_alloc f s3)"
    using o unfolding open_node_def s1_def [symmetric] k Let_def s3_def v_def by simp
  have s3: "files s3 = (files s)(f := v)" "pipes s3 = pipes s" "task_fds s3 = task_fds s" "cur_task s3 = Some t" "nodes s3 = nodes s2"
      "live_inv Q s3 = live_inv Q s2" for Q
    using s2 t(1) live_inv_fields(1) [of s3 s2] by (simp_all add: s3_def upd_file_def)
  show ?thesis
  proof (cases "f = NULL")
    case True
    then show ?thesis using o' h inv(1) s2 by (simp add: ref_inv_def)
  next
    case False
    then have fresh: "nref ((=) f) (task_fds s) = 0" using h inv(4) nref_fresh by blast
    have r3: "ref_ok (task_fds s) ((files s)(f := v)) (pipes s)"
      using inv(1) by (intro ref_ok_files [OF _ fresh]) (simp add: ref_inv_def)
    show ?thesis
    proof (cases "find (\<lambda>i. task_fds s t i = NULL) [3..<VFS_MAX_FDS]")
      case None
      then have "(r, s') = (- ENOMEM, s3)" using o' False s3 by (simp add: fd_alloc_def)
      then show ?thesis using None h False r3 s3 by (auto simp: ref_inv_def find_None_iff)
    next
      case (Some i)
      then have rs: "(r, s') = (int i, set_fd t i f s3)" using o' False s3 by (simp add: fd_alloc_def)
      have i: "3 \<le> i" "i < VFS_MAX_FDS" "task_fds s t i = NULL" "\<forall>j\<in>{3..<i}. task_fds s t j \<noteq> NULL"
        using Some by (auto simp: find_upt_Some)
      have "ref_inv s'"
        using ref_ok_new [OF r3 slot_in [OF t(2) i(2)] i(3) False fresh] rs s3 by (simp add: ref_inv_def v_def)
      moreover have "live_inv (insert f P) s'"
        using h False s3(6) live_inv_fields(1) [of s' s3] rs by (simp add: set_fd_def)
      ultimately show ?thesis
        using rs i h False s3 by (intro conjI disjI2 exI [of _ i] exI [of _ f]) (simp_all add: v_def set_fd_def)
    qed
  qed
qed

section \<open>Properties\<close>

text \<open>C19: duplicating, closing and inheriting descriptors keep every reference count equal to the number of
  descriptor slots that refer to the file or to the pipe end. So a file is released by the close of its
  last descriptor and not before, and a reader sees the end of a pipe exactly when no slot holds a write end.\<close>

theorem fd_refcounts_invariant:
  assumes "ref_inv s" and "cur_task s = Some t" and "t < TASK_MAX"
    and "dst < TASK_MAX" "dst \<noteq> t" "\<forall>i<VFS_MAX_FDS. task_fds s dst i = NULL"
  shows "ref_inv (snd (vfs_dup a s)) \<and> ref_inv (snd (vfs_dup2 a b s)) \<and> ref_inv (snd (vfs_close a s)) \<and>
    ref_inv (vfs_close_all s) \<and> (\<forall>i<VFS_MAX_FDS. task_fds (vfs_close_all s) t i = NULL) \<and>
    ref_inv (vfs_fd_inherit dst t s) \<and> (\<forall>i<VFS_MAX_FDS. task_fds (vfs_fd_inherit dst t s) dst i = task_fds s t i)"
  using vfs_dup_refs [OF assms(1-3)] vfs_dup2_refs [OF assms(1-3)] vfs_close_refs [OF assms(1-3)]
    vfs_close_all_refs [OF assms(1-3)] vfs_fd_inherit_refs [OF assms(1,3,4,5,6)] by blast

text \<open>Two descriptors of task 0 on one open file, for the examples.\<close>

definition fd_example :: vfs where
  "fd_example = vfs_example\<lparr>files := (\<lambda>_. \<lparr>f_node = 0, f_pipe = 0, f_pos = 0, f_flags = 0, f_refs = 0\<rparr>)
      (file_example := \<lparr>f_node = root_example, f_pipe = NULL, f_pos = 0, f_flags = O_RDONLY, f_refs = 2\<rparr>),
     task_fds := (\<lambda>_ _. NULL)(0 := (\<lambda>_. NULL)(3 := file_example, 4 := file_example))\<rparr>"

lemma fd_example_inv: "ref_inv fd_example"
proof -
  have "{(t, i) \<in> fd_slots. task_fds fd_example t i \<noteq> NULL \<and> Q (task_fds fd_example t i)} =
      (if Q file_example then {(0, 3), (0, 4)} else {})" for Q
    by (auto simp: fd_slots_def fd_example_def TASK_MAX_def VFS_MAX_FDS_def file_example_def VMM_KHEAP_BASE_def split: if_splits)
  then have n: "nref Q (task_fds fd_example) = (if Q file_example then 2 else 0)" for Q by (simp add: nref_def)
  then show ?thesis by (auto simp: ref_inv_def ref_ok_def fd_example_def split: if_splits)
qed

theorem fd_refcounts_invariant_witness:
  "ref_inv (snd (vfs_dup 3 fd_example)) \<and> ref_inv (vfs_close_all fd_example) \<and> ref_inv (vfs_fd_inherit 1 0 fd_example)"
proof -
  have t: "cur_task fd_example = Some 0" by (simp add: fd_example_def vfs_example_state)
  have "\<forall>i<VFS_MAX_FDS. task_fds fd_example 1 i = NULL" by (simp add: fd_example_def)
  then show ?thesis
    using fd_refcounts_invariant [OF fd_example_inv t, of 1 3] by (simp add: TASK_MAX_def)
qed



end
