(* ===== verification/Kernel_State.thy ===== *)
theory Kernel_State
  imports Console Vfs_Fd
begin

text \<open>
  The state of the running kernel: the file system state extended with the console, the keyboard, the
  terminal, the task table of \<open>kernel/sched/sched.c\<close> and the contents of the page frames user programs
  live in. The descriptor table of a task is \<open>task_fds\<close> of theory \<open>Vfs_Tree\<close> and the current task is
  \<open>cur_task\<close>; both index the task table.
\<close>

section \<open>Words in memory\<close>

text \<open>Little-endian words in byte sequences.\<close>

primrec le_bytes :: "nat \<Rightarrow> nat \<Rightarrow> u8 list" where
  "le_bytes 0 n = []"
| "le_bytes (Suc k) n = of_nat (n mod 256) # le_bytes k (n div 256)"

primrec le_value :: "u8 list \<Rightarrow> nat" where
  "le_value [] = 0"
| "le_value (b # bs) = unat b + 256 * le_value bs"

lemma length_le_bytes [simp]: "length (le_bytes k n) = k"
  by (induction k arbitrary: n) simp_all

lemma le_value_bytes: "n < 256 ^ k \<Longrightarrow> le_value (le_bytes k n) = n"
proof (induction k arbitrary: n)
  case (Suc k)
  have "n div 256 < 256 ^ k" using Suc.prems by (simp add: less_mult_imp_div_less mult.commute)
  moreover have "unat (of_nat (n mod 256) :: u8) = n mod 256" by (simp add: unat_of_nat take_bit_eq_mod)
  ultimately show ?case using Suc.IH [of "n div 256"] by simp
qed simp

definition field :: "nat \<Rightarrow> nat \<Rightarrow> u8 list \<Rightarrow> nat" where
  "field off k bs = le_value (take k (drop off bs))"

section \<open>Tasks\<close>

definition TASK_READY :: u32 where "TASK_READY = 1"
definition TASK_RUNNING :: u32 where "TASK_RUNNING = 2"
definition TASK_ZOMBIE :: u32 where "TASK_ZOMBIE = 3"
definition TASK_NAME_MAX :: nat where "TASK_NAME_MAX = 32"

record task =
  t_pid :: u32
  t_state :: u32
  t_name :: string
  t_kstack :: u64
  t_kstack_top :: u64
  t_rsp :: u64
  t_ustack :: u64
  t_ustack_top :: u64
  t_cr3 :: u64
  t_fpu :: "u8 list"
  t_fs_base :: u64
  t_uid :: u32
  t_euid :: u32
  t_gid :: u32
  t_egid :: u32
  t_mmap_cur :: u64
  t_exit_status :: int

definition zero_task :: task where
  "zero_task = \<lparr>t_pid = 0, t_state = 0, t_name = [], t_kstack = 0, t_kstack_top = 0, t_rsp = 0, t_ustack = 0, t_ustack_top = 0,
     t_cr3 = 0, t_fpu = replicate 512 0, t_fs_base = 0, t_uid = 0, t_euid = 0, t_gid = 0, t_egid = 0, t_mmap_cur = 0, t_exit_status = 0\<rparr>"

section \<open>The kernel\<close>

record fb_device_info =
  fi_width :: u32
  fi_height :: u32
  fi_bpp :: u32
  fi_pitch :: u64
  fi_address :: u64

text \<open>\<open>page_bytes\<close> is the contents of page frames by their address in the direct map; \<open>fpu_regs\<close>, \<open>r_fs_base\<close> and
  \<open>r_rsp0\<close> are processor registers.\<close>

record 'h kernel = vfs +
  con :: "'h console"
  kb :: kbd
  g_termios :: "u8 list"
  g_tty_pend :: string
  g_tty_pend_n :: nat
  g_tty_pend_i :: nat
  fb_info :: fb_device_info
  g_tasks :: "nat \<Rightarrow> task"
  g_next_pid :: u32
  g_preempt_depth :: int
  g_ticks :: u64
  r_rsp0 :: u64
  r_fs_base :: u64
  fpu_regs :: "u8 list"
  page_bytes :: "u64 \<Rightarrow> u8"
  g_elf_fd :: klong

text \<open>\<open>sched_current\<close> and its fields.\<close>

definition sched_current :: "('h, 'a) kernel_scheme \<Rightarrow> task option" where
  "sched_current s = map_option (g_tasks s) (cur_task s)"

definition upd_task :: "nat \<Rightarrow> (task \<Rightarrow> task) \<Rightarrow> ('h, 'a) kernel_scheme \<Rightarrow> ('h, 'a) kernel_scheme" where
  "upd_task t g s = s\<lparr>g_tasks := (g_tasks s)(t := g (g_tasks s t))\<rparr>"

definition current_pid :: "('h, 'a) kernel_scheme \<Rightarrow> klong" where
  "current_pid s = (case sched_current s of Some t \<Rightarrow> uint (t_pid t) | None \<Rightarrow> 1)"

text \<open>The static storage of these parts at boot, on a given state of the parts below and of the ports. The
  default settings of the terminal are those of theory \<open>Devices\<close>.\<close>

definition kernel_boot :: "'h \<Rightarrow> u8 list \<Rightarrow> vfs \<Rightarrow> 'h kernel" where
  "kernel_boot h termios v =
     vfs.extend v (kernel.fields \<lparr>g_fb_active = False, g_ready = False, screen = fb_boot, ports = h\<rparr> kbd_boot termios
       (replicate 8 (CHR 0x00)) 0 0 \<lparr>fi_width = 0, fi_height = 0, fi_bpp = 0, fi_pitch = 0, fi_address = 0\<rparr>
       (\<lambda>_. zero_task) 1 0 0 0 0 (replicate 512 0) (\<lambda>_. 0) (- 1))"

lemmas kernel_boot_simps = kernel_boot_def vfs.extend_def kernel.fields_def

end
