(* ===== verification/Devices.thy ===== *)
theory Devices
  imports Kernel_State
begin

text \<open>
  The device nodes of \<open>kernel/vfs/devices.c\<close>: the drivers behind \<open>/dev/fb0\<close>, \<open>/dev/tty0\<close>, \<open>/dev/kbd0\<close>,
  \<open>/dev/serial0\<close>, \<open>/dev/null\<close> and \<open>/dev/zero\<close>, and \<open>vfs_devices_init\<close>, which creates them and opens the standard
  descriptors. The framebuffer driver addresses the pixel memory of theory \<open>Fb\<close>. A terminal read that
  waits resumes by calling the driver again; the source keeps the flags of \<open>g_termios\<close> it read before waiting.
\<close>

section \<open>Framebuffer device\<close>

abbreviation FB_IOCTL_GET_INFO :: u64 where "FB_IOCTL_GET_INFO \<equiv> 1"
abbreviation FB_IOCTL_FILL :: u64 where "FB_IOCTL_FILL \<equiv> 2"

definition fi_bytes :: "fb_device_info \<Rightarrow> u64" where
  "fi_bytes info = fi_pitch info * ucast (fi_height info)"

definition upd_screen :: "(fb \<Rightarrow> fb) \<Rightarrow> ('h, 'a) kernel_scheme \<Rightarrow> ('h, 'a) kernel_scheme" where
  "upd_screen g s = s\<lparr>con := (con s)\<lparr>screen := g (screen (con s))\<rparr>\<rparr>"

definition fb_clip :: "fb_device_info \<Rightarrow> u64 \<Rightarrow> u64 \<Rightarrow> u64" where
  "fb_clip info cnt pos = (if cnt > fi_bytes info - pos then fi_bytes info - pos else cnt)"

definition fb_read :: "u64 \<Rightarrow> u64 \<Rightarrow> u64 \<Rightarrow> ('h, 'a) kernel_scheme \<Rightarrow> (klong \<times> u8 list, ('h, 'a) kernel_scheme) io" where
  "fb_read priv cnt pos s =
     (if pos \<ge> fi_bytes (fb_info s) then Ret (0, []) s
      else let cnt = fb_clip (fb_info s) cnt pos
           in Ret (uint cnt, map (\<lambda>i. vram (screen (con s)) (unat pos + i)) [0..<unat cnt]) s)"

definition fb_write :: "u64 \<Rightarrow> u8 list \<Rightarrow> u64 \<Rightarrow> ('h, 'a) kernel_scheme \<Rightarrow> (klong, ('h, 'a) kernel_scheme) io" where
  "fb_write priv buf pos s =
     (if pos \<ge> fi_bytes (fb_info s) then Ret 0 s
      else let cnt = fb_clip (fb_info s) (of_nat (length buf)) pos; p = unat pos
           in Ret (uint cnt)
                (upd_screen (vram_update (\<lambda>v i. if p \<le> i \<and> i < p + unat cnt then buf ! (i - p) else v i)) s))"

text \<open>\<open>struct fb_device_info\<close> as bytes: four bytes of padding align \<open>pitch\<close>.\<close>

definition fb_info_bytes :: "fb_device_info \<Rightarrow> u8 list" where
  "fb_info_bytes info =
     le_bytes 4 (unat (fi_width info)) @ le_bytes 4 (unat (fi_height info)) @ le_bytes 4 (unat (fi_bpp info)) @
     replicate 4 0 @ le_bytes 8 (unat (fi_pitch info)) @ le_bytes 8 (unat (fi_address info))"

definition fb_ioctl :: "u64 \<Rightarrow> u64 \<Rightarrow> u8 list option \<Rightarrow> ('h, 'a) kernel_scheme \<Rightarrow> (klong \<times> u8 list) \<times> ('h, 'a) kernel_scheme" where
  "fb_ioctl priv req arg s =
     (if req = FB_IOCTL_GET_INFO
      then if arg = None then ((- EINVAL, []), s) else ((0, fb_info_bytes (fb_info s)), s)
      else if req = FB_IOCTL_FILL
      then ((0, []), upd_screen (fb_fill (case arg of Some a \<Rightarrow> of_nat (field 0 4 a) | None \<Rightarrow> 0)) s)
      else ((- ENOTTY, []), s))"

section \<open>Terminal\<close>

abbreviation TCGETS :: u64 where "TCGETS \<equiv> 0x5401"
abbreviation TCSETS :: u64 where "TCSETS \<equiv> 0x5402"
abbreviation TCSETSW :: u64 where "TCSETSW \<equiv> 0x5403"
abbreviation TCSETSF :: u64 where "TCSETSF \<equiv> 0x5404"
abbreviation TIOCGWINSZ :: u64 where "TIOCGWINSZ \<equiv> 0x5413"
abbreviation TUS_ICRNL :: u32 where "TUS_ICRNL \<equiv> 0x0100"
abbreviation TUS_ICANON :: u32 where "TUS_ICANON \<equiv> 0x0002"
abbreviation TUS_ECHO :: u32 where "TUS_ECHO \<equiv> 0x0008"

text \<open>\<open>struct tus_termios\<close> is the sequence of its bytes: four flag words, \<open>c_line\<close>, 32 control characters,
  three bytes of padding, two speeds.\<close>

definition TERMIOS_SIZE :: nat where "TERMIOS_SIZE = 60"

definition c_iflag :: "u8 list \<Rightarrow> u32" where
  "c_iflag t = of_nat (field 0 4 t)"

definition c_lflag :: "u8 list \<Rightarrow> u32" where
  "c_lflag t = of_nat (field 12 4 t)"

definition termios_boot :: "u8 list" where
  "termios_boot = le_bytes 4 0x0302 @ le_bytes 4 0x0001 @ le_bytes 4 0x10B1 @ le_bytes 4 0x803B @ [0] @
     (replicate 32 0)[6 := 1] @ replicate 3 0 @ le_bytes 4 0x1001 @ le_bytes 4 0x1001"

definition tty_map :: "int \<Rightarrow> string" where
  "tty_map code =
     (case map_of [(KBD_KEY_UP, ''[A''), (KBD_KEY_DOWN, ''[B''), (KBD_KEY_RIGHT, ''[C''), (KBD_KEY_LEFT, ''[D''),
         (KBD_KEY_HOME, ''[H''), (KBD_KEY_END, ''[F''), (KBD_KEY_DELETE, ''[3~''), (KBD_KEY_INSERT, ''[2~''),
         (KBD_KEY_PAGE_UP, ''[5~''), (KBD_KEY_PAGE_DOWN, ''[6~'')] code of
        Some str \<Rightarrow> CHR 0x1B # str
      | None \<Rightarrow> [])"

definition tty_special_byte :: "int \<Rightarrow> ('h, 'a) kernel_scheme \<Rightarrow> char \<times> ('h, 'a) kernel_scheme" where
  "tty_special_byte code s =
     (let str = tty_map code
      in if str = [] then (CHR 0x00, s)
         else let s = s\<lparr>g_tty_pend := str @ drop (length str) (g_tty_pend s), g_tty_pend_n := length str, g_tty_pend_i := 1\<rparr>
              in (g_tty_pend s ! 0, s))"

definition tty_cr :: "u8 list \<Rightarrow> char \<Rightarrow> char" where
  "tty_cr t c = (if c = CHR 0x0A \<and> c_iflag t AND TUS_ICRNL = 0 then CHR 0x0D else c)"

definition tty_echoes :: "char \<Rightarrow> bool" where
  "tty_echoes c \<longleftrightarrow> 0x20 \<le> schar c \<and> c \<noteq> CHR 0x7F"

text \<open>The loop over events: every round but the last takes one of at most 255 buffered events, so 256
  rounds are enough.\<close>

primrec tty_rounds :: "'h inb \<Rightarrow> 'h outb \<Rightarrow> bool \<Rightarrow> bool \<Rightarrow> klong \<Rightarrow> nat \<Rightarrow> ('h, 'a) kernel_scheme \<Rightarrow> (klong \<times> u8 list, ('h, 'a) kernel_scheme) io" where
  "tty_rounds inb outb canon echo pid 0 s = Loop"
| "tty_rounds inb outb canon echo pid (Suc n) s =
     (case kbd_get_event_owned pid (kb s) of
        Loop \<Rightarrow> Loop
      | Hlt i k \<Rightarrow> Hlt i (s\<lparr>kb := k\<rparr>)
      | Ret ev k \<Rightarrow>
          (let s = s\<lparr>kb := k\<rparr>
           in if ev_type ev = KBD_EVENT_SPECIAL
              then let (b, s) = tty_special_byte (ev_code ev) s
                   in if b = CHR 0x00 then tty_rounds inb outb canon echo pid n s else Ret (1, [char_byte b]) s
              else if ev_type ev \<noteq> KBD_EVENT_CHAR then tty_rounds inb outb canon echo pid n s
              else if ev_c ev = CHR 0x1B then if canon then Ret (0, []) s else Ret (1, [char_byte (ev_c ev)]) s
              else let c = tty_cr (g_termios s) (ev_c ev);
                       s = (if echo \<and> tty_echoes c then s\<lparr>con := console_putchar inb outb c (con s)\<rparr> else s)
                   in Ret (1, [char_byte c]) s))"

definition tty_read :: "'h inb \<Rightarrow> 'h outb \<Rightarrow> u64 \<Rightarrow> u64 \<Rightarrow> u64 \<Rightarrow> ('h, 'a) kernel_scheme \<Rightarrow> (klong \<times> u8 list, ('h, 'a) kernel_scheme) io" where
  "tty_read inb outb priv cnt pos s =
     (if cnt = 0 then Ret (0, []) s
      else if g_tty_pend_i s < g_tty_pend_n s
      then let b = g_tty_pend s ! g_tty_pend_i s;
               s = s\<lparr>g_tty_pend_i := g_tty_pend_i s + 1\<rparr>;
               s = (if g_tty_pend_i s = g_tty_pend_n s then s\<lparr>g_tty_pend_i := 0, g_tty_pend_n := 0\<rparr> else s)
           in Ret (1, [char_byte b]) s
      else tty_rounds inb outb (c_lflag (g_termios s) AND TUS_ICANON \<noteq> 0) (c_lflag (g_termios s) AND TUS_ECHO \<noteq> 0)
             (current_pid s) KBD_BUFFER_SIZE s)"

definition tty_write :: "'h inb \<Rightarrow> 'h outb \<Rightarrow> u64 \<Rightarrow> u8 list \<Rightarrow> u64 \<Rightarrow> ('h, 'a) kernel_scheme \<Rightarrow> (klong, ('h, 'a) kernel_scheme) io" where
  "tty_write inb outb priv buf pos s =
     Ret (int (length buf)) (s\<lparr>con := fold (\<lambda>b. console_putchar inb outb (byte_char b)) buf (con s)\<rparr>)"

definition tty_ioctl :: "u64 \<Rightarrow> u64 \<Rightarrow> u8 list option \<Rightarrow> ('h, 'a) kernel_scheme \<Rightarrow> (klong \<times> u8 list) \<times> ('h, 'a) kernel_scheme" where
  "tty_ioctl priv req arg s =
     (if req = TCGETS
      then if arg = None then ((- EINVAL, []), s) else ((0, g_termios s), s)
      else if req \<in> {TCSETS, TCSETSW, TCSETSF}
      then case arg of None \<Rightarrow> ((- EINVAL, []), s) | Some a \<Rightarrow> ((0, []), s\<lparr>g_termios := take TERMIOS_SIZE a\<rparr>)
      else if req = TIOCGWINSZ
      then if arg = None then ((- EINVAL, []), s)
           else let (cols, rows) = fb_get_grid (screen (con s))
                in ((0, le_bytes 2 (nat rows) @ le_bytes 2 (nat cols) @ replicate 4 0), s)
      else ((- ENOTTY, []), s))"

section \<open>Keyboard, serial line, null and zero\<close>

primrec kbd_read_rounds :: "nat \<Rightarrow> ('h, 'a) kernel_scheme \<Rightarrow> (klong \<times> u8 list, ('h, 'a) kernel_scheme) io" where
  "kbd_read_rounds 0 s = Loop"
| "kbd_read_rounds (Suc n) s =
     (case kbd_get_event (kb s) of
        Loop \<Rightarrow> Loop
      | Hlt i k \<Rightarrow> Hlt i (s\<lparr>kb := k\<rparr>)
      | Ret ev k \<Rightarrow>
          (let s = s\<lparr>kb := k\<rparr>
           in if ev_type ev = KBD_EVENT_SPECIAL \<or> ev_type ev \<noteq> KBD_EVENT_CHAR then kbd_read_rounds n s
              else if ev_c ev = CHR 0x1B then Ret (0, []) s
              else Ret (1, [char_byte (ev_c ev)]) s))"

definition kbd_read :: "u64 \<Rightarrow> u64 \<Rightarrow> u64 \<Rightarrow> ('h, 'a) kernel_scheme \<Rightarrow> (klong \<times> u8 list, ('h, 'a) kernel_scheme) io" where
  "kbd_read priv cnt pos s = (if cnt = 0 then Ret (0, []) s else kbd_read_rounds KBD_BUFFER_SIZE s)"

definition serial_write_dev :: "'h inb \<Rightarrow> 'h outb \<Rightarrow> u64 \<Rightarrow> u8 list \<Rightarrow> u64 \<Rightarrow> ('h, 'a) kernel_scheme \<Rightarrow> (klong, ('h, 'a) kernel_scheme) io" where
  "serial_write_dev inb outb priv buf pos s =
     Ret (int (length buf))
       (s\<lparr>con := (con s)\<lparr>ports := fold (\<lambda>b. serial_putchar inb outb (g_ready (con s)) (byte_char b)) buf (ports (con s))\<rparr>\<rparr>)"

definition null_write :: "u64 \<Rightarrow> u8 list \<Rightarrow> u64 \<Rightarrow> 's \<Rightarrow> (klong, 's) io" where
  "null_write priv buf pos s = Ret (int (length buf)) s"

definition null_read :: "u64 \<Rightarrow> u64 \<Rightarrow> u64 \<Rightarrow> 's \<Rightarrow> (klong \<times> u8 list, 's) io" where
  "null_read priv cnt pos s = Ret (0, []) s"

definition zero_read :: "u64 \<Rightarrow> u64 \<Rightarrow> u64 \<Rightarrow> 's \<Rightarrow> (klong \<times> u8 list, 's) io" where
  "zero_read priv cnt pos s = Ret (uint cnt, replicate (unat cnt) 0) s"

section \<open>The operation tables and initialisation\<close>

definition dev_read :: "'h inb \<Rightarrow> 'h outb \<Rightarrow> ('h, 'a) kernel_scheme drv_read" where
  "dev_read inb outb ops =
     (case ops of Fb_ops \<Rightarrow> Some fb_read | Tty_ops \<Rightarrow> Some (tty_read inb outb) | Kbd_ops \<Rightarrow> Some kbd_read
      | Null_ops \<Rightarrow> Some null_read | Zero_ops \<Rightarrow> Some zero_read | _ \<Rightarrow> None)"

definition dev_write :: "'h inb \<Rightarrow> 'h outb \<Rightarrow> ('h, 'a) kernel_scheme drv_write" where
  "dev_write inb outb ops =
     (case ops of Fb_ops \<Rightarrow> Some fb_write | Tty_ops \<Rightarrow> Some (tty_write inb outb)
      | Serial_ops \<Rightarrow> Some (serial_write_dev inb outb) | Null_ops \<Rightarrow> Some null_write | Zero_ops \<Rightarrow> Some null_write | _ \<Rightarrow> None)"

definition dev_ioctl :: "('h, 'a) kernel_scheme drv_ioctl" where
  "dev_ioctl ops = (case ops of Fb_ops \<Rightarrow> Some fb_ioctl | Tty_ops \<Rightarrow> Some tty_ioctl | _ \<Rightarrow> None)"

text \<open>\<open>info_ptr\<close> is the address of the static \<open>fb_info\<close>.\<close>

definition devices_init :: "u64 \<Rightarrow> ('h, 'a) kernel_scheme \<Rightarrow> ('h, 'a) kernel_scheme" where
  "devices_init info_ptr s =
     (let (w, h, bpp, pitch, address) = fb_get_info (screen (con s));
          s = s\<lparr>fb_info := \<lparr>fi_width = of_nat w, fi_height = of_nat h, fi_bpp = bpp, fi_pitch = of_nat pitch, fi_address = address\<rparr>\<rparr>
      in fold (\<lambda>(path, ops, priv) s. snd (vfs_create_device path ops priv s))
           [(''/dev/fb0'', Fb_ops, info_ptr), (''/dev/tty0'', Tty_ops, NULL), (''/dev/kbd0'', Kbd_ops, NULL),
            (''/dev/serial0'', Serial_ops, NULL), (''/dev/null'', Null_ops, NULL), (''/dev/zero'', Zero_ops, NULL)] s)"

text \<open>One round of the loop that opens the standard descriptors.\<close>

definition open_std :: "u64 \<Rightarrow> nat \<Rightarrow> 'a vfs_scheme \<Rightarrow> 'a vfs_scheme" where
  "open_std tty0 i s =
     (let (f, s) = kalloc 32 s
      in if f = NULL then s
         else let s = upd_file f (\<lambda>_. \<lparr>f_node = tty0, f_pipe = NULL, f_pos = 0, f_flags = O_RDWR, f_refs = 1\<rparr>) s
              in case cur_task s of None \<Rightarrow> krelease f s | Some t \<Rightarrow> set_fd t i f s)"

definition vfs_devices_init :: "u64 \<Rightarrow> ('h, 'a) kernel_scheme \<Rightarrow> ('h, 'a) kernel_scheme" where
  "vfs_devices_init info_ptr s =
     (let s = fold ensure_dir [''/dev'', ''/tmp'', ''/etc'', ''/boot''] s;
          s = devices_init info_ptr s;
          tty0 = vfs_lookup ''/dev/tty0'' s
      in if tty0 \<noteq> NULL then fold (open_std tty0) [0..<3] s else s)"

section \<open>The terminal as a stream\<close>

text \<open>What the readers of the terminal see, written without the loop and the pending buffer: a byte, or
  \<open>None\<close> for the end of the input that Escape stands for in canonical mode.\<close>

definition tty_key :: "u8 list \<Rightarrow> kbd_event \<Rightarrow> u8 option list" where
  "tty_key t ev =
     (if ev_type ev = KBD_EVENT_SPECIAL then map (\<lambda>c. Some (char_byte c)) (tty_map (ev_code ev))
      else if ev_type ev \<noteq> KBD_EVENT_CHAR then []
      else if ev_c ev = CHR 0x1B \<and> c_lflag t AND TUS_ICANON \<noteq> 0 then [None]
      else [Some (char_byte (tty_cr t (ev_c ev)))])"

definition tty_pending :: "('h, 'a) kernel_scheme \<Rightarrow> string" where
  "tty_pending s = drop (g_tty_pend_i s) (take (g_tty_pend_n s) (g_tty_pend s))"

definition tty_stream :: "('h, 'a) kernel_scheme \<Rightarrow> u8 option list" where
  "tty_stream s = map (\<lambda>c. Some (char_byte c)) (tty_pending s) @ concat (map (tty_key (g_termios s)) (kbd_events (kb s)))"

definition tty_ok :: "('h, 'a) kernel_scheme \<Rightarrow> bool" where
  "tty_ok s \<longleftrightarrow> kbd_ok (kb s) \<and> length (g_tty_pend s) = 8 \<and> g_tty_pend_n s \<le> 8 \<and> g_tty_pend_i s \<le> g_tty_pend_n s"

definition tty_may_read :: "('h, 'a) kernel_scheme \<Rightarrow> bool" where
  "tty_may_read s \<longleftrightarrow> g_kbd_owner (kb s) = 0 \<or> g_kbd_owner (kb s) = current_pid s"

lemma kbd_get_event_owned_queue:
  assumes ok: "kbd_ok k" and own: "g_kbd_owner k = 0 \<or> g_kbd_owner k = pid"
  shows "case kbd_events k of
           [] \<Rightarrow> \<exists>k'. kbd_get_event_owned pid k = Hlt 0 k' \<and> kbd_ok k' \<and> kbd_events k' = [] \<and> g_kbd_owner k' = pid
         | ev # evs \<Rightarrow> \<exists>k'. kbd_get_event_owned pid k = Ret ev k' \<and> kbd_ok k' \<and> kbd_events k' = evs \<and> g_kbd_owner k' = pid"
proof -
  let ?k = "if g_kbd_owner k = 0 then k\<lparr>g_kbd_owner := pid\<rparr> else k"
  have k: "kbd_ok ?k" "kbd_events ?k = kbd_events k" "g_kbd_owner ?k = pid"
    using kbd_ring_cong [of ?k k] ok own by auto
  have r: "kbd_get_event_owned pid k =
      (if g_head ?k = g_tail ?k then Hlt 0 ?k else case kbd_pop ?k of (ev, k) \<Rightarrow> Ret ev k)"
    using k(3) by (simp add: kbd_get_event_owned_def Let_def)
  show ?thesis
  proof (cases "g_head ?k = g_tail ?k")
    case True
    then show ?thesis using r k kbd_empty_iff [OF k(1)] by (simp split: list.split)
  next
    case False
    from kbd_pop_queue [OF k(1) False] have q: "kbd_ok (snd (kbd_pop ?k))"
      "kbd_events k = fst (kbd_pop ?k) # kbd_events (snd (kbd_pop ?k))" unfolding k(2) .
    have o: "g_kbd_owner (snd (kbd_pop ?k)) = pid" using k(3) by (simp add: kbd_pop_def)
    have r2: "kbd_get_event_owned pid k = Ret (fst (kbd_pop ?k)) (snd (kbd_pop ?k))"
      unfolding r using False by (simp add: case_prod_unfold)
    show ?thesis unfolding q(2) list.case using r2 q(1) o by blast
  qed
qed

lemma current_pid_frame [frame_simps]:
  "current_pid (s\<lparr>kb := k\<rparr>) = current_pid s" "current_pid (s\<lparr>con := c\<rparr>) = current_pid s"
  "current_pid (s\<lparr>g_tty_pend := p\<rparr>) = current_pid s" "current_pid (s\<lparr>g_tty_pend_n := n\<rparr>) = current_pid s"
  "current_pid (s\<lparr>g_tty_pend_i := i\<rparr>) = current_pid s"
  by (simp_all add: current_pid_def sched_current_def split: option.split)

definition tty_result :: "u8 option \<Rightarrow> klong \<times> u8 list" where
  "tty_result b = (case b of Some b \<Rightarrow> (1, [b]) | None \<Rightarrow> (0, []))"

lemma tty_result_simps [simp]: "tty_result (Some b) = (1, [b])" "tty_result None = (0, [])"
  by (simp_all add: tty_result_def)

text \<open>One read hands out the first item of the stream, or waits when there is none.\<close>

definition tty_reads :: "('h, 'a) kernel_scheme \<Rightarrow> (klong \<times> u8 list, ('h, 'a) kernel_scheme) io \<Rightarrow> bool" where
  "tty_reads s r \<longleftrightarrow>
     (\<exists>s'. r = (case tty_stream s of [] \<Rightarrow> Hlt 0 s' | b # _ \<Rightarrow> Ret (tty_result b) s') \<and>
           tty_stream s' = tl (tty_stream s) \<and> tty_ok s' \<and> tty_may_read s' \<and> g_termios s' = g_termios s \<and>
           vfs.truncate s' = vfs.truncate s \<and> (c_lflag (g_termios s) AND TUS_ECHO = 0 \<longrightarrow> con s' = con s))"

lemma tty_map_facts: "length (tty_map code) \<le> 4" "tty_map code \<noteq> [] \<Longrightarrow> 2 \<le> length (tty_map code) \<and> tty_map code ! 0 = CHR 0x1B"
  by (auto simp: tty_map_def split: option.splits if_splits)

lemma tty_readsI:
  assumes "tty_stream s = b # bs" "r = Ret (tty_result b) s'" "tty_stream s' = bs" "tty_ok s'" "tty_may_read s'"
    "g_termios s' = g_termios s" "vfs.truncate s' = vfs.truncate s" "c_lflag (g_termios s) AND TUS_ECHO = 0 \<longrightarrow> con s' = con s"
  shows "tty_reads s r"
  using assms unfolding tty_reads_def by auto

lemma tty_rounds_reads:
  assumes "tty_ok s" "tty_may_read s" "tty_pending s = []" "length (kbd_events (kb s)) < n"
  shows "tty_reads s (tty_rounds inb outb (c_lflag (g_termios s) AND TUS_ICANON \<noteq> 0) (c_lflag (g_termios s) AND TUS_ECHO \<noteq> 0)
           (current_pid s) n s)"
  using assms
proof (induction n arbitrary: s)
  case 0
  then show ?case by simp
next
  case (Suc n)
  have ok: "kbd_ok (kb s)" "length (g_tty_pend s) = 8" "g_tty_pend_n s \<le> 8" "g_tty_pend_i s \<le> g_tty_pend_n s"
    using Suc.prems(1) by (auto simp: tty_ok_def)
  have own: "g_kbd_owner (kb s) = 0 \<or> g_kbd_owner (kb s) = current_pid s" using Suc.prems(2) by (simp add: tty_may_read_def)
  note q = kbd_get_event_owned_queue [OF ok(1) own]
  show ?case
  proof (cases "kbd_events (kb s)")
    case Nil
    with q obtain k where "kbd_get_event_owned (current_pid s) (kb s) = Hlt 0 k" "kbd_ok k" "kbd_events k = []" "g_kbd_owner k = current_pid s"
      by auto
    with Nil Suc.prems(3) ok show ?thesis
      by (auto simp: tty_reads_def tty_stream_def tty_ok_def tty_may_read_def tty_pending_def frame_simps vfs.defs
          intro!: exI [of _ "s\<lparr>kb := k\<rparr>"])
  next
    case (Cons ev evs)
    with q obtain k where k: "kbd_get_event_owned (current_pid s) (kb s) = Ret ev k" "kbd_ok k" "kbd_events k = evs" "g_kbd_owner k = current_pid s"
      by auto
    let ?s = "s\<lparr>kb := k\<rparr>"
    have st: "tty_stream s = tty_key (g_termios s) ev @ tty_stream ?s"
      using Suc.prems(3) Cons k by (simp add: tty_stream_def tty_pending_def)
    have ok': "tty_ok ?s" "tty_may_read ?s" "tty_pending ?s = []" "current_pid ?s = current_pid s" "vfs.truncate ?s = vfs.truncate s"
      using ok k Suc.prems(3)
      by (auto simp: tty_ok_def tty_may_read_def frame_simps tty_pending_def vfs.defs)
    have skip: ?thesis if "tty_key (g_termios s) ev = []"
      "tty_rounds inb outb (c_lflag (g_termios s) AND TUS_ICANON \<noteq> 0) (c_lflag (g_termios s) AND TUS_ECHO \<noteq> 0) (current_pid s) (Suc n) s
       = tty_rounds inb outb (c_lflag (g_termios s) AND TUS_ICANON \<noteq> 0) (c_lflag (g_termios s) AND TUS_ECHO \<noteq> 0) (current_pid s) n ?s"
    proof -
      have "length (kbd_events (kb ?s)) < n" using Suc.prems(4) k Cons by simp
      from Suc.IH [OF ok'(1-3) this] show ?thesis
        using st that(1) ok'(4,5) unfolding that(2) tty_reads_def by simp
    qed
    consider (special) "ev_type ev = KBD_EVENT_SPECIAL" | (other) "ev_type ev \<noteq> KBD_EVENT_SPECIAL" "ev_type ev \<noteq> KBD_EVENT_CHAR"
      | (esc) "ev_type ev = KBD_EVENT_CHAR" "ev_c ev = CHR 0x1B" | (char) "ev_type ev = KBD_EVENT_CHAR" "ev_c ev \<noteq> CHR 0x1B"
      by blast
    then show ?thesis
    proof cases
      case special
      show ?thesis
      proof (cases "tty_map (ev_code ev) = []")
        case True
        then show ?thesis using special k by (intro skip) (simp_all add: tty_key_def tty_special_byte_def)
      next
        case False
        then obtain ms where m: "tty_map (ev_code ev) = CHR 0x1B # ms" "length ms \<le> 3" "ms \<noteq> []"
          using tty_map_facts [of "ev_code ev"] by (cases "tty_map (ev_code ev)") (auto simp: Suc_le_length_iff)
        let ?t = "?s\<lparr>g_tty_pend := CHR 0x1B # ms @ drop (length ms) (drop 1 (g_tty_pend s)), g_tty_pend_n := Suc (length ms), g_tty_pend_i := 1\<rparr>"
        have p: "tty_pending ?t = ms" by (simp add: tty_pending_def)
        have t: "tty_special_byte (ev_code ev) ?s = (CHR 0x1B, ?t)" by (simp add: tty_special_byte_def m)
        show ?thesis
        proof (rule tty_readsI [where s' = ?t])
          show "tty_stream s = Some (char_byte (CHR 0x1B)) # map (\<lambda>c. Some (char_byte c)) ms @ tty_stream ?s"
            unfolding st tty_key_def using special m(1) by simp
          show "tty_stream ?t = map (\<lambda>c. Some (char_byte c)) ms @ tty_stream ?s" unfolding tty_stream_def p ok'(3) by simp
          show "tty_ok ?t" using m ok' ok by (simp add: tty_ok_def)
        qed (use special k t ok' in \<open>simp_all add: tty_may_read_def frame_simps vfs.defs\<close>)
      qed
    next
      case other
      then show ?thesis using k by (intro skip) (simp_all add: tty_key_def)
    next
      case esc
      let ?b = "if c_lflag (g_termios s) AND TUS_ICANON \<noteq> 0 then None else Some (char_byte (CHR 0x1B))"
      show ?thesis
        by (rule tty_readsI [where s' = ?s and b = ?b and bs = "tty_stream ?s"])
           (use esc k st ok' in \<open>simp_all add: tty_key_def tty_cr_def\<close>)
    next
      case char
      let ?c = "tty_cr (g_termios s) (ev_c ev)"
      let ?t = "if c_lflag (g_termios s) AND TUS_ECHO \<noteq> 0 \<and> tty_echoes ?c then ?s\<lparr>con := console_putchar inb outb ?c (con s)\<rparr> else ?s"
      have "tty_stream ?t = tty_stream ?s" by (simp add: tty_stream_def tty_pending_def)
      with char k st ok' show ?thesis
        by (intro tty_readsI [where s' = ?t and b = "Some (char_byte ?c)" and bs = "tty_stream ?s"])
           (simp_all add: tty_key_def tty_ok_def tty_may_read_def frame_simps vfs.defs Let_def)
    qed
  qed
qed

text \<open>C32: The terminal input of a task that owns the keyboard, or may take it, is a stream: each read hands out
  its first item and leaves the rest, and waits exactly when the stream is empty. The stream is the
  rest of an escape sequence already begun, followed by the bytes of the typed keys: arrow and editing keys
  as escape sequences, Enter as a carriage return when ICRNL is clear, and in canonical mode Escape as end
  of file. Reads change neither the settings nor the file system, and without ECHO not the console.\<close>

theorem tty_read_stream:
  assumes "tty_ok s" "tty_may_read s" "cnt \<noteq> 0"
  shows "tty_reads s (tty_read inb outb priv cnt pos s)"
proof (cases "g_tty_pend_i s < g_tty_pend_n s")
  case True
  let ?s = "s\<lparr>g_tty_pend_i := g_tty_pend_i s + 1\<rparr>"
  let ?t = "if g_tty_pend_i s + 1 = g_tty_pend_n s then ?s\<lparr>g_tty_pend_i := 0, g_tty_pend_n := 0\<rparr> else ?s"
  have ok: "kbd_ok (kb s)" "length (g_tty_pend s) = 8" "g_tty_pend_n s \<le> 8" using assms(1) by (auto simp: tty_ok_def)
  have p: "tty_pending s = g_tty_pend s ! g_tty_pend_i s # tty_pending ?t"
    using True ok by (auto simp: tty_pending_def Cons_nth_drop_Suc [symmetric])
  show ?thesis
    by (rule tty_readsI [where s' = ?t and b = "Some (char_byte (g_tty_pend s ! g_tty_pend_i s))" and bs = "tty_stream ?t"])
       (use True assms ok in \<open>simp_all add: tty_stream_def p tty_read_def tty_ok_def tty_may_read_def frame_simps vfs.defs\<close>)
next
  case False
  then have "tty_pending s = []" by (simp add: tty_pending_def)
  moreover have "length (kbd_events (kb s)) < KBD_BUFFER_SIZE" using assms(1) kbd_fill_bound by (auto simp: tty_ok_def)
  ultimately show ?thesis using tty_rounds_reads [OF assms(1,2)] assms(3) False by (simp add: tty_read_def)
qed


text \<open>The arrow-up key has been typed.\<close>

definition tty_example :: "unit kernel" where
  "tty_example = (kernel_boot () termios_boot vfs_example)\<lparr>kb := kbd_push_event (special_event KBD_KEY_UP) kbd_boot\<rparr>"

lemma kbd_boot_queue: "kbd_ok kbd_boot" "kbd_events kbd_boot = []" "g_kbd_owner kbd_boot = 0"
  by (simp_all add: kbd_ok_def kbd_boot_def kbd_events_def kbd_fill_def)

lemma tty_example_ok: "tty_ok tty_example" "tty_may_read tty_example" "tty_stream tty_example = [Some 0x1B, Some 0x5B, Some 0x41]"
proof -
  note q = kbd_push_event_queue [OF kbd_boot_queue(1), of "special_event KBD_KEY_UP"]
  have k: "kb tty_example = kbd_push_event (special_event KBD_KEY_UP) kbd_boot" by (simp add: tty_example_def)
  show "tty_ok tty_example" using q by (simp add: tty_ok_def k) (simp add: tty_example_def kernel_boot_simps)
  show "tty_may_read tty_example" by (simp add: tty_may_read_def k kbd_boot_queue)
  have f: "kbd_fill kbd_boot = 0" by (simp add: kbd_fill_def kbd_boot_def)
  have "kbd_events (kb tty_example) = [special_event KBD_KEY_UP]" unfolding k q by (simp add: kbd_boot_queue f)
  moreover have "tty_pending tty_example = []" by (simp add: tty_pending_def tty_example_def kernel_boot_simps)
  ultimately show "tty_stream tty_example = [Some 0x1B, Some 0x5B, Some 0x41]"
    by (simp add: tty_stream_def tty_key_def special_event_def tty_map_def char_byte_def)
qed

theorem tty_read_stream_witness:
  "tty_reads tty_example (tty_read (\<lambda>_ h. (0, h)) (\<lambda>_ _ h. h) NULL 1 0 tty_example) \<and>
   tty_stream tty_example = [Some 0x1B, Some 0x5B, Some 0x41]"
  using tty_read_stream [OF tty_example_ok(1,2), of 1] tty_example_ok(3) by simp

end
