(* ===== verification/Sched.thy ===== *)
theory Sched
  imports Devices
begin

text \<open>
  The round-robin scheduler, \<open>kernel/sched/sched.c\<close>: the task table, creation of user tasks with their
  initial stack image and interrupt frame, the timer tick and the end of a task. The assembly stub around
  \<open>sched_tick\<close> only saves and restores registers on the kernel stack whose pointer the tick exchanges; the
  register contents stay on the stack of their task. The contents of page frames and of page tables are
  separate parts of the state.
\<close>

section \<open>The initial user stack\<close>

type_synonym bytes = "u64 \<Rightarrow> u8"

definition poke :: "u64 \<Rightarrow> u8 list \<Rightarrow> bytes \<Rightarrow> bytes" where
  "poke a xs m = (\<lambda>x. if unat (x - a) < length xs then xs ! unat (x - a) else m x)"

definition peek :: "u64 \<Rightarrow> nat \<Rightarrow> bytes \<Rightarrow> u8 list" where
  "peek a n m = map (\<lambda>i. m (a + of_nat i)) [0..<n]"

definition c_string :: "string \<Rightarrow> u8 list" where
  "c_string str = map char_byte str @ [0]"

definition USER_STACK_SIZE :: u64 where "USER_STACK_SIZE = 65536"
definition USER_STACK_BASE :: u64 where "USER_STACK_BASE = 0x60000000"
definition AT_PAGESZ :: u64 where "AT_PAGESZ = 6"

text \<open>The address of the top stack page.\<close>

abbreviation STACK_PAGE :: u64 where "STACK_PAGE \<equiv> USER_STACK_BASE + USER_STACK_SIZE - 4096"

text \<open>The program name and the arguments; \<open>argv\<close> may be NULL and so may be its entries.\<close>

definition stack_args :: "string \<Rightarrow> int \<Rightarrow> (nat \<Rightarrow> string option) option \<Rightarrow> string list" where
  "stack_args name argc argv =
     (let nargs = (if argc + 1 > 16 then 16 else nat (argc + 1))
      in name # map (\<lambda>i. case argv of None \<Rightarrow> [] | Some v \<Rightarrow> (case v (i - 1) of Some a \<Rightarrow> a | None \<Rightarrow> [])) [1..<nargs])"

definition stack_need :: "string list \<Rightarrow> nat" where
  "stack_need args = 8 + (length args + 6) * 8 + (\<Sum>a\<leftarrow>args. length a + 1)"

text \<open>The loop that copies the strings downwards from \<open>sptr\<close>: the pointers, the last position, the memory.\<close>

fun put_strings :: "string list \<Rightarrow> u64 \<Rightarrow> bytes \<Rightarrow> u64 list \<times> u64 \<times> bytes" where
  "put_strings [] sptr m = ([], sptr, m)"
| "put_strings (a # args) sptr m =
     (let sptr = sptr - of_nat (length a + 1);
          m = poke sptr (c_string a) m;
          (ps, low, m) = put_strings args sptr m
      in (sptr # ps, low, m))"

definition stack_words :: "u64 list \<Rightarrow> u64 list" where
  "stack_words ptrs = of_nat (length ptrs) # ptrs @ [0, 0, AT_PAGESZ, 4096, 0]"

definition words_bytes :: "u64 list \<Rightarrow> u8 list" where
  "words_bytes ws = concat (map (\<lambda>w. le_bytes 8 (unat w)) ws)"

text \<open>The image in the frame at \<open>base\<close> of the direct map: the initial stack pointer as a user address.\<close>

definition put_stack :: "u64 \<Rightarrow> string list \<Rightarrow> bytes \<Rightarrow> u64 \<times> bytes" where
  "put_stack base args m =
     (let (ps, sptr, m) = put_strings args (base + 4096) m;
          init = (sptr AND NOT 7) - of_nat ((length args + 6) * 8);
          m = poke init (words_bytes (stack_words (map (\<lambda>p. STACK_PAGE + (p - base)) ps))) m
      in (STACK_PAGE + (init - base), m))"

text \<open>The loop that maps zeroed pages at \<open>USER_STACK_BASE\<close>; false if it returns early.\<close>

fun map_stack_pages :: "u64 \<Rightarrow> nat list \<Rightarrow> ('h, 'a) kernel_scheme \<Rightarrow> bool \<times> ('h, 'a) kernel_scheme" where
  "map_stack_pages cr3 [] s = (True, s)"
| "map_stack_pages cr3 (i # is) s =
     (let (frame, s) = pmm_alloc_frame s
      in if frame = 0 then (False, s)
         else let s = s\<lparr>page_bytes := poke (pmm_phys_to_virt s frame) (replicate 4096 0) (page_bytes s)\<rparr>;
                  (r, s) = vmm_map_page_in cr3 (USER_STACK_BASE + of_nat i * 4096) frame
                             (VMM_PRESENT OR VMM_WRITE OR VMM_USER) s
              in if r \<noteq> 0 then (False, s) else map_stack_pages cr3 is s)"

text \<open>Mapping the stack and writing the image, up to the initial stack pointer; 0 is failure.\<close>

definition user_stack :: "u64 \<Rightarrow> string list \<Rightarrow> ('h, 'a) kernel_scheme \<Rightarrow> u64 \<times> ('h, 'a) kernel_scheme" where
  "user_stack cr3 args s =
     (let (ok, s) = map_stack_pages cr3 [0..<16] s
      in if \<not> ok then (0, s)
         else let (top_frame, s) = vmm_translate_in cr3 STACK_PAGE s
              in if top_frame = 0 \<or> stack_need args > 4096 then (0, s)
                 else let (rsp, m) = put_stack (pmm_phys_to_virt s top_frame) args (page_bytes s)
                      in (rsp, s\<lparr>page_bytes := m\<rparr>))"

section \<open>The task table\<close>

definition STACK_SIZE :: u64 where "STACK_SIZE = 16384"
definition MMAP_CURSOR_START :: u64 where "MMAP_CURSOR_START = 0x40000000"
definition SEL_USER_CODE :: u64 where "SEL_USER_CODE = 0x1B"
definition SEL_USER_DATA :: u64 where "SEL_USER_DATA = 0x23"

definition clear_slot :: "nat \<Rightarrow> ('h, 'a) kernel_scheme \<Rightarrow> ('h, 'a) kernel_scheme" where
  "clear_slot i s = s\<lparr>g_tasks := (g_tasks s)(i := zero_task), task_fds := (task_fds s)(i := (\<lambda>_. NULL))\<rparr>"

definition task_find_slot :: "('h, 'a) kernel_scheme \<Rightarrow> nat option \<times> ('h, 'a) kernel_scheme" where
  "task_find_slot s =
     (case find (\<lambda>i. t_state (g_tasks s i) = TASK_ZOMBIE) [0..<TASK_MAX] of
        Some i \<Rightarrow> (Some i, clear_slot i s)
      | None \<Rightarrow> (find (\<lambda>i. t_state (g_tasks s i) = 0) [0..<TASK_MAX], s))"

definition runnable :: "task \<Rightarrow> bool" where
  "runnable t \<longleftrightarrow> t_state t = TASK_READY \<or> t_state t = TASK_RUNNING"

definition task_next :: "nat \<Rightarrow> ('h, 'a) kernel_scheme \<Rightarrow> nat" where
  "task_next after s =
     (case find (\<lambda>i. runnable (g_tasks s ((after + i) mod TASK_MAX))) [1..<Suc TASK_MAX] of
        Some i \<Rightarrow> (after + i) mod TASK_MAX
      | None \<Rightarrow> after)"

definition sched_task_count :: "('h, 'a) kernel_scheme \<Rightarrow> nat" where
  "sched_task_count s = length (filter (\<lambda>i. runnable (g_tasks s i)) [0..<TASK_MAX])"

definition sched_task_alive :: "u32 \<Rightarrow> ('h, 'a) kernel_scheme \<Rightarrow> bool" where
  "sched_task_alive pid s \<longleftrightarrow>
     list_ex (\<lambda>i. t_pid (g_tasks s i) = pid \<and> t_state (g_tasks s i) \<noteq> TASK_ZOMBIE) [0..<TASK_MAX]"

text \<open>A line \<open>task_list_all\<close> prints.\<close>

definition task_line :: "task \<Rightarrow> string" where
  "task_line t =
     (if t_state t = 0 then []
      else case kvprintf (''%-4u %-8s %-10llx %s'' @ [CHR 0x0A])
             [Arg_word (ucast (t_pid t)),
              Arg_str (Some (if t_state t = TASK_RUNNING then ''running'' else if t_state t = TASK_READY then ''ready'' else ''zombie'')),
              Arg_word (t_cr3 t), Arg_str (Some (t_name t))] of
             Some str \<Rightarrow> str
           | None \<Rightarrow> [])"

definition task_list_all :: "'h inb \<Rightarrow> 'h outb \<Rightarrow> ('h, 'a) kernel_scheme \<Rightarrow> ('h, 'a) kernel_scheme" where
  "task_list_all inb outb s =
     s\<lparr>con := console_write inb outb (concat (map (\<lambda>i. task_line (g_tasks s i)) [0..<TASK_MAX])) (con s)\<rparr>"

definition tss_set_rsp0 :: "u64 \<Rightarrow> ('h, 'a) kernel_scheme \<Rightarrow> ('h, 'a) kernel_scheme" where
  "tss_set_rsp0 rsp0 s = s\<lparr>r_rsp0 := rsp0\<rparr>"

text \<open>\<open>None\<close>: the table is full, which does not happen at boot. A failed \<open>kmalloc\<close> is not tested.\<close>

definition sched_init :: "('h, 'a) kernel_scheme \<Rightarrow> ('h, 'a) kernel_scheme option" where
  "sched_init s =
     (case task_find_slot s of
        (None, _) \<Rightarrow> None
      | (Some i, s) \<Rightarrow>
          (let s = s\<lparr>cur_task := Some i, g_next_pid := g_next_pid s + 1\<rparr>;
               s = upd_task i (\<lambda>t. t\<lparr>t_pid := g_next_pid s - 1, t_state := TASK_RUNNING, t_name := ''tsh'',
                      t_cr3 := vmm_root_cr3 s, t_fs_base := 0, t_mmap_cur := MMAP_CURSOR_START\<rparr>) s;
               (k, s) = kalloc STACK_SIZE s;
               s = upd_task i (\<lambda>t. t\<lparr>t_kstack := k, t_kstack_top := k + STACK_SIZE, t_rsp := 0, t_fpu := fpu_regs s\<rparr>) s
           in Some (tss_set_rsp0 (k + STACK_SIZE) (s\<lparr>r_fs_base := 0\<rparr>))))"

text \<open>The default floating point state and the words of the fake interrupt frame, lowest first.\<close>

definition fpu_boot :: "u8 list" where
  "fpu_boot = le_bytes 2 0x037F @ replicate 2 0 @ le_bytes 2 0xFFFF @ replicate 18 0 @ le_bytes 4 0x1F80 @ le_bytes 4 0xFFFF @
     replicate 480 0"

definition user_frame :: "u64 \<Rightarrow> u64 \<Rightarrow> u64 list" where
  "user_frame entry rsp = replicate 15 0 @ [entry, SEL_USER_CODE, 0x3202, rsp, SEL_USER_DATA]"

definition task_create_user ::
  "u64 \<Rightarrow> string \<Rightarrow> u64 \<Rightarrow> int \<Rightarrow> (nat \<Rightarrow> string option) option \<Rightarrow> ('h, 'a) kernel_scheme \<Rightarrow> int \<times> ('h, 'a) kernel_scheme" where
  "task_create_user entry name cr3 argc argv s =
     (case task_find_slot s of
        (None, s) \<Rightarrow> (-1, s)
      | (Some i, s) \<Rightarrow>
          (let (kstack, s) = kalloc STACK_SIZE s
           in if kstack = NULL then (-1, s)
              else
                let (rsp, s) = user_stack cr3 (stack_args name argc argv) s
                in if rsp = 0 then (-1, s)
                   else
                     let pid = g_next_pid s;
                         s = s\<lparr>g_next_pid := pid + 1\<rparr>;
                         s = upd_task i (\<lambda>t. t\<lparr>t_pid := pid, t_state := TASK_READY, t_name := take (TASK_NAME_MAX - 1) name,
                               t_kstack := kstack, t_kstack_top := kstack + STACK_SIZE, t_ustack := USER_STACK_BASE,
                               t_ustack_top := USER_STACK_BASE + USER_STACK_SIZE, t_cr3 := cr3, t_fs_base := 0,
                               t_mmap_cur := MMAP_CURSOR_START, t_uid := 0, t_euid := 0, t_gid := 0, t_egid := 0\<rparr>) s;
                         s = (case cur_task s of Some c \<Rightarrow> vfs_fd_inherit i c s | None \<Rightarrow> s);
                         s = store_bytes (kstack + STACK_SIZE - 160) (words_bytes (user_frame entry rsp)) s;
                         s = upd_task i (\<lambda>t. t\<lparr>t_fpu := fpu_boot, t_rsp := kstack + STACK_SIZE - 160\<rparr>) s
                     in (sint (pid), s)))"

section \<open>Preemption\<close>

definition preempt_disable :: "('h, 'a) kernel_scheme \<Rightarrow> ('h, 'a) kernel_scheme" where
  "preempt_disable s = s\<lparr>g_preempt_depth := g_preempt_depth s + 1\<rparr>"

definition preempt_enable :: "('h, 'a) kernel_scheme \<Rightarrow> ('h, 'a) kernel_scheme" where
  "preempt_enable s = (if g_preempt_depth s > 0 then s\<lparr>g_preempt_depth := g_preempt_depth s - 1\<rparr> else s)"

text \<open>What \<open>sched_tick\<close> and \<open>task_exit\<close> share once the next task is known: \<open>c\<close> is the outgoing task.\<close>

definition switch_to :: "nat \<Rightarrow> nat \<Rightarrow> ('h, 'a) kernel_scheme \<Rightarrow> ('h, 'a) kernel_scheme" where
  "switch_to c n s =
     (let s = upd_task n (\<lambda>t. t\<lparr>t_state := TASK_RUNNING\<rparr>) s;
          s = tss_set_rsp0 (t_kstack_top (g_tasks s n)) s;
          s = upd_task c (\<lambda>t. t\<lparr>t_fpu := fpu_regs s\<rparr>) s;
          s = vmm_space_switch (t_cr3 (g_tasks s n)) s;
          s = s\<lparr>fpu_regs := t_fpu (g_tasks s n), r_fs_base := t_fs_base (g_tasks s n)\<rparr>
      in s\<lparr>cur_task := Some n\<rparr>)"

definition upd_ports :: "('h \<Rightarrow> 'h) \<Rightarrow> ('h, 'a) kernel_scheme \<Rightarrow> ('h, 'a) kernel_scheme" where
  "upd_ports g s = s\<lparr>con := (con s)\<lparr>ports := g (ports (con s))\<rparr>\<rparr>"

definition sched_tick :: "'h outb \<Rightarrow> u64 \<Rightarrow> ('h, 'a) kernel_scheme \<Rightarrow> u64 \<times> ('h, 'a) kernel_scheme" where
  "sched_tick outb frame_rsp s =
     (let s = upd_ports (pic_send_eoi outb 0) s;
          s = s\<lparr>g_ticks := pit_tick (g_ticks s)\<rparr>
      in case cur_task s of
           None \<Rightarrow> (0, s)
         | Some c \<Rightarrow>
             if t_state (g_tasks s c) = TASK_ZOMBIE \<or> g_preempt_depth s > 0 then (0, s)
             else
               let s = upd_task c (\<lambda>t. t\<lparr>t_rsp := frame_rsp\<rparr>) s;
                   n = task_next c s
               in if n = c then (0, s)
                  else let s = switch_to c n (upd_task c (\<lambda>t. t\<lparr>t_state := TASK_READY\<rparr>) s)
                       in (t_rsp (g_tasks s n), s))"

text \<open>The stack pointer execution continues at, \<open>None\<close> if the system halts.\<close>

definition task_exit :: "'h inb \<Rightarrow> 'h outb \<Rightarrow> int \<Rightarrow> ('h, 'a) kernel_scheme \<Rightarrow> u64 option \<times> ('h, 'a) kernel_scheme" where
  "task_exit inb outb status s =
     (case cur_task s of
        None \<Rightarrow> (None, s)
      | Some c \<Rightarrow>
          (let s = upd_task c (\<lambda>t. t\<lparr>t_state := TASK_ZOMBIE, t_exit_status := status\<rparr>) s;
               s = s\<lparr>kb := kbd_input_release (uint (t_pid (g_tasks s c))) (kb s)\<rparr>;
               s = vfs_close_all s;
               n = task_next c s
           in if n = c
              then (None, s\<lparr>con := console_write inb outb
                       (''task_exit: no other tasks - system halted.'' @ [CHR 0x0A]) (con s)\<rparr>)
              else let s = switch_to c n s in (Some (t_rsp (g_tasks s n)), s)))"

end
