(* ===== verification/User_Stack.thy ===== *)
theory User_Stack
  imports Sched
begin

text \<open>
  The initial stack of a user program, built by \<open>task_create_user\<close> (\<open>kernel/sched/sched.c\<close>) and \<open>exec_build_stack\<close>
  (\<open>kernel/elf/tus_elf.c\<close>): reading it back gives the arguments.
\<close>

section \<open>Reading the initial stack\<close>

lemma length_peek [simp]: "length (peek a n m) = n"
  by (simp add: peek_def)

lemma nth_peek: "i < n \<Longrightarrow> peek a n m ! i = m (a + of_nat i)"
  by (simp add: peek_def)

text \<open>Positions in a page at \<open>base\<close>.\<close>

definition addr :: "u64 \<Rightarrow> nat \<Rightarrow> u64" where
  "addr base q = base + of_nat q"

lemma addr_plus: "addr base q + of_nat i = addr base (q + i)"
  by (simp add: addr_def add.assoc)

lemma addr_minus: "n \<le> q \<Longrightarrow> addr base q - of_nat n = addr base (q - n)"
  by (simp add: addr_def of_nat_diff)

lemma unat_addr_diff:
  assumes "p < 2 ^ 62" "q < 2 ^ 62"
  shows "unat (addr base q - addr base p) = (if p \<le> q then q - p else 2 ^ 64 + q - p)"
proof -
  have i: "int (unat (addr base q - addr base p)) = (int q - int p) mod 2 ^ 64"
    by (simp add: addr_def uint_word_ariths flip: uint_nat) (simp add: unsigned_of_nat take_bit_eq_mod of_nat_mod mod_diff_eq)
  show ?thesis
  proof (cases "p \<le> q")
    case True
    then have "(int q - int p) mod 2 ^ 64 = int (q - p)" using assms by (simp add: of_nat_diff)
    with i have "int (unat (addr base q - addr base p)) = int (q - p)" by (simp only:)
    with True show ?thesis by (simp only: of_nat_eq_iff if_True)
  next
    case False
    then have "(int q - int p) mod 2 ^ 64 = (int q - int p + 2 ^ 64) mod 2 ^ 64" by simp
    also have "\<dots> = int (2 ^ 64 + q - p)" using False assms by (subst mod_pos_pos_trivial) (simp_all add: of_nat_diff)
    finally have "int (unat (addr base q - addr base p)) = int (2 ^ 64 + q - p)" using i by (simp only:)
    with False show ?thesis by (simp only: of_nat_eq_iff if_False)
  qed
qed

lemma peek_poke_in:
  assumes "p \<le> q" "q + n \<le> p + length xs" "p + length xs < 2 ^ 62"
  shows "peek (addr base q) n (poke (addr base p) xs m) = take n (drop (q - p) xs)"
proof (rule nth_equalityI)
  show "length (peek (addr base q) n (poke (addr base p) xs m)) = length (take n (drop (q - p) xs))" using assms by simp
next
  fix i assume "i < length (peek (addr base q) n (poke (addr base p) xs m))"
  then have i: "i < n" by simp
  have "unat (addr base (q + i) - addr base p) = q + i - p" using assms i by (subst unat_addr_diff) auto
  moreover have "q + i - p < length xs" "q - p + i = q + i - p" using assms i by auto
  ultimately show "peek (addr base q) n (poke (addr base p) xs m) ! i = take n (drop (q - p) xs) ! i"
    using i assms by (simp add: nth_peek poke_def addr_plus)
qed

lemma peek_poke_out:
  assumes "q + n \<le> p \<or> p + length xs \<le> q" "p + length xs < 2 ^ 62" "q + n < 2 ^ 62"
  shows "peek (addr base q) n (poke (addr base p) xs m) = peek (addr base q) n m"
proof (rule nth_equalityI)
  fix i assume "i < length (peek (addr base q) n (poke (addr base p) xs m))"
  then have i: "i < n" by simp
  have "\<not> unat (addr base (q + i) - addr base p) < length xs"
    using assms i by (subst unat_addr_diff) auto
  then show "peek (addr base q) n (poke (addr base p) xs m) ! i = peek (addr base q) n m ! i"
    using i by (simp add: nth_peek poke_def addr_plus)
qed simp

definition strings_size :: "string list \<Rightarrow> nat" where
  "strings_size args = (\<Sum>a\<leftarrow>args. length a + 1)"

lemma strings_size_simps [simp]:
  "strings_size [] = 0" "strings_size (a # args) = length a + 1 + strings_size args"
  by (simp_all add: strings_size_def)

text \<open>Each string lies where its pointer says, between the last position and the first, and bytes outside stay.\<close>

lemma put_strings_layout:
  assumes "put_strings args (addr base off) m = (ps, low, m')" "strings_size args \<le> off" "off \<le> 4096"
  shows "low = addr base (off - strings_size args) \<and> length ps = length args \<and>
    (\<forall>i<length args. \<exists>q. ps ! i = addr base q \<and> off - strings_size args \<le> q \<and> q + length (args ! i) + 1 \<le> off \<and>
       peek (addr base q) (length (args ! i) + 1) m' = c_string (args ! i)) \<and>
    (\<forall>q n. (q + n \<le> off - strings_size args \<or> off \<le> q) \<and> q + n \<le> 4096 \<longrightarrow>
       peek (addr base q) n m' = peek (addr base q) n m)"
  using assms
proof (induction args arbitrary: off m ps)
  case Nil
  then show ?case by simp
next
  case (Cons a args)
  have len: "length a + 1 \<le> off" using Cons.prems(2) by simp
  define off' where "off' = off - (length a + 1)"
  have off: "off = off' + (length a + 1)" "strings_size args \<le> off'" "off' + (length a + 1) \<le> 4096" "off' \<le> 4096"
    using len Cons.prems(2,3) by (auto simp: off'_def)
  have w: "addr base off - of_nat (length a + 1) = addr base off'" using addr_minus [OF len] by (simp only: off'_def)
  let ?m = "poke (addr base off') (c_string a) m"
  obtain qs where p: "put_strings args (addr base off') ?m = (qs, low, m')" "ps = addr base off' # qs"
    using Cons.prems(1) unfolding put_strings.simps w Let_def by (auto split: prod.splits)
  note IH = Cons.IH [OF p(1) off(2,4)]
  have cs: "length (c_string a) = length a + 1" by (simp add: c_string_def)
  have first: "peek (addr base off') (length a + 1) m' = c_string a"
  proof -
    have "peek (addr base off') (length a + 1) m' = peek (addr base off') (length a + 1) ?m"
      using IH off(3) by blast
    also have "\<dots> = c_string a" using peek_poke_in [of off' off' "length a + 1" "c_string a" base m] cs off(3) by simp
    finally show ?thesis .
  qed
  have out: "peek (addr base q) n ?m = peek (addr base q) n m" if "q + n \<le> off' \<or> off \<le> q" "q + n \<le> 4096" for q n
    using that cs off by (intro peek_poke_out) auto
  have "\<exists>q. ps ! i = addr base q \<and> off - strings_size (a # args) \<le> q \<and> q + length ((a # args) ! i) + 1 \<le> off \<and>
       peek (addr base q) (length ((a # args) ! i) + 1) m' = c_string ((a # args) ! i)" if "i < length (a # args)" for i
  proof (cases i)
    case 0
    with first p(2) off(1) show ?thesis by (intro exI [of _ off']) simp
  next
    case (Suc j)
    with that IH obtain q where "qs ! j = addr base q" "off' - strings_size args \<le> q" "q + length (args ! j) + 1 \<le> off'"
      "peek (addr base q) (length (args ! j) + 1) m' = c_string (args ! j)" by auto
    with Suc p(2) off(1) show ?thesis by (intro exI [of _ q]) simp
  qed
  moreover have "peek (addr base q) n m' = peek (addr base q) n m"
    if "q + n \<le> off - strings_size (a # args) \<or> off \<le> q" "q + n \<le> 4096" for q n
  proof -
    have "q + n \<le> off' - strings_size args \<or> off' \<le> q" "q + n \<le> off' \<or> off \<le> q" using that off(1,2) by auto
    with IH out [of q n] that(2) show ?thesis by metis
  qed
  moreover have "low = addr base (off - strings_size (a # args))" "length ps = length (a # args)"
    using IH p(2) off(1) by simp_all
  ultimately show ?case by blast
qed

lemma align_down_8:
  assumes "base AND 7 = 0"
  shows "addr base q AND NOT 7 = addr base (q - q mod 8)"
proof -
  have m: "(7 :: u64) = mask 3" by (simp add: mask_eq_exp_minus_1)
  have b: "unat base mod 8 = 0" using assms unat_and_mask [of base 3] unfolding m by simp
  have "unat (addr base q AND 7) = unat (addr base q) mod 8" using unat_and_mask [of "addr base q" 3] unfolding m by simp
  also have "\<dots> = ((unat base + q mod 2 ^ 64) mod 2 ^ 64) mod 8"
    by (simp add: addr_def unat_word_ariths unat_of_nat take_bit_eq_mod)
  also have "\<dots> = (unat base + q mod 2 ^ 64) mod 8" by (rule mod_mod_cancel) simp
  also have "\<dots> = q mod 2 ^ 64 mod 8" using b by (metis add_0 mod_add_left_eq)
  also have "\<dots> = q mod 8" by (rule mod_mod_cancel) simp
  finally have "unat (addr base q AND 7) = unat (of_nat (q mod 8) :: u64)" by (simp add: unat_of_nat take_bit_nat_eq_self)
  then have t: "addr base q AND 7 = of_nat (q mod 8)" by (rule unsigned_word_eqI)
  have "addr base q AND NOT 7 = addr base q - (addr base q AND 7)"
    using disjunctive_diff_eq_and_not [of "addr base q" "addr base q AND 7"]
    by (auto simp: bit_eq_iff bit_simps)
  then show ?thesis unfolding t by (simp add: addr_minus)
qed

text \<open>What a C runtime finds: words and strings at user addresses, the page being mapped at \<open>STACK_PAGE\<close>.\<close>

definition stack_view :: "u64 \<Rightarrow> bytes \<Rightarrow> bytes" where
  "stack_view base m = (\<lambda>v. m (base + (v - STACK_PAGE)))"

definition read_word :: "u64 \<Rightarrow> bytes \<Rightarrow> u64" where
  "read_word a m = of_nat (le_value (peek a 8 m))"

primrec read_cstr :: "nat \<Rightarrow> u64 \<Rightarrow> bytes \<Rightarrow> string" where
  "read_cstr 0 a m = []"
| "read_cstr (Suc n) a m = (if m a = 0 then [] else byte_char (m a) # read_cstr n (a + 1) m)"

definition crt_args :: "u64 \<Rightarrow> bytes \<Rightarrow> string list" where
  "crt_args rsp m =
     map (\<lambda>i. read_cstr 4096 (read_word (rsp + of_nat (8 * Suc i)) m) m) [0..<unat (read_word rsp m)]"

lemma peek_Suc: "peek a (Suc n) m = m a # peek (a + 1) n m"
  by (simp add: peek_def upt_conv_Cons map_Suc_upt [symmetric] add.assoc del: upt_Suc)

lemma read_cstr_string:
  "peek a (length str + 1) m = c_string str \<Longrightarrow> CHR 0x00 \<notin> set str \<Longrightarrow> length str < n \<Longrightarrow> read_cstr n a m = str"
proof (induction str arbitrary: a n)
  case Nil
  then show ?case by (cases n) (simp_all add: peek_Suc c_string_def)
next
  case (Cons c str)
  then obtain k where n: "n = Suc k" by (cases n) auto
  have "m a = char_byte c" "peek (a + 1) (length str + 1) m = c_string str"
    using Cons.prems(1) by (simp_all add: peek_Suc [of a] c_string_def)
  with Cons n show ?case by (auto simp: char_byte_0 byte_char_byte)
qed

lemma words_bytes_nth: "k < length ws \<Longrightarrow> take 8 (drop (8 * k) (words_bytes ws)) = le_bytes 8 (unat (ws ! k))"
proof (induction ws arbitrary: k)
  case (Cons w ws)
  then show ?case by (cases k) (simp_all add: words_bytes_def del: le_bytes.simps)
qed simp

lemma length_words_bytes [simp]: "length (words_bytes ws) = 8 * length ws"
  by (induction ws) (simp_all add: words_bytes_def del: le_bytes.simps)

lemma read_word_poke:
  assumes "k < length ws" "p + 8 * length ws < 2 ^ 62"
  shows "read_word (addr base (p + 8 * k)) (poke (addr base p) (words_bytes ws) m) = ws ! k"
proof -
  have "peek (addr base (p + 8 * k)) 8 (poke (addr base p) (words_bytes ws) m) = le_bytes 8 (unat (ws ! k))"
    using peek_poke_in [of p "p + 8 * k" 8 "words_bytes ws" base m] words_bytes_nth [OF assms(1)] assms by simp
  moreover have "le_value (le_bytes 8 (unat (ws ! k))) = unat (ws ! k)"
    by (rule le_value_bytes) (use unsigned_less [of "ws ! k"] in simp)
  ultimately show ?thesis by (simp add: read_word_def)
qed

lemma peek_stack_view: "peek (addr STACK_PAGE q) n (stack_view base m) = peek (addr base q) n m"
  by (simp add: peek_def stack_view_def addr_def add.assoc)

lemma read_word_view: "read_word (addr STACK_PAGE q) (stack_view base m) = read_word (addr base q) m"
  by (simp add: read_word_def peek_stack_view)

lemma user_addr: "STACK_PAGE + (addr base q - base) = addr STACK_PAGE q"
  by (simp add: addr_def)

lemma poke_outside:
  assumes "p + length xs \<le> 4096" "4096 \<le> unat (x - base)"
  shows "poke (addr base p) xs m x = m x"
proof -
  have "\<not> unat (x - addr base p) < length xs"
  proof
    assume l: "unat (x - addr base p) < length xs"
    have "x - base = (x - addr base p) + of_nat p" by (simp add: addr_def)
    then have "unat (x - base) = unat (x - addr base p) + p"
      using l assms(1) by (simp only:) (subst unat_word_ariths(1), simp add: unat_of_nat take_bit_nat_eq_self)
    with l assms show False by simp
  qed
  then show ?thesis by (simp add: poke_def)
qed

lemma put_strings_outside:
  assumes "put_strings args (addr base off) m = (ps, low, m')" "strings_size args \<le> off" "off \<le> 4096" "4096 \<le> unat (x - base)"
  shows "m' x = m x"
  using assms(1-3)
proof (induction args arbitrary: off m ps)
  case (Cons a args)
  let ?off = "off - (length a + 1)"
  have len: "length a + 1 \<le> off" using Cons.prems(2) by simp
  have w: "addr base off - of_nat (length a + 1) = addr base ?off" using addr_minus [OF len] by (simp only:)
  obtain qs where p: "put_strings args (addr base ?off) (poke (addr base ?off) (c_string a) m) = (qs, low, m')"
    using Cons.prems(1) unfolding put_strings.simps w Let_def by (auto split: prod.splits)
  have "m' x = poke (addr base ?off) (c_string a) m x" using Cons.IH [OF p] Cons.prems by simp
  also have "\<dots> = m x" using len Cons.prems(3) assms(4) by (intro poke_outside) (simp_all add: c_string_def)
  finally show ?case .
qed simp

lemma put_stack_layout:
  assumes base: "base AND 7 = 0" and need: "stack_need args \<le> 4096" and put: "put_stack base args m = (rsp, m')"
  obtains q ptrs where "rsp = addr STACK_PAGE q" "q mod 8 = 0" "q + 8 * (length args + 6) \<le> 4096" "length ptrs = length args"
    "\<And>k. k < length args + 6 \<Longrightarrow> read_word (rsp + of_nat (8 * k)) (stack_view base m') = stack_words ptrs ! k"
    "\<And>i. i < length args \<Longrightarrow> peek (ptrs ! i) (length (args ! i) + 1) (stack_view base m') = c_string (args ! i)"
    "\<And>x. 4096 \<le> unat (x - base) \<Longrightarrow> m' x = m x"
proof -
  obtain ps low m1 where p: "put_strings args (addr base 4096) m = (ps, low, m1)" by (cases "put_strings args (addr base 4096) m")
  have size: "strings_size args + 8 * (length args + 6) + 8 \<le> 4096"
    using need by (simp add: stack_need_def strings_size_def)
  then have "strings_size args \<le> 4096" by simp
  note L = put_strings_layout [OF p this order_refl]
  define r where "r = 4096 - strings_size args"
  define q where "q = r - r mod 8 - 8 * (length args + 6)"
  have q: "q + 8 * (length args + 6) = r - r mod 8" "r mod 8 < 8" using size by (simp_all add: q_def r_def)
  have q8: "q mod 8 = 0"
  proof -
    have "8 dvd r - r mod 8" by (rule dvd_minus_mod)
    then have "8 dvd q" unfolding q_def by (rule dvd_diff_nat) simp
    then show ?thesis by simp
  qed
  have low: "low = addr base r" "length ps = length args" using L by (simp_all add: r_def)
  have init: "(low AND NOT 7) - of_nat ((length args + 6) * 8) = addr base q"
    unfolding low align_down_8 [OF base] using q(1) by (subst addr_minus) (simp_all add: q_def mult.commute)
  let ?ptrs = "map (\<lambda>p. STACK_PAGE + (p - base)) ps"
  have lw: "length (stack_words ?ptrs) = length args + 6" by (simp add: stack_words_def low)
  have e: "addr base 4096 = base + 4096" by (simp add: addr_def)
  have m': "rsp = addr STACK_PAGE q" "m' = poke (addr base q) (words_bytes (stack_words ?ptrs)) m1"
    using put unfolding put_stack_def e [symmetric] p Let_def prod.case init user_addr by (simp_all only: prod.inject)
  have ps: "peek (?ptrs ! i) (length (args ! i) + 1) (stack_view base m') = c_string (args ! i)" if i: "i < length args" for i
  proof -
    obtain o1 where o1: "ps ! i = addr base o1" "r \<le> o1" "o1 + length (args ! i) + 1 \<le> 4096"
      "peek (addr base o1) (length (args ! i) + 1) m1 = c_string (args ! i)" using L i unfolding r_def by blast
    have "?ptrs ! i = addr STACK_PAGE o1" using i low(2) o1(1) by (simp add: user_addr)
    moreover have "peek (addr base o1) (length (args ! i) + 1) m' = peek (addr base o1) (length (args ! i) + 1) m1"
      unfolding m' using o1(2,3) q lw by (intro peek_poke_out) auto
    ultimately show ?thesis using o1(4) by (simp add: peek_stack_view)
  qed
  have ws: "read_word (rsp + of_nat (8 * k)) (stack_view base m') = stack_words ?ptrs ! k" if "k < length args + 6" for k
    unfolding m'(1) addr_plus read_word_view m'(2) using that lw q size by (intro read_word_poke) (simp_all add: r_def)
  have out: "m' x = m x" if "4096 \<le> unat (x - base)" for x
    using poke_outside [of q "words_bytes (stack_words ?ptrs)" x base m1] put_strings_outside [OF p _ order_refl that] that q lw size
    by (simp add: m'(2) r_def)
  show thesis using q size by (intro that [OF m'(1) q8 _ _ ws ps out]) (simp_all add: low r_def)
qed

text \<open>C33: A program finds its arguments: on the initial stack that \<open>task_create_user\<close> and \<open>execve\<close> build, a C
  runtime that reads the argument count at the stack pointer, the pointers behind it and the strings they point
  to gets the argument list back, followed by the null pointers that end the arguments and the environment and
  by the page size entry of the auxiliary vector. The image stays within the top stack page and is aligned to
  eight bytes, and no other byte of memory changes.\<close>

theorem user_stack_image:
  assumes "base AND 7 = 0" "stack_need args \<le> 4096" "put_stack base args m = (rsp, m')"
    and nul: "\<forall>a\<in>set args. CHR 0x00 \<notin> set a"
  shows "crt_args rsp (stack_view base m') = args \<and>
    map (\<lambda>k. read_word (rsp + of_nat (8 * (length args + 1 + k))) (stack_view base m')) [0..<5] = [0, 0, AT_PAGESZ, 4096, 0] \<and>
    (\<exists>q. rsp = STACK_PAGE + of_nat q \<and> q mod 8 = 0 \<and> q + 8 * (length args + 6) \<le> 4096) \<and>
    (\<forall>x. 4096 \<le> unat (x - base) \<longrightarrow> m' x = m x)"
proof (rule put_stack_layout [OF assms(1-3)])
  fix q ptrs
  assume a: "rsp = addr STACK_PAGE q" "q mod 8 = 0" "q + 8 * (length args + 6) \<le> 4096" "length ptrs = length args"
    "\<And>k. k < length args + 6 \<Longrightarrow> read_word (rsp + of_nat (8 * k)) (stack_view base m') = stack_words ptrs ! k"
    "\<And>i. i < length args \<Longrightarrow> peek (ptrs ! i) (length (args ! i) + 1) (stack_view base m') = c_string (args ! i)"
    "\<And>x. 4096 \<le> unat (x - base) \<Longrightarrow> m' x = m x"
  have n: "unat (of_nat (length args) :: u64) = length args" using a(3) by (simp add: unat_of_nat take_bit_nat_eq_self)
  have argc: "read_word rsp (stack_view base m') = of_nat (length args)" using a(5) [of 0] a(4) by (simp add: stack_words_def)
  have ptr: "read_word (rsp + of_nat (8 * Suc i)) (stack_view base m') = ptrs ! i" if "i < length args" for i
    using a(5) [of "Suc i"] that a(4) by (simp add: stack_words_def nth_append del: mult_Suc_right of_nat_mult)
  have arg: "read_cstr 4096 (ptrs ! i) (stack_view base m') = args ! i" if i: "i < length args" for i
  proof (rule read_cstr_string [OF a(6) [OF i]])
    show "CHR 0x00 \<notin> set (args ! i)" using nul i by simp
    have "length (args ! i) + 1 \<le> strings_size args"
      unfolding strings_size_def using i by (intro member_le_sum_list) auto
    then show "length (args ! i) < 4096" using assms(2) by (simp add: stack_need_def strings_size_def)
  qed
  have "crt_args rsp (stack_view base m') = map (\<lambda>i. args ! i) [0..<length args]"
    unfolding crt_args_def argc n by (rule map_cong [OF refl]) (simp add: ptr arg del: mult_Suc_right of_nat_mult)
  then have c: "crt_args rsp (stack_view base m') = args" by (simp add: map_nth)
  have "map (\<lambda>k. read_word (rsp + of_nat (8 * (length args + 1 + k))) (stack_view base m')) [0..<5]
      = map (\<lambda>k. [0, 0, AT_PAGESZ, 4096, 0] ! k) [0..<5]"
    by (rule map_cong [OF refl], subst a(5)) (use a(4) in \<open>simp_all add: stack_words_def nth_append\<close>)
  moreover have "map (\<lambda>k. [0, 0, AT_PAGESZ, 4096, 0] ! k) [0..<5] = [0, 0, AT_PAGESZ, 4096, 0]"
    by (simp add: numeral_eq_Suc)
  ultimately show ?thesis using c a(1,2,3,7) unfolding addr_def by metis
qed

theorem user_stack_image_witness:
  "stack_need [''/bin/echo'', ''hi''] \<le> 4096 \<and>
   (case put_stack 0xffff800000100000 [''/bin/echo'', ''hi''] (\<lambda>_. 0) of (rsp, m) \<Rightarrow>
      crt_args rsp (stack_view 0xffff800000100000 m) = [''/bin/echo'', ''hi''])"
proof -
  obtain rsp m where p: "put_stack 0xffff800000100000 [''/bin/echo'', ''hi''] (\<lambda>_. 0) = (rsp, m)"
    by (cases "put_stack 0xffff800000100000 [''/bin/echo'', ''hi''] (\<lambda>_. 0)")
  have n: "stack_need [''/bin/echo'', ''hi''] \<le> 4096" by (simp add: stack_need_def)
  have "crt_args rsp (stack_view 0xffff800000100000 m) = [''/bin/echo'', ''hi'']"
    using user_stack_image [OF _ n p] by simp
  with n p show ?thesis by simp
qed

end
