(* ===== verification/Sched_Run.thy ===== *)
theory Sched_Run
  imports Sched
begin

text \<open>
  Properties of the scheduler (theory \<open>Sched\<close>): the invariant of the task table and the processor context, that a
  preempted task resumes where it was, and that no ready task waits for more than one round.
\<close>

section \<open>What the file system operations leave alone\<close>

definition vfs_keep :: "'a vfs_scheme \<Rightarrow> (u64 \<times> u64 \<times> u64) \<times> nat option \<times> 'a" where
  "vfs_keep s = ((r_cr3 s, g_cr3 s, g_root_cr3 s), cur_task s, vfs.more s)"

lemma vfs_keep_upd [simp]:
  "vfs_keep (upd_file f g s) = vfs_keep s" "vfs_keep (upd_pipe p h s) = vfs_keep s" "vfs_keep (set_fd t i x s) = vfs_keep s"
  "vfs_keep (store_bytes a bs s) = vfs_keep s"
  by (simp_all add: vfs_keep_def upd_file_def upd_pipe_def set_fd_def store_bytes_def)

lemma vfs_keep_heap:
  "r_cr3 s = r_cr3 t \<Longrightarrow> g_cr3 s = g_cr3 t \<Longrightarrow> g_root_cr3 s = g_root_cr3 t \<Longrightarrow> heap.more s = heap.more t \<Longrightarrow> vfs_keep s = vfs_keep t"
  by (cases s; cases t) (simp add: vfs_keep_def)

lemma vfs_keep_mem [frame_simps]:
  "vfs_keep (snd (kalloc n s)) = vfs_keep s" "vfs_keep (krelease p s) = vfs_keep s"
  using kalloc_spaces [of n s] krelease_spaces [of p s] kalloc_more [of n s] krelease_more [of p s]
  by (auto intro!: vfs_keep_heap)

lemma vfs_keep_beyond: "beyond s = beyond t \<Longrightarrow> vfs_keep s = vfs_keep t"
  by (cases s; cases t) (simp add: vfs_keep_def beyond_def)

lemma vfs_keep_vmm [frame_simps]:
  "vfs_keep (snd (pmm_alloc_frame s)) = vfs_keep s" "vfs_keep (pmm_free_frame p s) = vfs_keep s"
  "vfs_keep (snd (vmm_map_page_in cr3 virt phys flags s)) = vfs_keep s" "vfs_keep (vmm_unmap_page_in cr3 virt s) = vfs_keep s"
  "vfs_keep (snd (vmm_translate_in cr3 virt s)) = vfs_keep s" "vfs_keep (snd (vmm_space_clone s)) = vfs_keep s"
  by (rule vfs_keep_beyond, simp add: frame_simps)+

lemma file_ref_keep [frame_simps]: "vfs_keep (file_ref f s) = vfs_keep s" "vfs_keep (file_unref f s) = vfs_keep s"
  by (simp_all only: file_ref_def file_unref_def Let_def if_distrib [of vfs_keep] vfs_keep_upd vfs_keep_mem if_cancel)

lemma vfs_close_all_keep [frame_simps]: "vfs_keep (vfs_close_all s) = vfs_keep s"
proof -
  have "vfs_keep (fold (\<lambda>i s. if task_fds s t i \<noteq> NULL then set_fd t i NULL (file_unref (task_fds s t i) s) else s) is u) = vfs_keep u"
    for t "is" and u :: "'a vfs_scheme" by (induction "is" arbitrary: u) (simp_all only: fold_simps if_distrib [of vfs_keep] vfs_keep_upd file_ref_keep if_cancel)
  then show ?thesis by (simp only: vfs_close_all_def split: option.split) simp
qed

lemma vfs_fd_inherit_keep [frame_simps]: "vfs_keep (vfs_fd_inherit dst src s) = vfs_keep s"
proof -
  have "vfs_keep (fold (\<lambda>i s. let s = set_fd dst i NULL s in if task_fds s src i \<noteq> NULL
      then file_ref (task_fds s src i) (set_fd dst i (task_fds s src i) s) else s) is u) = vfs_keep u"
    for "is" and u :: "'a vfs_scheme" by (induction "is" arbitrary: u) (simp_all only: fold_simps Let_def if_distrib [of vfs_keep] vfs_keep_upd file_ref_keep if_cancel)
  then show ?thesis by (simp only: vfs_fd_inherit_def)
qed

section \<open>The state the scheduler is about\<close>

record proc_context =
  x_cur :: "nat option"
  x_tasks :: "nat \<Rightarrow> task"
  x_next_pid :: u32
  x_depth :: int
  x_cr3 :: "u64 \<times> u64"
  x_rsp0 :: u64
  x_fs_base :: u64
  x_fpu :: "u8 list"

definition ctx :: "('h, 'a) kernel_scheme \<Rightarrow> proc_context" where
  "ctx s = \<lparr>x_cur = cur_task s, x_tasks = g_tasks s, x_next_pid = g_next_pid s, x_depth = g_preempt_depth s,
     x_cr3 = (r_cr3 s, g_cr3 s), x_rsp0 = r_rsp0 s, x_fs_base = r_fs_base s, x_fpu = fpu_regs s\<rparr>"

lemma ctx_keep: "vfs_keep s = vfs_keep t \<Longrightarrow> ctx s = ctx t"
  by (cases s; cases t) (simp add: vfs_keep_def ctx_def)

lemma ctx_upd [simp]:
  "ctx (s\<lparr>page_bytes := m\<rparr>) = ctx s" "ctx (s\<lparr>con := c\<rparr>) = ctx s" "ctx (s\<lparr>kb := k\<rparr>) = ctx s" "ctx (s\<lparr>g_ticks := n\<rparr>) = ctx s"
  "ctx (s\<lparr>task_fds := f\<rparr>) = ctx s"
  "ctx (s\<lparr>cur_task := t\<rparr>) = (ctx s)\<lparr>x_cur := t\<rparr>" "ctx (s\<lparr>g_tasks := ts\<rparr>) = (ctx s)\<lparr>x_tasks := ts\<rparr>"
  "ctx (s\<lparr>g_next_pid := p\<rparr>) = (ctx s)\<lparr>x_next_pid := p\<rparr>" "ctx (s\<lparr>g_preempt_depth := d\<rparr>) = (ctx s)\<lparr>x_depth := d\<rparr>"
  "ctx (s\<lparr>r_rsp0 := r\<rparr>) = (ctx s)\<lparr>x_rsp0 := r\<rparr>" "ctx (s\<lparr>r_fs_base := b\<rparr>) = (ctx s)\<lparr>x_fs_base := b\<rparr>"
  "ctx (s\<lparr>fpu_regs := q\<rparr>) = (ctx s)\<lparr>x_fpu := q\<rparr>"
  by (simp_all add: ctx_def)

lemma ctx_upd_task [simp]: "ctx (upd_task i g s) = (ctx s)\<lparr>x_tasks := (g_tasks s)(i := g (g_tasks s i))\<rparr>"
  by (simp add: upd_task_def)

lemma ctx_fields:
  "cur_task s = x_cur (ctx s)" "g_tasks s = x_tasks (ctx s)" "g_next_pid s = x_next_pid (ctx s)" "g_preempt_depth s = x_depth (ctx s)"
  "r_cr3 s = fst (x_cr3 (ctx s))" "g_cr3 s = snd (x_cr3 (ctx s))" "r_rsp0 s = x_rsp0 (ctx s)" "r_fs_base s = x_fs_base (ctx s)"
  "fpu_regs s = x_fpu (ctx s)"
  by (simp_all add: ctx_def)

lemma ctx_ops [frame_simps]:
  "ctx (snd (kalloc n s)) = ctx s" "ctx (krelease p s) = ctx s" "ctx (snd (pmm_alloc_frame s)) = ctx s" "ctx (pmm_free_frame p s) = ctx s"
  "ctx (snd (vmm_map_page_in cr3 virt phys flags s)) = ctx s" "ctx (vmm_unmap_page_in cr3 virt s) = ctx s"
  "ctx (snd (vmm_translate_in cr3 virt s)) = ctx s" "ctx (snd (vmm_space_clone s)) = ctx s"
  "ctx (vfs_close_all s) = ctx s" "ctx (vfs_fd_inherit d c s) = ctx s" "ctx (store_bytes a bs s) = ctx s"
  by (rule ctx_keep, simp add: frame_simps)+

lemma map_stack_pages_ctx: "ctx (snd (map_stack_pages cr3 is s)) = ctx s"
proof (induction cr3 "is" s rule: map_stack_pages.induct)
  case (2 cr3 i "is" s)
  obtain q u where a: "pmm_alloc_frame s = (q, u)" by (cases "pmm_alloc_frame s")
  let ?v = "u\<lparr>page_bytes := poke (pmm_phys_to_virt u q) (replicate 4096 0) (page_bytes u)\<rparr>"
  obtain r v where m: "vmm_map_page_in cr3 (USER_STACK_BASE + of_nat i * 4096) q (VMM_PRESENT OR VMM_WRITE OR VMM_USER) ?v = (r, v)"
    by (cases "vmm_map_page_in cr3 (USER_STACK_BASE + of_nat i * 4096) q (VMM_PRESENT OR VMM_WRITE OR VMM_USER) ?v")
  have "ctx u = ctx s" "ctx v = ctx u"
    using ctx_ops(3) [of s] ctx_ops(5) [of cr3 "USER_STACK_BASE + of_nat i * 4096" q "VMM_PRESENT OR VMM_WRITE OR VMM_USER" ?v]
    by (simp_all add: a m)
  with 2 [OF a [symmetric] refl _ refl m [symmetric] refl] show ?case by (simp add: a m)
qed simp

lemma user_stack_ctx [frame_simps]: "ctx (snd (user_stack cr3 args s)) = ctx s"
proof -
  obtain ok u where m: "map_stack_pages cr3 [0..<16] s = (ok, u)" by (cases "map_stack_pages cr3 [0..<16] s")
  obtain f v where t: "vmm_translate_in cr3 STACK_PAGE u = (f, v)" by (cases "vmm_translate_in cr3 STACK_PAGE u")
  have "ctx u = ctx s" "ctx v = ctx u"
    using map_stack_pages_ctx [of cr3 "[0..<16]" s] ctx_ops(7) [of cr3 STACK_PAGE u] by (simp_all add: m t)
  then show ?thesis by (simp add: user_stack_def m t Let_def split: prod.split)
qed
section \<open>Choosing the next task\<close>

definition dist :: "nat \<Rightarrow> nat \<Rightarrow> nat" where
  "dist c t = (t + TASK_MAX - c) mod TASK_MAX"

lemma TASK_MAX_pos [simp]: "0 < TASK_MAX"
  by (simp add: TASK_MAX_def)

lemma dist_props:
  assumes "c < TASK_MAX" "t < TASK_MAX"
  shows "(c + dist c t) mod TASK_MAX = t" "dist c t < TASK_MAX" "dist c t = 0 \<longleftrightarrow> t = c"
    "1 \<le> i \<Longrightarrow> i < dist c t \<Longrightarrow> dist ((c + i) mod TASK_MAX) t < dist c t"
proof -
  have lt: "c < 16" "t < 16" using assms by (simp_all add: TASK_MAX_def)
  have d: "dist a t = (if a \<le> t then t - a else t + 16 - a)" if "a < 16" for a
    using lt(2) that by (auto simp: dist_def TASK_MAX_def mod_if)
  have m: "(c + i) mod TASK_MAX = (if c + i < 16 then c + i else c + i - 16)" if "i < 16" for i
    using lt(1) that by (simp add: TASK_MAX_def mod_if)
  show l: "dist c t < TASK_MAX" using lt unfolding d [OF lt(1)] by (auto simp: TASK_MAX_def)
  then have l16: "dist c t < 16" by (simp add: TASK_MAX_def)
  show "(c + dist c t) mod TASK_MAX = t" using lt unfolding d [OF lt(1)] by (auto simp: TASK_MAX_def)
  show "dist c t = 0 \<longleftrightarrow> t = c" using lt unfolding d [OF lt(1)] by auto
  show "dist ((c + i) mod TASK_MAX) t < dist c t" if i: "1 \<le> i" "i < dist c t"
  proof -
    have "i < 16" using i(2) l16 by simp
    note mi = m [OF this]
    have "(c + i) mod TASK_MAX < 16" by (simp add: TASK_MAX_def)
    from d [OF this] i show ?thesis using lt unfolding mi d [OF lt(1)] by (auto split: if_splits)
  qed
qed

text \<open>The search gives a runnable task, the current one only if no other is runnable, and passes over none.\<close>

lemma task_next_spec:
  assumes c: "c < TASK_MAX"
  shows "task_next c s < TASK_MAX"
    and "task_next c s \<noteq> c \<Longrightarrow> runnable (g_tasks s (task_next c s))"
    and "t < TASK_MAX \<Longrightarrow> t \<noteq> c \<Longrightarrow> runnable (g_tasks s t) \<Longrightarrow>
           task_next c s \<noteq> c \<and> (task_next c s = t \<or> dist (task_next c s) t < dist c t)"
proof -
  let ?P = "\<lambda>i. runnable (g_tasks s ((c + i) mod TASK_MAX))"
  have "task_next c s < TASK_MAX \<and> (task_next c s \<noteq> c \<longrightarrow> runnable (g_tasks s (task_next c s))) \<and>
    (t < TASK_MAX \<longrightarrow> t \<noteq> c \<longrightarrow> runnable (g_tasks s t) \<longrightarrow>
           task_next c s \<noteq> c \<and> (task_next c s = t \<or> dist (task_next c s) t < dist c t))"
  proof (cases "find ?P [1..<Suc TASK_MAX]")
    case None
    have "\<not> runnable (g_tasks s t)" if "t < TASK_MAX" "t \<noteq> c"
    proof -
      have "1 \<le> dist c t \<and> dist c t < Suc TASK_MAX" using dist_props [OF c that(1)] that(2) by linarith
      then show ?thesis using None dist_props(1) [OF c that(1)] unfolding find_upt_None by metis
    qed
    then show ?thesis using None c by (auto simp: task_next_def)
  next
    case (Some i)
    then have i: "1 \<le> i" "i < Suc TASK_MAX" "?P i" "\<And>j. 1 \<le> j \<Longrightarrow> j < i \<Longrightarrow> \<not> ?P j" unfolding find_upt_Some by blast+
    have n: "task_next c s = (c + i) mod TASK_MAX" using Some by (simp add: task_next_def)
    have "task_next c s \<noteq> c \<and> (task_next c s = t \<or> dist (task_next c s) t < dist c t)"
      if t: "t < TASK_MAX" "t \<noteq> c" "runnable (g_tasks s t)"
    proof -
      have d: "1 \<le> dist c t" "dist c t < TASK_MAX" using dist_props [OF c t(1)] t(2) by linarith+
      have "\<not> dist c t < i" using i(4) [of "dist c t"] d(1) dist_props(1) [OF c t(1)] t(3) by auto
      then consider "i = dist c t" | "i < dist c t" by linarith
      then show ?thesis
      proof cases
        case 1
        then show ?thesis using n dist_props(1) [OF c t(1)] t(2) by simp
      next
        case 2
        have "(c + i) mod TASK_MAX \<noteq> c"
        proof
          assume "(c + i) mod TASK_MAX = c"
          then have "(c + i) mod TASK_MAX = c mod TASK_MAX" using c by simp
          then have "TASK_MAX dvd i" by (simp add: mod_eq_dvd_iff_nat)
          with i(1) 2 d(2) show False using nat_dvd_not_less [of i TASK_MAX] by linarith
        qed
        then show ?thesis using n dist_props(4) [OF c t(1) i(1) 2] by simp
      qed
    qed
    then show ?thesis using n i(3) by simp
  qed
  then show "task_next c s < TASK_MAX" "task_next c s \<noteq> c \<Longrightarrow> runnable (g_tasks s (task_next c s))"
    "t < TASK_MAX \<Longrightarrow> t \<noteq> c \<Longrightarrow> runnable (g_tasks s t) \<Longrightarrow> task_next c s \<noteq> c \<and> (task_next c s = t \<or> dist (task_next c s) t < dist c t)"
    by blast+
qed

lemma task_next_cong:
  "(\<And>i. runnable (g_tasks s i) = runnable (g_tasks u i)) \<Longrightarrow> task_next c s = task_next c u"
  by (simp add: task_next_def)

section \<open>The invariant\<close>

text \<open>Exactly the current task is marked running, the processor has its address space, kernel stack and thread
  pointer, and live tasks have different numbers below the next one.\<close>

definition sched_inv :: "('h, 'a) kernel_scheme \<Rightarrow> bool" where
  "sched_inv s \<longleftrightarrow>
     (\<exists>c<TASK_MAX. cur_task s = Some c \<and> (\<forall>i<TASK_MAX. t_state (g_tasks s i) = TASK_RUNNING \<longleftrightarrow> i = c) \<and>
        r_cr3 s = t_cr3 (g_tasks s c) \<and> g_cr3 s = r_cr3 s \<and> r_rsp0 s = t_kstack_top (g_tasks s c) \<and>
        r_fs_base s = t_fs_base (g_tasks s c)) \<and>
     (\<forall>i<TASK_MAX. t_state (g_tasks s i) \<noteq> 0 \<longrightarrow> t_pid (g_tasks s i) < g_next_pid s) \<and>
     (\<forall>i<TASK_MAX. \<forall>j<TASK_MAX. t_state (g_tasks s i) \<noteq> 0 \<and> t_state (g_tasks s j) \<noteq> 0 \<and>
        t_pid (g_tasks s i) = t_pid (g_tasks s j) \<longrightarrow> i = j)"

lemma sched_inv_ctx: "ctx s = ctx u \<Longrightarrow> sched_inv s = sched_inv u"
  by (simp add: sched_inv_def ctx_fields)

lemma sched_inv_current:
  assumes "sched_inv s"
  obtains c where "c < TASK_MAX" "cur_task s = Some c" "t_state (g_tasks s c) = TASK_RUNNING" "g_cr3 s = r_cr3 s"
    "\<And>i. i < TASK_MAX \<Longrightarrow> i \<noteq> c \<Longrightarrow> t_state (g_tasks s i) \<noteq> TASK_RUNNING"
    "r_cr3 s = t_cr3 (g_tasks s c)" "r_rsp0 s = t_kstack_top (g_tasks s c)" "r_fs_base s = t_fs_base (g_tasks s c)"
  using assms unfolding sched_inv_def by metis

lemma state_values [simp]:
  "TASK_READY \<noteq> TASK_RUNNING" "TASK_RUNNING \<noteq> TASK_READY" "TASK_ZOMBIE \<noteq> TASK_RUNNING" "TASK_RUNNING \<noteq> TASK_ZOMBIE"
  "TASK_READY \<noteq> TASK_ZOMBIE" "TASK_ZOMBIE \<noteq> TASK_READY" "TASK_READY \<noteq> 0" "TASK_RUNNING \<noteq> 0" "TASK_ZOMBIE \<noteq> 0"
  by (simp_all add: TASK_READY_def TASK_RUNNING_def TASK_ZOMBIE_def)

text \<open>A switch from task \<open>c\<close>, whose entry has become \<open>tc\<close>, to task \<open>n\<close>.\<close>

definition switched :: "nat \<Rightarrow> task \<Rightarrow> nat \<Rightarrow> proc_context \<Rightarrow> proc_context" where
  "switched c tc n x =
     x\<lparr>x_cur := Some n,
       x_tasks := (x_tasks x)(c := tc\<lparr>t_fpu := x_fpu x\<rparr>, n := (x_tasks x n)\<lparr>t_state := TASK_RUNNING\<rparr>),
       x_cr3 := (t_cr3 (x_tasks x n), t_cr3 (x_tasks x n)), x_rsp0 := t_kstack_top (x_tasks x n),
       x_fs_base := t_fs_base (x_tasks x n), x_fpu := t_fpu (x_tasks x n)\<rparr>"

lemma switch_to_ctx:
  assumes "n \<noteq> c" "g_cr3 s = r_cr3 s"
  shows "ctx (switch_to c n s) = switched c (g_tasks s c) n (ctx s)"
  using assms
  by (simp add: switch_to_def switched_def Let_def upd_task_def tss_set_rsp0_def vmm_space_switch_def ctx_def fun_upd_twist)

lemma sched_tick_cases:
  assumes c: "cur_task s = Some c" and run: "t_state (g_tasks s c) = TASK_RUNNING" and cr3: "g_cr3 s = r_cr3 s"
  obtains
    (stay) r where "sched_tick outb rsp s = (0, r)" "g_preempt_depth s > 0 \<or> task_next c s = c"
      "ctx r = ctx s \<or> ctx r = (ctx s)\<lparr>x_tasks := (g_tasks s)(c := (g_tasks s c)\<lparr>t_rsp := rsp\<rparr>)\<rparr>"
  | (switch) r where "sched_tick outb rsp s = (t_rsp (g_tasks s (task_next c s)), r)" "\<not> g_preempt_depth s > 0" "task_next c s \<noteq> c"
      "ctx r = switched c ((g_tasks s c)\<lparr>t_rsp := rsp, t_state := TASK_READY\<rparr>) (task_next c s) (ctx s)"
proof -
  let ?s = "(upd_ports (pic_send_eoi outb 0) s)\<lparr>g_ticks := pit_tick (g_ticks s)\<rparr>"
  let ?u = "upd_task c (\<lambda>t. t\<lparr>t_rsp := rsp\<rparr>) ?s"
  let ?v = "upd_task c (\<lambda>t. t\<lparr>t_state := TASK_READY\<rparr>) ?u"
  have f: "ctx ?s = ctx s" by (simp add: upd_ports_def)
  have g: "cur_task ?s = Some c" "g_tasks ?s = g_tasks s" "g_preempt_depth ?s = g_preempt_depth s" "g_ticks (upd_ports (pic_send_eoi outb 0) s) = g_ticks s"
    using c by (simp_all add: upd_ports_def)
  have n: "task_next c ?u = task_next c s" by (rule task_next_cong) (simp add: upd_task_def upd_ports_def runnable_def)
  have t: "sched_tick outb rsp s =
     (if g_preempt_depth s > 0 then (0, ?s) else if task_next c s = c then (0, ?u)
      else (t_rsp (g_tasks (switch_to c (task_next c s) ?v) (task_next c s)), switch_to c (task_next c s) ?v))"
    unfolding sched_tick_def Let_def g(4) using g run n by simp
  show thesis
  proof (cases "g_preempt_depth s > 0 \<or> task_next c s = c")
    case True
    show thesis
    proof (cases "g_preempt_depth s > 0")
      case True
      then show thesis using t f by (intro stay [of ?s]) simp_all
    next
      case False
      then show thesis using True t f by (intro stay [of ?u]) (simp_all add: upd_ports_def)
    qed
  next
    case False
    have "ctx (switch_to c (task_next c s) ?v) = switched c (g_tasks ?v c) (task_next c s) (ctx ?v)"
      using False cr3 by (intro switch_to_ctx) (simp_all add: upd_task_def upd_ports_def)
    also have "\<dots> = switched c ((g_tasks s c)\<lparr>t_rsp := rsp, t_state := TASK_READY\<rparr>) (task_next c s) (ctx s)"
      using False by (simp add: switched_def upd_task_def upd_ports_def ctx_def)
    finally have e: "ctx (switch_to c (task_next c s) ?v) = \<dots>" .
    then have "g_tasks (switch_to c (task_next c s) ?v) (task_next c s) = (g_tasks s (task_next c s))\<lparr>t_state := TASK_RUNNING\<rparr>"
      unfolding ctx_fields by (simp add: switched_def)
    then show thesis using False t e by (intro switch [of "switch_to c (task_next c s) ?v"]) simp_all
  qed
qed
lemma ctx_sel:
  "x_cur (ctx s) = cur_task s" "x_tasks (ctx s) = g_tasks s" "x_next_pid (ctx s) = g_next_pid s" "x_depth (ctx s) = g_preempt_depth s"
  "x_cr3 (ctx s) = (r_cr3 s, g_cr3 s)" "x_rsp0 (ctx s) = r_rsp0 s" "x_fs_base (ctx s) = r_fs_base s" "x_fpu (ctx s) = fpu_regs s"
  by (simp_all add: ctx_def)

lemma task_exit_cases:
  assumes c: "cur_task s = Some c" "c < TASK_MAX" and cr3: "g_cr3 s = r_cr3 s" and e: "task_exit inb outb status s = (Some r, s')"
  obtains n where "n \<noteq> c" "n < TASK_MAX" "runnable (g_tasks s n)" "r = t_rsp (g_tasks s n)"
    "ctx s' = switched c ((g_tasks s c)\<lparr>t_state := TASK_ZOMBIE, t_exit_status := status\<rparr>) n (ctx s)"
proof -
  define u where "u = vfs_close_all ((upd_task c (\<lambda>t. t\<lparr>t_state := TASK_ZOMBIE, t_exit_status := status\<rparr>) s)
      \<lparr>kb := kbd_input_release (uint (t_pid (g_tasks (upd_task c (\<lambda>t. t\<lparr>t_state := TASK_ZOMBIE, t_exit_status := status\<rparr>) s) c))) (kb s)\<rparr>)"
  let ?tc = "(g_tasks s c)\<lparr>t_state := TASK_ZOMBIE, t_exit_status := status\<rparr>"
  have u: "ctx u = (ctx s)\<lparr>x_tasks := (g_tasks s)(c := ?tc)\<rparr>" unfolding u_def by (simp add: ctx_ops)
  have k: "kb (upd_task c f s) = kb s" for f by (simp add: upd_task_def)
  have s': "s' = switch_to c (task_next c u) u" "task_next c u \<noteq> c" "r = t_rsp (g_tasks s' (task_next c u))"
    using e unfolding task_exit_def c(1) option.case Let_def k u_def [symmetric] by (auto split: if_splits)
  have ut: "g_tasks u = (g_tasks s)(c := ?tc)" "g_cr3 u = r_cr3 u"
    using cr3 unfolding ctx_fields u by (simp_all add: ctx_def)
  have sw: "ctx s' = switched c (g_tasks u c) (task_next c u) (ctx u)" unfolding s'(1) by (rule switch_to_ctx [OF s'(2) ut(2)])
  show thesis
  proof (rule that [OF s'(2) task_next_spec(1) [OF c(2)]])
    show "runnable (g_tasks s (task_next c u))" using task_next_spec(2) [OF c(2) s'(2)] s'(2) by (simp add: ut(1))
    show "ctx s' = switched c ?tc (task_next c u) (ctx s)" unfolding sw u using s'(2) by (simp add: switched_def ut(1) ctx_sel)
    then have "g_tasks s' (task_next c u) = (g_tasks s (task_next c u))\<lparr>t_state := TASK_RUNNING\<rparr>"
      unfolding ctx_fields by (simp add: switched_def)
    then show "r = t_rsp (g_tasks s (task_next c u))" using s'(3) by simp
  qed
qed

text \<open>The entry a new task gets, if creation succeeds.\<close>

definition table_grows :: "('h, 'a) kernel_scheme \<Rightarrow> (nat \<Rightarrow> task) \<Rightarrow> u32 \<Rightarrow> bool" where
  "table_grows s ts p \<longleftrightarrow>
     ts = g_tasks s \<and> p = g_next_pid s \<or>
     (\<exists>i<TASK_MAX. t_state (g_tasks s i) \<in> {0, TASK_ZOMBIE} \<and>
        (ts = (g_tasks s)(i := zero_task) \<and> p = g_next_pid s \<or>
         (\<exists>tn. ts = (g_tasks s)(i := tn) \<and> t_state tn = TASK_READY \<and> t_pid tn = g_next_pid s \<and> p = g_next_pid s + 1)))"

lemma task_find_slot_cases:
  assumes "task_find_slot s = (slot, u)"
  obtains "slot = None" "u = s" | i where "slot = Some i" "i < TASK_MAX" "t_state (g_tasks s i) \<in> {0, TASK_ZOMBIE}"
    "ctx u = ctx s \<or> ctx u = (ctx s)\<lparr>x_tasks := (g_tasks s)(i := zero_task)\<rparr>"
proof (cases "find (\<lambda>i. t_state (g_tasks s i) = TASK_ZOMBIE) [0..<TASK_MAX]")
  case (Some i)
  then have "i < TASK_MAX" "t_state (g_tasks s i) = TASK_ZOMBIE" unfolding find_upt_Some by simp_all
  moreover have "slot = Some i" "u = clear_slot i s" using assms Some by (simp_all add: task_find_slot_def)
  ultimately show thesis by (intro that(2) [of i]) (simp_all add: clear_slot_def)
next
  case None
  show thesis
  proof (cases slot)
    case None
    then show thesis using assms \<open>find _ _ = None\<close> by (intro that(1)) (simp_all add: task_find_slot_def)
  next
    case (Some i)
    then have "find (\<lambda>i. t_state (g_tasks s i) = 0) [0..<TASK_MAX] = Some i" "u = s"
      using assms \<open>find _ _ = None\<close> by (auto simp: task_find_slot_def)
    then show thesis using Some unfolding find_upt_Some by (intro that(2) [of i]) simp_all
  qed
qed

lemma task_create_user_ctx:
  assumes "task_create_user entry name cr3 argc argv s = (r, s')"
  shows "\<exists>ts p. ctx s' = (ctx s)\<lparr>x_tasks := ts, x_next_pid := p\<rparr> \<and> table_grows s ts p"
proof -
  have same: "ctx s = (ctx s)\<lparr>x_tasks := g_tasks s, x_next_pid := g_next_pid s\<rparr>" by (simp add: ctx_def)
  obtain slot u where f: "task_find_slot s = (slot, u)" by (cases "task_find_slot s")
  show ?thesis
  proof (rule task_find_slot_cases [OF f])
    assume "slot = None" "u = s"
    then show ?thesis using assms f same by (auto simp: task_create_user_def table_grows_def)
  next
    fix i assume i: "slot = Some i" "i < TASK_MAX" "t_state (g_tasks s i) \<in> {0, TASK_ZOMBIE}"
      "ctx u = ctx s \<or> ctx u = (ctx s)\<lparr>x_tasks := (g_tasks s)(i := zero_task)\<rparr>"
    obtain k v where k: "kalloc STACK_SIZE u = (k, v)" by (cases "kalloc STACK_SIZE u")
    obtain rsp w where w: "user_stack cr3 (stack_args name argc argv) v = (rsp, w)"
      by (cases "user_stack cr3 (stack_args name argc argv) v")
    have vc: "ctx v = ctx u" using ctx_ops(1) [of STACK_SIZE u] k by simp
    have wc: "ctx w = ctx u" using user_stack_ctx [of cr3 "stack_args name argc argv" v] w vc by simp
    have early: ?thesis if "ctx s' = ctx u"
    proof -
      have "ctx s' = (ctx s)\<lparr>x_tasks := g_tasks s, x_next_pid := g_next_pid s\<rparr> \<or>
            ctx s' = (ctx s)\<lparr>x_tasks := (g_tasks s)(i := zero_task), x_next_pid := g_next_pid s\<rparr>"
        using that i(4) same by (auto simp: ctx_def)
      then show ?thesis using i(2,3) unfolding table_grows_def by blast
    qed
    show ?thesis
    proof (cases "k = NULL \<or> rsp = 0")
      case True
      then have "ctx s' = ctx u"
        using assms vc wc by (auto simp: task_create_user_def f i(1) k w Let_def split: if_splits)
      then show ?thesis by (rule early)
    next
      case False
      let ?g = "\<lambda>t. t\<lparr>t_pid := g_next_pid w, t_state := TASK_READY, t_name := take (TASK_NAME_MAX - 1) name,
         t_kstack := k, t_kstack_top := k + STACK_SIZE, t_ustack := USER_STACK_BASE,
         t_ustack_top := USER_STACK_BASE + USER_STACK_SIZE, t_cr3 := cr3, t_fs_base := 0,
         t_mmap_cur := MMAP_CURSOR_START, t_uid := 0, t_euid := 0, t_gid := 0, t_egid := 0\<rparr>"
      let ?x = "upd_task i ?g (w\<lparr>g_next_pid := g_next_pid w + 1\<rparr>)"
      let ?y = "case cur_task ?x of Some c \<Rightarrow> vfs_fd_inherit i c ?x | None \<Rightarrow> ?x"
      let ?z = "store_bytes (k + STACK_SIZE - 160) (words_bytes (user_frame entry rsp)) ?y"
      have s': "s' = upd_task i (\<lambda>t. t\<lparr>t_fpu := fpu_boot, t_rsp := k + STACK_SIZE - 160\<rparr>) ?z"
        using assms False unfolding task_create_user_def f i(1) prod.case option.case k w Let_def by auto
      have z: "ctx ?z = ctx ?x" unfolding ctx_ops(11) by (simp add: ctx_ops split: option.split)
      have wt: "g_tasks w = x_tasks (ctx u)" "g_next_pid w = g_next_pid s" unfolding ctx_fields wc using i(4) by (auto simp: ctx_def)
      let ?tn = "(?g (g_tasks w i))\<lparr>t_fpu := fpu_boot, t_rsp := k + STACK_SIZE - 160\<rparr>"
      have "g_tasks ?z i = ?g (g_tasks w i)" unfolding ctx_fields(2) [of ?z] z by (simp add: upd_task_def)
      then have "ctx s' = (ctx w)\<lparr>x_tasks := (g_tasks w)(i := ?tn), x_next_pid := g_next_pid s + 1\<rparr>"
        unfolding s' ctx_upd_task ctx_fields(2) [of ?z] z by (simp add: upd_task_def wt(2))
      also have "\<dots> = (ctx s)\<lparr>x_tasks := (g_tasks s)(i := ?tn), x_next_pid := g_next_pid s + 1\<rparr>"
        unfolding wc wt(1) using i(4) by (auto simp: ctx_def)
      finally have "ctx s' = \<dots>" .
      moreover have "table_grows s ((g_tasks s)(i := ?tn)) (g_next_pid s + 1)"
        unfolding table_grows_def using i(2,3) wt(2) by (intro disjI2 exI [of _ i] conjI exI [of _ ?tn]) simp_all
      ultimately show ?thesis by blast
    qed
  qed
qed

section \<open>Runs of the scheduler\<close>

text \<open>One step, with the stack pointer execution continues at if it changes: a tick, the end of the current task,
  the creation of a task while process numbers last, computation of the current task, and critical sections.\<close>

inductive sched_step :: "'h inb \<Rightarrow> 'h outb \<Rightarrow> ('h, 'a) kernel_scheme \<Rightarrow> u64 \<Rightarrow> ('h, 'a) kernel_scheme \<Rightarrow> bool"
  for inb :: "'h inb" and outb :: "'h outb" where
  Tick: "sched_tick outb rsp s = (r, s') \<Longrightarrow> sched_step inb outb s r s'"
| Exit: "task_exit inb outb status s = (Some r, s') \<Longrightarrow> sched_step inb outb s r s'"
| Create: "g_next_pid s \<noteq> - 1 \<Longrightarrow> task_create_user entry name cr3 argc argv s = (pid, s') \<Longrightarrow> sched_step inb outb s 0 s'"
| Compute: "sched_step inb outb s 0 (s\<lparr>fpu_regs := regs\<rparr>)"
| Disable: "sched_step inb outb s 0 (preempt_disable s)"
| Enable: "sched_step inb outb s 0 (preempt_enable s)"

inductive sched_run :: "'h inb \<Rightarrow> 'h outb \<Rightarrow> nat \<Rightarrow> ('h, 'a) kernel_scheme \<Rightarrow> ('h, 'a) kernel_scheme \<Rightarrow> bool"
  for inb :: "'h inb" and outb :: "'h outb" and a :: nat where
  Here: "cur_task s \<noteq> Some a \<Longrightarrow> sched_run inb outb a s s"
| Further: "sched_run inb outb a s u \<Longrightarrow> sched_step inb outb u r v \<Longrightarrow> cur_task v \<noteq> Some a \<Longrightarrow> sched_run inb outb a s v"

text \<open>The effect of a step on the context: it stays up to changes of the current task and of free entries, or it switches.\<close>

lemma sched_step_cases:
  assumes inv: "sched_inv s" and step: "sched_step inb outb s r s'" and c: "cur_task s = Some c" "c < TASK_MAX"
  obtains
    (stay) ts p d f where "ctx s' = (ctx s)\<lparr>x_tasks := ts, x_next_pid := p, x_depth := d, x_fpu := f\<rparr>"
      "(\<exists>rsp. ts = (g_tasks s)(c := (g_tasks s c)\<lparr>t_rsp := rsp\<rparr>)) \<and> p = g_next_pid s \<or> table_grows s ts p \<and> (p \<noteq> 0 \<or> p = g_next_pid s)"
  | (switch) n tc where "n \<noteq> c" "n < TASK_MAX" "runnable (g_tasks s n)" "r = t_rsp (g_tasks s n)"
      "ctx s' = switched c tc n (ctx s)" "t_state tc \<in> {TASK_READY, TASK_ZOMBIE}" "t_pid tc = t_pid (g_tasks s c)"
proof -
  have i: "t_state (g_tasks s c) = TASK_RUNNING" "g_cr3 s = r_cr3 s"
    using inv c by (auto elim: sched_inv_current)
  have same: "table_grows s (g_tasks s) (g_next_pid s)" by (simp add: table_grows_def)
  have id: "ctx s = (ctx s)\<lparr>x_tasks := g_tasks s, x_next_pid := g_next_pid s, x_depth := g_preempt_depth s, x_fpu := fpu_regs s\<rparr>"
    by (simp add: ctx_def)
  show thesis using step
  proof cases
    case (Tick rsp)
    show thesis
    proof (rule sched_tick_cases [OF c(1) i, of outb rsp])
      fix u assume u: "sched_tick outb rsp s = (0, u)"
        "ctx u = ctx s \<or> ctx u = (ctx s)\<lparr>x_tasks := (g_tasks s)(c := (g_tasks s c)\<lparr>t_rsp := rsp\<rparr>)\<rparr>"
      then have "s' = u" using Tick by simp
      with u(2) have "ctx s' = (ctx s)\<lparr>x_tasks := g_tasks s, x_next_pid := g_next_pid s, x_depth := g_preempt_depth s, x_fpu := fpu_regs s\<rparr>
        \<or> ctx s' = (ctx s)\<lparr>x_tasks := (g_tasks s)(c := (g_tasks s c)\<lparr>t_rsp := rsp\<rparr>), x_next_pid := g_next_pid s, x_depth := g_preempt_depth s, x_fpu := fpu_regs s\<rparr>"
        by (auto simp: ctx_def)
      then show thesis using same stay by blast
    next
      fix u assume u: "sched_tick outb rsp s = (t_rsp (g_tasks s (task_next c s)), u)" "task_next c s \<noteq> c"
        "ctx u = switched c ((g_tasks s c)\<lparr>t_rsp := rsp, t_state := TASK_READY\<rparr>) (task_next c s) (ctx s)"
      then show thesis using Tick task_next_spec(1,2) [OF c(2)] by (intro switch [OF u(2), where tc = "(g_tasks s c)\<lparr>t_rsp := rsp, t_state := TASK_READY\<rparr>"]) simp_all
    qed
  next
    case (Exit status)
    then show thesis
      by (elim task_exit_cases [OF c i(2)]) (rule switch [where tc = "(g_tasks s c)\<lparr>t_state := TASK_ZOMBIE, t_exit_status := status\<rparr>"], simp_all)
  next
    case (Create entry name cr3 argc argv pid)
    from task_create_user_ctx [OF Create(3)] obtain ts p where t: "ctx s' = (ctx s)\<lparr>x_tasks := ts, x_next_pid := p\<rparr>" "table_grows s ts p"
      by blast
    have "p \<noteq> 0 \<or> p = g_next_pid s"
      using t(2) Create(2) unfolding table_grows_def by (metis add.commute add_eq_0_iff minus_minus)
    moreover have "ctx s' = (ctx s)\<lparr>x_tasks := ts, x_next_pid := p, x_depth := g_preempt_depth s, x_fpu := fpu_regs s\<rparr>"
      using t(1) by (simp add: ctx_def)
    ultimately show thesis using t(2) stay by blast
  next
    case (Compute regs)
    then have "ctx s' = (ctx s)\<lparr>x_tasks := g_tasks s, x_next_pid := g_next_pid s, x_depth := g_preempt_depth s, x_fpu := regs\<rparr>" by (simp add: ctx_def)
    then show thesis using same stay by blast
  next
    case Disable
    then have "ctx s' = (ctx s)\<lparr>x_tasks := g_tasks s, x_next_pid := g_next_pid s, x_depth := g_preempt_depth s + 1, x_fpu := fpu_regs s\<rparr>"
      by (simp add: preempt_disable_def ctx_def)
    then show thesis using same stay by blast
  next
    case Enable
    then have "ctx s' = (ctx s)\<lparr>x_tasks := g_tasks s, x_next_pid := g_next_pid s, x_depth := g_preempt_depth s', x_fpu := fpu_regs s\<rparr>"
      by (simp add: preempt_enable_def ctx_def)
    then show thesis using same stay by blast
  qed
qed
definition pids_ok :: "(nat \<Rightarrow> task) \<Rightarrow> u32 \<Rightarrow> bool" where
  "pids_ok ts p \<longleftrightarrow>
     (\<forall>i<TASK_MAX. t_state (ts i) \<noteq> 0 \<longrightarrow> t_pid (ts i) < p) \<and>
     (\<forall>i<TASK_MAX. \<forall>j<TASK_MAX. t_state (ts i) \<noteq> 0 \<and> t_state (ts j) \<noteq> 0 \<and> t_pid (ts i) = t_pid (ts j) \<longrightarrow> i = j)"

lemma sched_inv_alt:
  "sched_inv s \<longleftrightarrow>
     (\<exists>c<TASK_MAX. cur_task s = Some c \<and> (\<forall>i<TASK_MAX. t_state (g_tasks s i) = TASK_RUNNING \<longleftrightarrow> i = c) \<and>
        r_cr3 s = t_cr3 (g_tasks s c) \<and> g_cr3 s = r_cr3 s \<and> r_rsp0 s = t_kstack_top (g_tasks s c) \<and>
        r_fs_base s = t_fs_base (g_tasks s c)) \<and> pids_ok (g_tasks s) (g_next_pid s)"
  by (simp add: sched_inv_def pids_ok_def)

lemma pids_ok_same:
  assumes "pids_ok ts p" "\<And>i. i < TASK_MAX \<Longrightarrow> t_state (us i) \<noteq> 0 \<Longrightarrow> t_state (ts i) \<noteq> 0 \<and> t_pid (us i) = t_pid (ts i)"
  shows "pids_ok us p"
  using assms unfolding pids_ok_def by metis

lemma pids_ok_new:
  assumes ok: "pids_ok ts p" and t: "t_pid tn = p" "p + 1 \<noteq> 0"
  shows "pids_ok (ts(i := tn)) (p + 1)"
proof -
  have up: "unat (p + 1) = unat p + 1"
  proof -
    have "unat p < 2 ^ 32" using unsigned_less [of p, where ?'a = nat] by simp
    moreover have "unat (p + 1) = (unat p + 1) mod 2 ^ 32" by (simp add: unat_word_ariths)
    moreover have "unat (p + 1) \<noteq> 0" using t(2) by (simp only: unsigned_eq_0_iff simp_thms)
    ultimately show ?thesis by (cases "unat p + 1 = 2 ^ 32") simp_all
  qed
  have lt: "q < p + 1 \<longleftrightarrow> q \<le> p" for q :: u32 unfolding word_less_nat_alt word_le_nat_alt up by auto
  have "t_pid ((ts(i := tn)) j) \<le> p" if "j < TASK_MAX" "t_state ((ts(i := tn)) j) \<noteq> 0" for j
    using that ok t(1) unfolding pids_ok_def by (cases "j = i") auto
  moreover have "j = k" if "j < TASK_MAX" "k < TASK_MAX" "t_state ((ts(i := tn)) j) \<noteq> 0" "t_state ((ts(i := tn)) k) \<noteq> 0"
    "t_pid ((ts(i := tn)) j) = t_pid ((ts(i := tn)) k)" for j k
    using that ok t(1) unfolding pids_ok_def by (cases "j = i"; cases "k = i") fastforce+
  ultimately show ?thesis unfolding pids_ok_def lt by blast
qed

text \<open>The table after a step that does not switch: at most one entry differs.\<close>

lemma stay_table:
  assumes t: "(\<exists>rsp. ts = (g_tasks s)(c := (g_tasks s c)\<lparr>t_rsp := rsp\<rparr>)) \<and> p = g_next_pid s \<or> table_grows s ts p \<and> (p \<noteq> 0 \<or> p = g_next_pid s)"
    and c: "t_state (g_tasks s c) = TASK_RUNNING"
  obtains (run) rsp where "ts = (g_tasks s)(c := (g_tasks s c)\<lparr>t_rsp := rsp\<rparr>)" "p = g_next_pid s"
  | (free) i where "ts = (g_tasks s)(i := zero_task)" "i \<noteq> c" "t_state (g_tasks s i) \<in> {0, TASK_ZOMBIE}" "p = g_next_pid s"
  | (new) i tn where "ts = (g_tasks s)(i := tn)" "i \<noteq> c" "t_state (g_tasks s i) \<in> {0, TASK_ZOMBIE}" "t_state tn = TASK_READY"
      "t_pid tn = g_next_pid s" "p = g_next_pid s + 1" "p \<noteq> 0"
proof -
  have same: "(g_tasks s)(c := (g_tasks s c)\<lparr>t_rsp := t_rsp (g_tasks s c)\<rparr>) = g_tasks s" by simp
  have ne: "i \<noteq> c" if "t_state (g_tasks s i) \<in> {0, TASK_ZOMBIE}" for i using that c by auto
  consider rsp where "ts = (g_tasks s)(c := (g_tasks s c)\<lparr>t_rsp := rsp\<rparr>)" "p = g_next_pid s"
    | "ts = g_tasks s" "p = g_next_pid s"
    | i where "t_state (g_tasks s i) \<in> {0, TASK_ZOMBIE}" "ts = (g_tasks s)(i := zero_task)" "p = g_next_pid s"
    | i tn where "t_state (g_tasks s i) \<in> {0, TASK_ZOMBIE}" "ts = (g_tasks s)(i := tn)" "t_state tn = TASK_READY"
        "t_pid tn = g_next_pid s" "p = g_next_pid s + 1" "p \<noteq> 0"
    using t unfolding table_grows_def by (metis add_cancel_left_right zero_neq_one)
  then show thesis
  proof cases
    case 2
    then show thesis using run [of "t_rsp (g_tasks s c)"] same by simp
  qed (use run free new ne in blast)+
qed

lemma sched_step_inv:
  assumes inv: "sched_inv s" and step: "sched_step inb outb s r s'"
  shows "sched_inv s'"
proof -
  obtain c where c: "c < TASK_MAX" "cur_task s = Some c" "t_state (g_tasks s c) = TASK_RUNNING" "g_cr3 s = r_cr3 s"
    "\<And>i. i < TASK_MAX \<Longrightarrow> i \<noteq> c \<Longrightarrow> t_state (g_tasks s i) \<noteq> TASK_RUNNING"
    "r_cr3 s = t_cr3 (g_tasks s c)" "r_rsp0 s = t_kstack_top (g_tasks s c)" "r_fs_base s = t_fs_base (g_tasks s c)"
    using sched_inv_current [OF inv] by metis
  have pids: "pids_ok (g_tasks s) (g_next_pid s)" using inv by (simp add: sched_inv_alt)
  show ?thesis
  proof (rule sched_step_cases [OF inv step c(2,1)])
    fix ts p d f
    assume x: "ctx s' = (ctx s)\<lparr>x_tasks := ts, x_next_pid := p, x_depth := d, x_fpu := f\<rparr>"
      and t: "(\<exists>rsp. ts = (g_tasks s)(c := (g_tasks s c)\<lparr>t_rsp := rsp\<rparr>)) \<and> p = g_next_pid s \<or> table_grows s ts p \<and> (p \<noteq> 0 \<or> p = g_next_pid s)"
    have f: "cur_task s' = Some c" "g_tasks s' = ts" "g_next_pid s' = p" "r_cr3 s' = r_cr3 s" "g_cr3 s' = g_cr3 s" "r_rsp0 s' = r_rsp0 s"
      "r_fs_base s' = r_fs_base s" unfolding ctx_fields(1-8) x using c(2) by (simp_all add: ctx_sel)
    have z: "t_state zero_task = 0" by (simp add: zero_task_def)
    have ts: "pids_ok ts p \<and> (\<forall>i<TASK_MAX. t_state (ts i) = TASK_RUNNING \<longleftrightarrow> i = c) \<and> t_cr3 (ts c) = t_cr3 (g_tasks s c) \<and>
      t_kstack_top (ts c) = t_kstack_top (g_tasks s c) \<and> t_fs_base (ts c) = t_fs_base (g_tasks s c)"
      using t c(3)
    proof (cases rule: stay_table)
      case (run rsp)
      then have "pids_ok ts p" by (auto intro!: pids_ok_same [OF pids] split: if_splits)
      then show ?thesis using run c(3,5) by auto
    next
      case (free i)
      then have "pids_ok ts p" using z by (auto intro!: pids_ok_same [OF pids] split: if_splits)
      then show ?thesis using free z c(3,5) by auto
    next
      case (new i tn)
      then show ?thesis using c(3,5) pids_ok_new [OF pids, of tn i] by auto
    qed
    then show ?thesis unfolding sched_inv_alt f using c(1,4,6,7,8) by auto
  next
    fix n tc
    assume n: "n \<noteq> c" "n < TASK_MAX" "runnable (g_tasks s n)" "ctx s' = switched c tc n (ctx s)"
      "t_state tc \<in> {TASK_READY, TASK_ZOMBIE}" "t_pid tc = t_pid (g_tasks s c)"
    let ?ts = "(g_tasks s)(c := tc\<lparr>t_fpu := fpu_regs s\<rparr>, n := (g_tasks s n)\<lparr>t_state := TASK_RUNNING\<rparr>)"
    have f: "cur_task s' = Some n" "g_tasks s' = ?ts" "g_next_pid s' = g_next_pid s"
      "r_cr3 s' = t_cr3 (g_tasks s n)" "g_cr3 s' = t_cr3 (g_tasks s n)" "r_rsp0 s' = t_kstack_top (g_tasks s n)"
      "r_fs_base s' = t_fs_base (g_tasks s n)" unfolding ctx_fields(1-8) n(4) by (simp_all add: switched_def ctx_sel)
    have "t_state (?ts i) = TASK_RUNNING \<longleftrightarrow> i = n" if "i < TASK_MAX" for i
      using c(5) [OF that] n(1,5) by auto
    moreover have "pids_ok ?ts (g_next_pid s)"
      by (rule pids_ok_same [OF pids]) (use n c(3) in \<open>auto simp: runnable_def split: if_splits\<close>)
    ultimately show ?thesis unfolding sched_inv_alt f using n(1,2) by auto
  qed
qed
lemma sched_init_inv:
  assumes free: "\<forall>i<TASK_MAX. t_state (g_tasks s i) = 0" and s: "g_next_pid s = 1" "r_cr3 s = g_root_cr3 s" "g_cr3 s = g_root_cr3 s"
  obtains u where "sched_init s = Some u" "sched_inv u" "cur_task u = Some 0" "g_preempt_depth u = g_preempt_depth s"
proof -
  have slot: "task_find_slot s = (Some 0, s)"
  proof -
    have "find (\<lambda>i. t_state (g_tasks s i) = TASK_ZOMBIE) [0..<TASK_MAX] = None" using free by (auto simp: find_upt_None)
    moreover have "find (\<lambda>i. t_state (g_tasks s i) = 0) [0..<TASK_MAX] = Some 0" using free by (auto simp: find_upt_Some)
    ultimately show ?thesis by (simp add: task_find_slot_def)
  qed
  let ?t1 = "(g_tasks s 0)\<lparr>t_pid := 1, t_state := TASK_RUNNING, t_name := ''tsh'', t_cr3 := g_root_cr3 s, t_fs_base := 0, t_mmap_cur := MMAP_CURSOR_START\<rparr>"
  let ?a = "s\<lparr>cur_task := Some 0, g_next_pid := 2, g_tasks := (g_tasks s)(0 := ?t1)\<rparr>"
  obtain k v where k: "kalloc STACK_SIZE ?a = (k, v)" by (cases "kalloc STACK_SIZE ?a")
  have v: "ctx v = ctx ?a" using ctx_ops(1) [of STACK_SIZE ?a] unfolding k by simp
  let ?t2 = "?t1\<lparr>t_kstack := k, t_kstack_top := k + STACK_SIZE, t_rsp := 0, t_fpu := fpu_regs v\<rparr>"
  let ?u = "(v\<lparr>g_tasks := (g_tasks v)(0 := ?t2), r_fs_base := 0\<rparr>)\<lparr>r_rsp0 := k + STACK_SIZE\<rparr>"
  have vt: "g_tasks v = (g_tasks s)(0 := ?t1)" unfolding ctx_fields(2) [of v] v by (simp add: ctx_sel)
  have r: "sched_init s = Some ?u"
    using s(1) k vt unfolding sched_init_def slot prod.case option.case
    by (simp add: Let_def upd_task_def vmm_root_cr3_def tss_set_rsp0_def)
  have u: "cur_task ?u = Some 0" "g_tasks ?u = (g_tasks s)(0 := ?t2)" "g_next_pid ?u = 2" "r_cr3 ?u = r_cr3 s" "g_cr3 ?u = g_cr3 s"
    "g_preempt_depth ?u = g_preempt_depth s" "r_fs_base ?u = 0" "r_rsp0 ?u = k + STACK_SIZE"
    using vt unfolding ctx_fields(1,3-6) v by (simp_all add: ctx_def) (use v in \<open>simp_all add: ctx_def\<close>)
  have "sched_inv ?u" unfolding sched_inv_alt pids_ok_def u using free s by (auto intro!: exI [of _ 0])
  with that r u show thesis by blast
qed

definition ticks :: "'h outb \<Rightarrow> u64 list \<Rightarrow> ('h, 'a) kernel_scheme \<Rightarrow> ('h, 'a) kernel_scheme" where
  "ticks outb rs s = fold (\<lambda>rsp s. snd (sched_tick outb rsp s)) rs s"

lemma ticks_reach:
  assumes "sched_inv s" "\<not> g_preempt_depth s > 0" "t < TASK_MAX" "t_state (g_tasks s t) = TASK_READY"
    "cur_task s = Some c" "c < TASK_MAX" "dist c t \<le> length rs"
  shows "\<exists>k. 1 \<le> k \<and> k \<le> dist c t \<and> cur_task (ticks outb (take k rs) s) = Some t"
  using assms
proof (induction "dist c t" arbitrary: c s rs rule: less_induct)
  case less
  note inv = less.prems(1)
  have c: "t_state (g_tasks s c) = TASK_RUNNING" "g_cr3 s = r_cr3 s" using less.prems(5,6) inv by (auto elim: sched_inv_current)
  have ne: "t \<noteq> c" using c(1) less.prems(4) by auto
  have run: "runnable (g_tasks s t)" using less.prems(4) by (simp add: runnable_def)
  have n: "task_next c s \<noteq> c" "task_next c s = t \<or> dist (task_next c s) t < dist c t" "task_next c s < TASK_MAX"
    using task_next_spec(3) [OF less.prems(6,3) ne run] task_next_spec(1) [OF less.prems(6)] by blast+
  have d: "0 < dist c t" using dist_props(3) [OF less.prems(6,3)] ne by simp
  then obtain r rs' where rs: "rs = r # rs'" using less.prems(7) by (cases rs) auto
  obtain u where u: "sched_tick outb r s = (t_rsp (g_tasks s (task_next c s)), u)"
    "ctx u = switched c ((g_tasks s c)\<lparr>t_rsp := r, t_state := TASK_READY\<rparr>) (task_next c s) (ctx s)"
    using sched_tick_cases [OF less.prems(5) c, of outb r] less.prems(2) n(1) by metis
  have uf: "cur_task u = Some (task_next c s)" "g_preempt_depth u = g_preempt_depth s"
    "t \<noteq> task_next c s \<Longrightarrow> g_tasks u t = g_tasks s t"
    unfolding ctx_fields(1,2,4) u(2) using ne by (simp_all add: switched_def ctx_sel)
  show ?case
  proof (cases "task_next c s = t")
    case True
    then show ?thesis using uf(1) u(1) d rs by (intro exI [of _ 1]) (simp add: ticks_def)
  next
    case False
    then have lt: "dist (task_next c s) t < dist c t" using n(2) by simp
    have "sched_inv u" by (rule sched_step_inv [OF inv, of "\<lambda>_ h. (0, h)" outb "t_rsp (g_tasks s (task_next c s))"]) (rule Tick [OF u(1)])
    then have "\<exists>k. 1 \<le> k \<and> k \<le> dist (task_next c s) t \<and> cur_task (ticks outb (take k rs') u) = Some t"
      using less.hyps [OF lt, of u rs'] less.prems(2,3,4,7) uf False n(3) lt rs by simp
    then obtain k where "1 \<le> k" "k \<le> dist (task_next c s) t" "cur_task (ticks outb (take k rs') u) = Some t" by blast
    then show ?thesis using lt u(1) rs by (intro exI [of _ "Suc k"]) (simp add: ticks_def)
  qed
qed

text \<open>While a ready task waits its entry does not change, and the step that continues it restores its context.\<close>

lemma sched_step_waiting:
  assumes inv: "sched_inv s" and step: "sched_step inb outb s r s'"
    and a: "a < TASK_MAX" "cur_task s \<noteq> Some a" "t_state (g_tasks s a) = TASK_READY"
  shows "if cur_task s' = Some a
         then r = t_rsp (g_tasks s a) \<and> fpu_regs s' = t_fpu (g_tasks s a) \<and> r_fs_base s' = t_fs_base (g_tasks s a) \<and>
              r_cr3 s' = t_cr3 (g_tasks s a) \<and> r_rsp0 s' = t_kstack_top (g_tasks s a)
         else g_tasks s' a = g_tasks s a"
proof -
  obtain c where c: "c < TASK_MAX" "cur_task s = Some c" "t_state (g_tasks s c) = TASK_RUNNING" using sched_inv_current [OF inv] by metis
  have ne: "a \<noteq> c" using a c by auto
  show ?thesis
  proof (rule sched_step_cases [OF inv step c(2,1)])
    fix ts p d f
    assume x: "ctx s' = (ctx s)\<lparr>x_tasks := ts, x_next_pid := p, x_depth := d, x_fpu := f\<rparr>"
      and t: "(\<exists>rsp. ts = (g_tasks s)(c := (g_tasks s c)\<lparr>t_rsp := rsp\<rparr>)) \<and> p = g_next_pid s \<or> table_grows s ts p \<and> (p \<noteq> 0 \<or> p = g_next_pid s)"
    have "cur_task s' = Some c" "g_tasks s' = ts" unfolding ctx_fields(1,2) x using c(2) by (simp_all add: ctx_sel)
    moreover have "ts a = g_tasks s a" using t c(3) by (cases rule: stay_table) (use ne a(3) in auto)
    ultimately show ?thesis using ne by simp
  next
    fix n tc
    assume n: "n \<noteq> c" "r = t_rsp (g_tasks s n)" "ctx s' = switched c tc n (ctx s)"
    have "cur_task s' = Some n" "g_tasks s' = (g_tasks s)(c := tc\<lparr>t_fpu := fpu_regs s\<rparr>, n := (g_tasks s n)\<lparr>t_state := TASK_RUNNING\<rparr>)"
      "r_cr3 s' = t_cr3 (g_tasks s n)" "r_rsp0 s' = t_kstack_top (g_tasks s n)" "r_fs_base s' = t_fs_base (g_tasks s n)"
      "fpu_regs s' = t_fpu (g_tasks s n)" unfolding ctx_fields n(3) by (simp_all add: switched_def ctx_sel)
    then show ?thesis using n(2) ne by auto
  qed
qed

lemma sched_run_waiting:
  assumes "sched_run inb outb a s s'" "sched_inv s" "a < TASK_MAX" "t_state (g_tasks s a) = TASK_READY"
  shows "sched_inv s' \<and> cur_task s' \<noteq> Some a \<and> g_tasks s' a = g_tasks s a"
  using assms
proof induction
  case (Further s u r v)
  then have u: "sched_inv u" "cur_task u \<noteq> Some a" "g_tasks u a = g_tasks s a" by simp_all
  then have "t_state (g_tasks u a) = TASK_READY" using Further.prems by simp
  from sched_step_waiting [OF u(1) Further.hyps(2) Further.prems(2) u(2) this] show ?case
    using sched_step_inv [OF u(1) Further.hyps(2)] Further.hyps(3) u(3) by simp
qed simp

section \<open>Properties\<close>


text \<open>C35: Round robin is fair: with preemption enabled a ready task becomes the current one after at most fifteen
  timer ticks, whatever stack pointers the interrupted tasks have.\<close>

theorem sched_fair:
  assumes "sched_inv s" "g_preempt_depth s = 0" "t < TASK_MAX" "t_state (g_tasks s t) = TASK_READY" "length rs = 15"
  shows "\<exists>k. 1 \<le> k \<and> k \<le> 15 \<and> cur_task (ticks outb (take k rs) s) = Some t"
proof -
  obtain c where c: "c < TASK_MAX" "cur_task s = Some c" using sched_inv_current [OF assms(1)] by metis
  have "dist c t \<le> 15" using dist_props(2) [OF c(1) assms(3)] by (simp add: TASK_MAX_def)
  then show ?thesis using ticks_reach [OF assms(1) _ assms(3,4) c(2,1), of rs outb] assms(2,5) by fastforce
qed


text \<open>A kernel with the shell running and one ready program.\<close>

definition sched_example :: "unit kernel" where
  "sched_example = (kernel_boot () termios_boot vfs_example)\<lparr>cur_task := Some 0, g_next_pid := 3,
     g_cr3 := 0x100000, r_cr3 := 0x100000, g_root_cr3 := 0x100000,
     g_tasks := (\<lambda>_. zero_task)(0 := zero_task\<lparr>t_pid := 1, t_state := TASK_RUNNING, t_cr3 := 0x100000\<rparr>,
       1 := zero_task\<lparr>t_pid := 2, t_state := TASK_READY, t_cr3 := 0x200000, t_rsp := 0x8000\<rparr>)\<rparr>"

lemma sched_example_inv: "sched_inv sched_example" "g_preempt_depth sched_example = 0" "cur_task sched_example = Some 0"
  "t_state (g_tasks sched_example 1) = TASK_READY"
proof -
  have z: "t_state zero_task = 0" "t_kstack_top zero_task = 0" "t_fs_base zero_task = 0" by (simp_all add: zero_task_def)
  show "sched_inv sched_example"
    unfolding sched_inv_def by (auto simp: sched_example_def kernel_boot_simps z intro!: exI [of _ 0] split: if_splits)
qed (simp_all add: sched_example_def kernel_boot_simps)

theorem sched_fair_witness:
  "\<exists>k. 1 \<le> k \<and> k \<le> 15 \<and> cur_task (ticks (\<lambda>_ _ h. h) (take k (replicate 15 0x7000)) sched_example) = Some 1"
  using sched_fair [OF sched_example_inv(1,2) _ sched_example_inv(4), of "replicate 15 0x7000" "\<lambda>_ _ h. h"]
  by (simp add: TASK_MAX_def)

text \<open>With two runnable tasks each tick switches to the other.\<close>

lemma two_tasks_tick:
  assumes inv: "sched_inv s" "\<not> g_preempt_depth s > 0" and c: "cur_task s = Some c" "c < 2" and t: "t < 2" "t \<noteq> c"
    and run: "\<And>i. i < TASK_MAX \<Longrightarrow> runnable (g_tasks s i) \<longleftrightarrow> i < 2"
  obtains r u where "sched_tick outb rsp s = (r, u)" "cur_task u = Some t" "sched_inv u" "\<not> g_preempt_depth u > 0"
    "\<And>i. i < TASK_MAX \<Longrightarrow> runnable (g_tasks u i) \<longleftrightarrow> i < 2"
proof -
  have lt: "c < TASK_MAX" "t < TASK_MAX" using c t by (simp_all add: TASK_MAX_def)
  have st: "t_state (g_tasks s c) = TASK_RUNNING" "g_cr3 s = r_cr3 s" using inv(1) c(1) by (auto elim: sched_inv_current)
  have "task_next c s \<noteq> c" using task_next_spec(3) [OF lt t(2)] run [OF lt(2)] t(1) by blast
  moreover have "task_next c s < 2" using run [of "task_next c s"] task_next_spec(1,2) [OF lt(1)] calculation by blast
  ultimately have n: "task_next c s = t" "task_next c s \<noteq> c" using c(2) t by auto
  show thesis
  proof (rule sched_tick_cases [OF c(1) st, of outb rsp])
    fix u assume u: "sched_tick outb rsp s = (t_rsp (g_tasks s (task_next c s)), u)"
      "ctx u = switched c ((g_tasks s c)\<lparr>t_rsp := rsp, t_state := TASK_READY\<rparr>) (task_next c s) (ctx s)"
    have "cur_task u = Some t" "g_preempt_depth u = g_preempt_depth s"
      "g_tasks u = (g_tasks s)(c := (g_tasks s c)\<lparr>t_rsp := rsp, t_state := TASK_READY, t_fpu := fpu_regs s\<rparr>, t := (g_tasks s t)\<lparr>t_state := TASK_RUNNING\<rparr>)"
      unfolding ctx_fields(1,2,4) u(2) n by (simp_all add: switched_def ctx_sel)
    moreover have "sched_inv u" by (rule sched_step_inv [OF inv(1) Tick [OF u(1), of "\<lambda>_ h. (0, h)"]])
    ultimately show thesis using u(1) inv(2) run c(2) t by (intro that [of _ u]) (auto simp: runnable_def)
  qed (use inv(2) n in auto)
qed

lemma sched_example_runnable: "i < TASK_MAX \<Longrightarrow> runnable (g_tasks sched_example i) \<longleftrightarrow> i < 2"
  by (auto simp: sched_example_def kernel_boot_simps runnable_def zero_task_def TASK_READY_def TASK_RUNNING_def)


end
