(* ===== verification/Vfs_Pipe.thy ===== *)
theory Vfs_Pipe
  imports Vfs_File Chunk_Queue
begin

text \<open>
  Pipes are bounded queues: the two-piece copies of \<open>pipe_read\<close> and \<open>pipe_write\<close> around the end of the ring
  take from the front and append at the back of the byte sequence the ring stands for. On top of that a
  writer and a reader that run in any order exchange exactly the written bytes.
\<close>

section \<open>Pipes as queues\<close>

definition pipe_ok :: "vfs_pipe \<Rightarrow> bool" where
  "pipe_ok p \<longleftrightarrow> length (p_buf p) = PIPE_BUF_SIZE \<and> p_head p < PIPE_BUF_SIZE \<and> p_count p \<le> PIPE_BUF_SIZE"

definition pipe_bytes :: "vfs_pipe \<Rightarrow> u8 list" where
  "pipe_bytes p = map (\<lambda>i. p_buf p ! ((p_head p + i) mod PIPE_BUF_SIZE)) [0..<p_count p]"

lemma length_pipe_bytes [simp]: "length (pipe_bytes p) = p_count p"
  by (simp add: pipe_bytes_def)

lemma length_splice [simp]: "i + length xs \<le> length b \<Longrightarrow> length (splice b i xs) = length b"
  by (simp add: splice_def)

lemma nth_splice:
  assumes "i + length xs \<le> length b" "j < length b"
  shows "splice b i xs ! j = (if i \<le> j \<and> j < i + length xs then xs ! (j - i) else b ! j)"
  using assms by (auto simp: splice_def nth_append min_def)

lemma wrap_index: "a < (m::nat) \<Longrightarrow> b \<le> m \<Longrightarrow> (a + b) mod m = (if a + b < m then a + b else a + b - m)"
  by (simp add: mod_if)

text \<open>\<open>pipe_read\<close> takes from the front.\<close>

definition pipe_get :: "nat \<Rightarrow> vfs_pipe \<Rightarrow> u8 list \<times> vfs_pipe" where
  "pipe_get n p = (case pipe_read p n of Ret (_, out) p' \<Rightarrow> (out, p') | Hlt _ p' \<Rightarrow> ([], p') | Loop \<Rightarrow> ([], p))"

lemma pipe_read_nonempty:
  assumes ok: "pipe_ok p" and c: "p_count p \<noteq> 0"
  obtains p' where "pipe_read p n = Ret (int (min n (p_count p)), take n (pipe_bytes p)) p'"
    "pipe_ok p'" "pipe_bytes p' = drop n (pipe_bytes p)" "p_refs_r p' = p_refs_r p" "p_refs_w p' = p_refs_w p"
proof -
  define m where "m = min n (p_count p)"
  define p' where "p' = p\<lparr>p_head := (p_head p + m) mod PIPE_BUF_SIZE, p_count := p_count p - m\<rparr>"
  let ?first = "PIPE_BUF_SIZE - p_head p"
  let ?out = "if m > ?first then take ?first (drop (p_head p) (p_buf p)) @ take (m - ?first) (p_buf p)
              else take m (drop (p_head p) (p_buf p))"
  have b: "length (p_buf p) = PIPE_BUF_SIZE" "p_head p < PIPE_BUF_SIZE" "p_count p \<le> PIPE_BUF_SIZE" "m \<le> p_count p"
    using ok by (auto simp: pipe_ok_def m_def)
  have "?out = take n (pipe_bytes p)"
  proof (rule nth_equalityI)
    show "length ?out = length (take n (pipe_bytes p))" using b by (auto simp: m_def)
    fix i assume "i < length ?out"
    then have i: "i < m" using b by (auto split: if_splits)
    then have "take n (pipe_bytes p) ! i = p_buf p ! ((p_head p + i) mod PIPE_BUF_SIZE)"
      by (simp add: pipe_bytes_def m_def)
    also have "\<dots> = ?out ! i" using b i by (auto simp: wrap_index nth_append min_def add.commute)
    finally show "?out ! i = take n (pipe_bytes p) ! i" by simp
  qed
  moreover have m: "(if n < p_count p then n else p_count p) = m" by (simp add: m_def)
  ultimately have "pipe_read p n = Ret (int m, take n (pipe_bytes p)) p'"
    using c unfolding pipe_read_def Let_def m by (simp add: p'_def)
  moreover have "pipe_bytes p' = drop n (pipe_bytes p)"
  proof (rule nth_equalityI)
    fix i assume "i < length (pipe_bytes p')"
    then have "i < p_count p - m" "n = m" using c by (auto simp: p'_def m_def)
    moreover from this have "m + i < p_count p" by simp
    ultimately show "pipe_bytes p' ! i = drop n (pipe_bytes p) ! i"
      by (simp add: pipe_bytes_def p'_def mod_add_left_eq add.assoc)
  qed (simp add: p'_def m_def)
  moreover have "pipe_ok p'" using b by (simp add: pipe_ok_def p'_def PIPE_BUF_SIZE_def)
  ultimately show thesis by (intro that [of p']) (simp_all add: p'_def m_def)
qed

text \<open>Writing a chunk that fits behind the \<open>c\<close> bytes of a ring, in one or two pieces.\<close>

lemma ring_put:
  assumes B: "length b = M" "h < M" "c + length xs \<le> M" and w: "w = (h + c) mod M"
    and b': "b' = (if length xs > M - w then splice (splice b w (take (M - w) xs)) 0 (drop (M - w) xs) else splice b w xs)"
  shows "length b' = M" and "i < c \<Longrightarrow> b' ! ((h + i) mod M) = b ! ((h + i) mod M)"
    and "i < length xs \<Longrightarrow> b' ! ((h + c + i) mod M) = xs ! i"
proof -
  have wM: "w < M" using B(2) by (simp add: w)
  have wi: "w = (if h + c < M then h + c else h + c - M)" using B by (simp add: w wrap_index)
  show "length b' = M" using B wM by (auto simp: b')
  have hit: "b' ! j = xs ! k" if k: "k < length xs" and j: "j = (if w + k < M then w + k else w + k - M)" for j k
  proof (cases "length xs > M - w")
    case True
    then show ?thesis using k j wM B by (auto simp: b' nth_splice)
  next
    case False
    then have "w + k < M" using k by linarith
    with False show ?thesis using k j wM B by (simp add: b' nth_splice)
  qed
  have miss: "b' ! j = b ! j" if "j < M" "j < w \<or> w + length xs \<le> j" "w + length xs \<le> M + j" for j
  proof (cases "length xs > M - w")
    case True
    then show ?thesis using that wM B by (auto simp: b' nth_splice)
  next
    case False
    then show ?thesis using that wM B by (auto simp: b' nth_splice)
  qed
  show "i < c \<Longrightarrow> b' ! ((h + i) mod M) = b ! ((h + i) mod M)"
  proof (rule miss)
    assume i: "i < c"
    show "(h + i) mod M < M" using B(2) by simp
    have "(h + i) mod M = (if h + i < M then h + i else h + i - M)" using i B by (simp add: wrap_index)
    then show "(h + i) mod M < w \<or> w + length xs \<le> (h + i) mod M" "w + length xs \<le> M + (h + i) mod M"
      using i B wi by (auto split: if_splits)
  qed
  assume i: "i < length xs"
  have "(h + c + i) mod M = (w + i) mod M" by (simp add: w mod_add_left_eq)
  also have "\<dots> = (if w + i < M then w + i else w + i - M)" using i B wM by (intro wrap_index) auto
  finally show "b' ! ((h + c + i) mod M) = xs ! i" using i by (intro hit)
qed

text \<open>One chunk of \<open>pipe_write\<close> appends at the back.\<close>

lemma pipe_chunk_bytes:
  assumes ok: "pipe_ok p" and t: "tot \<le> length buf" and c: "pipe_chunk p buf tot = (tot', p')"
  shows "tot' = tot + min (length buf - tot) (PIPE_BUF_SIZE - p_count p)" and "pipe_ok p'"
    and "pipe_bytes p' = pipe_bytes p @ take (tot' - tot) (drop tot buf)"
    and "p_refs_r p' = p_refs_r p" "p_refs_w p' = p_refs_w p" "p_count p' = p_count p + (tot' - tot)"
proof -
  define n where "n = min (length buf - tot) (PIPE_BUF_SIZE - p_count p)"
  define w where "w = (p_head p + p_count p) mod PIPE_BUF_SIZE"
  define xs where "xs = take n (drop tot buf)"
  define b where "b = (if length xs > PIPE_BUF_SIZE - w
      then splice (splice (p_buf p) w (take (PIPE_BUF_SIZE - w) xs)) 0 (drop (PIPE_BUF_SIZE - w) xs)
      else splice (p_buf p) w xs)"
  have lx: "length xs = n" using t by (simp add: xs_def n_def)
  have t1: "take (PIPE_BUF_SIZE - w) (drop tot buf) = take (PIPE_BUF_SIZE - w) xs"
      "take (n - (PIPE_BUF_SIZE - w)) (drop (tot + (PIPE_BUF_SIZE - w)) buf) = drop (PIPE_BUF_SIZE - w) xs"
    if "n > PIPE_BUF_SIZE - w" using that by (simp_all add: xs_def min_def drop_take add.commute)
  have n': "(if length buf - tot < PIPE_BUF_SIZE - p_count p then length buf - tot else PIPE_BUF_SIZE - p_count p) = n"
    by (simp add: n_def)
  have "pipe_chunk p buf tot = (tot + n, p\<lparr>p_buf := b, p_count := p_count p + n\<rparr>)"
    unfolding pipe_chunk_def Let_def n' w_def [symmetric] b_def lx using t1 by (simp add: xs_def [symmetric])
  then have tp: "tot' = tot + n" "p' = p\<lparr>p_buf := b, p_count := p_count p + n\<rparr>" using c by simp_all
  have B: "length (p_buf p) = PIPE_BUF_SIZE" "p_head p < PIPE_BUF_SIZE" "p_count p + length xs \<le> PIPE_BUF_SIZE"
    using ok by (auto simp: pipe_ok_def lx n_def)
  note ring = ring_put [OF B w_def b_def]
  show "pipe_ok p'" using B ring(1) by (simp add: pipe_ok_def tp lx)
  show "pipe_bytes p' = pipe_bytes p @ take (tot' - tot) (drop tot buf)"
  proof (rule nth_equalityI)
    fix i assume "i < length (pipe_bytes p')"
    then have i: "i < p_count p + n" by (simp add: tp)
    then have p': "pipe_bytes p' ! i = b ! ((p_head p + i) mod PIPE_BUF_SIZE)" by (simp add: pipe_bytes_def tp)
    show "pipe_bytes p' ! i = (pipe_bytes p @ take (tot' - tot) (drop tot buf)) ! i"
    proof (cases "i < p_count p")
      case True
      then show ?thesis unfolding p' using ring(2) [OF True] by (simp add: nth_append pipe_bytes_def)
    next
      case False
      then show ?thesis unfolding p' using ring(3) [of "i - p_count p"] i lx by (simp add: nth_append tp xs_def [symmetric])
    qed
  qed (use lx in \<open>simp add: tp xs_def\<close>)
  show "tot' = tot + min (length buf - tot) (PIPE_BUF_SIZE - p_count p)" "p_refs_r p' = p_refs_r p"
    "p_refs_w p' = p_refs_w p" "p_count p' = p_count p + (tot' - tot)"
    by (simp_all add: tp n_def)
qed

lemma pipe_write_cases:
  assumes "pipe_ok p" "tot \<le> length buf"
  obtains (full) tot' p' where "pipe_write p buf tot = Hlt tot' p'" "tot' < length buf" "p_count p' = PIPE_BUF_SIZE"
      "p_refs_r p \<noteq> 0" "tot \<le> tot'" "pipe_ok p'" "pipe_bytes p' = pipe_bytes p @ take (tot' - tot) (drop tot buf)"
      "p_refs_r p' = p_refs_r p" "p_refs_w p' = p_refs_w p"
  | (sent) p' where "pipe_write p buf tot = Ret (int (length buf)) p'" "pipe_ok p'"
      "pipe_bytes p' = pipe_bytes p @ drop tot buf" "p_refs_r p' = p_refs_r p" "p_refs_w p' = p_refs_w p"
  | (broken) "p_refs_r p = 0" "tot < length buf" "pipe_write p buf tot = Ret (if tot > 0 then int tot else - EPIPE) p"
proof (cases "tot < length buf \<and> p_refs_r p \<noteq> 0 \<and> p_count p < PIPE_BUF_SIZE")
  case True
  obtain tot' p' where c: "pipe_chunk p buf tot = (tot', p')" by (cases "pipe_chunk p buf tot")
  note ch = pipe_chunk_bytes [OF assms c]
  have w: "pipe_write p buf tot = pipe_write p' buf tot'" using True c by (subst pipe_write.simps) simp
  have t': "tot \<le> tot'" "tot' \<le> length buf" using ch(1) True by auto
  show thesis
  proof (cases "tot' < length buf")
    case less: True
    then have "p_count p' = PIPE_BUF_SIZE" using ch(1,6) True by auto
    moreover from this have "pipe_write p' buf tot' = Hlt tot' p'" using less ch(4) True by (subst pipe_write.simps) simp
    ultimately show thesis using less ch t' True w by (intro full [of tot' p']) simp_all
  next
    case False
    then have e: "tot' = length buf" using t' by simp
    then have "pipe_write p' buf tot' = Ret (int (length buf)) p'" by (subst pipe_write.simps) simp
    with ch(2-5) e w show thesis by (intro sent [of p']) (simp_all)
  qed
next
  case False
  show thesis
  proof (cases "tot < length buf")
    case True
    show thesis
    proof (cases "p_refs_r p = 0")
      case zero: True
      with True show thesis by (intro broken) (simp_all add: pipe_write.simps)
    next
      case nz: False
      then have "p_count p = PIPE_BUF_SIZE" using False True assms(1) by (simp add: pipe_ok_def)
      with True nz assms(1) show thesis by (intro full [of tot p]) (simp_all add: pipe_write.simps)
    qed
  next
    case False
    with assms show thesis by (intro sent [of p]) (simp_all add: pipe_write.simps)
  qed
qed

definition pipe_put :: "u8 list \<Rightarrow> vfs_pipe \<Rightarrow> vfs_pipe" where
  "pipe_put xs p = (if xs = [] then p else snd (pipe_chunk p xs 0))"

lemma pipe_get_spec:
  assumes "pipe_ok p"
  shows "pipe_ok (snd (pipe_get n p)) \<and> pipe_bytes (snd (pipe_get n p)) = drop n (pipe_bytes p) \<and>
    fst (pipe_get n p) = take n (pipe_bytes p)"
proof (cases "p_count p = 0")
  case True
  then have "pipe_bytes p = []" by (simp add: pipe_bytes_def)
  with True assms show ?thesis by (simp add: pipe_get_def pipe_read_def)
next
  case False
  show ?thesis by (rule pipe_read_nonempty [OF assms False, of n]) (simp add: pipe_get_def)
qed

interpretation pipeq: chunk_queue pipe_ok pipe_bytes PIPE_BUF_SIZE pipe_put pipe_get
proof unfold_locales
  fix p xs n assume ok: "pipe_ok p"
  obtain t' p' where c: "pipe_chunk p xs 0 = (t', p')" by (cases "pipe_chunk p xs 0")
  note ch = pipe_chunk_bytes [OF ok le0 c]
  show "pipe_ok (pipe_put xs p)" using ok ch(2) by (simp add: pipe_put_def c)
  show "pipe_bytes (pipe_put xs p) = pipe_bytes p @ take (PIPE_BUF_SIZE - length (pipe_bytes p)) xs"
    using ch(1,3) by (auto simp: pipe_put_def c min_def)
  show "pipe_ok (snd (pipe_get n p))" "pipe_bytes (snd (pipe_get n p)) = drop n (pipe_bytes p)"
    "fst (pipe_get n p) = take n (pipe_bytes p)" using pipe_get_spec [OF ok, of n] by auto
  show "length (pipe_bytes p) \<le> PIPE_BUF_SIZE" using ok by (simp add: pipe_ok_def)
qed

subsection \<open>A writer and a reader on one pipe\<close>

text \<open>
  The writer calls \<open>pipe_write\<close> with \<open>buf\<close> and then closes its end; the reader calls \<open>pipe_read\<close> over and
  over for \<open>n\<close> bytes. A state has the pipe, the writer's progress (\<open>None\<close> once it has closed) and the bytes
  the reader has received. A step runs one of the two to its next wait or return; any order of steps
  is allowed.
\<close>

inductive pipe_step :: "u8 list \<Rightarrow> nat \<Rightarrow> vfs_pipe \<times> nat option \<times> u8 list \<Rightarrow> vfs_pipe \<times> nat option \<times> u8 list \<Rightarrow> bool"
  for buf n where
  write_wait: "pipe_write p buf tot = Hlt tot' p' \<Longrightarrow> pipe_step buf n (p, Some tot, rcv) (p', Some tot', rcv)"
| write_done: "pipe_write p buf tot = Ret r p' \<Longrightarrow>
     pipe_step buf n (p, Some tot, rcv) (p'\<lparr>p_refs_w := p_refs_w p' - 1\<rparr>, None, rcv)"
| read_some: "pipe_read p n = Ret (k, out) p' \<Longrightarrow> pipe_step buf n (p, w, rcv) (p', w, rcv @ out)"
| read_wait: "pipe_read p n = Hlt m p' \<Longrightarrow> pipe_step buf n (p, w, rcv) (p', w, rcv)"

inductive_cases pipe_stepE: "pipe_step buf n (p, w, rcv) st'"

fun pipe_sys_inv :: "u8 list \<Rightarrow> vfs_pipe \<times> nat option \<times> u8 list \<Rightarrow> bool" where
  "pipe_sys_inv buf (p, Some tot, rcv) \<longleftrightarrow>
     pipe_ok p \<and> p_refs_r p = 1 \<and> p_refs_w p = 1 \<and> tot \<le> length buf \<and> rcv @ pipe_bytes p @ drop tot buf = buf"
| "pipe_sys_inv buf (p, None, rcv) \<longleftrightarrow> pipe_ok p \<and> p_refs_r p = 1 \<and> p_refs_w p = 0 \<and> rcv @ pipe_bytes p = buf"

lemma take_drop_append: "take n xs @ drop n xs @ ys = xs @ ys"
  by (simp flip: append_assoc)

lemma pipe_read_cases:
  assumes "pipe_ok p"
  obtains (data) p' where "pipe_read p n = Ret (int (min n (p_count p)), take n (pipe_bytes p)) p'"
      "p_count p \<noteq> 0" "pipe_ok p'" "pipe_bytes p' = drop n (pipe_bytes p)" "p_refs_r p' = p_refs_r p" "p_refs_w p' = p_refs_w p"
  | (eof) "pipe_read p n = Ret (0, []) p" "pipe_bytes p = []" "p_refs_w p = 0"
  | (wait) "pipe_read p n = Hlt 0 p" "pipe_bytes p = []" "p_refs_w p \<noteq> 0"
proof (cases "p_count p = 0")
  case True
  then have "pipe_bytes p = []" by (simp add: pipe_bytes_def)
  with True show thesis using eof wait by (cases "p_refs_w p = 0") (simp_all add: pipe_read_def)
next
  case False
  then show thesis using pipe_read_nonempty [OF assms False, of n] data by blast
qed

lemma pipe_step_inv:
  assumes "pipe_step buf n st st'" "pipe_sys_inv buf st"
  shows "pipe_sys_inv buf st'"
  using assms
proof cases
  case (write_wait p tot tot' p' rcv)
  have ok: "pipe_ok p" "tot \<le> length buf" using assms(2) write_wait(1) by auto
  show ?thesis
  proof (rule pipe_write_cases [OF ok])
    fix t q assume "pipe_write p buf tot = Hlt t q" "t < length buf" "tot \<le> t" "pipe_ok q"
      "pipe_bytes q = pipe_bytes p @ take (t - tot) (drop tot buf)" "p_refs_r q = p_refs_r p" "p_refs_w q = p_refs_w p"
    moreover have "take (t - tot) (drop tot buf) @ drop t buf = drop tot buf"
      using \<open>tot \<le> t\<close> append_take_drop_id [of "t - tot" "drop tot buf"] by simp
    ultimately show ?thesis using assms(2) write_wait by simp
  qed (use write_wait in auto)
next
  case (write_done p tot r p' rcv)
  have ok: "pipe_ok p" "tot \<le> length buf" using assms(2) write_done(1) by auto
  show ?thesis
  proof (rule pipe_write_cases [OF ok])
    fix q assume "pipe_write p buf tot = Ret (int (length buf)) q" "pipe_ok q"
      "pipe_bytes q = pipe_bytes p @ drop tot buf" "p_refs_r q = p_refs_r p" "p_refs_w q = p_refs_w p"
    then show ?thesis using assms(2) write_done by (simp add: pipe_ok_def pipe_bytes_def)
  qed (use write_done assms(2) in auto)
next
  case (read_some p k out p' w rcv)
  have ok: "pipe_ok p" using assms(2) read_some(1) by (cases w) auto
  show ?thesis
    by (rule pipe_read_cases [OF ok, of n]; use assms(2) read_some in \<open>cases w; auto simp: take_drop_append\<close>)
next
  case (read_wait p m p' w rcv)
  have ok: "pipe_ok p" using assms(2) read_wait(1) by (cases w) auto
  show ?thesis
    by (rule pipe_read_cases [OF ok, of n]; use assms(2) read_wait in \<open>cases w; auto\<close>)
qed

lemma pipe_reach_inv: "(pipe_step buf n)\<^sup>*\<^sup>* st st' \<Longrightarrow> pipe_sys_inv buf st \<Longrightarrow> pipe_sys_inv buf st'"
  by (induction rule: rtranclp_induct) (auto intro: pipe_step_inv)

lemma pipe_read_more:
  assumes inv: "pipe_sys_inv buf (p, w, rcv)" and b: "pipe_bytes p \<noteq> []" and n: "n > 0"
  obtains p' rcv' where "pipe_step buf n (p, w, rcv) (p', w, rcv')" "length buf - length rcv' < length buf - length rcv"
proof -
  have ok: "pipe_ok p" using inv by (cases w) auto
  obtain p' where r: "pipe_read p n = Ret (int (min n (p_count p)), take n (pipe_bytes p)) p'"
    by (rule pipe_read_cases [OF ok, of n]) (use b in simp_all)
  have "length rcv + length (pipe_bytes p) \<le> length buf"
    using inv by (cases w) (auto simp del: length_pipe_bytes dest: arg_cong [of _ buf length])
  then have "length buf - length (rcv @ take n (pipe_bytes p)) < length buf - length rcv"
    using b n by (cases "pipe_bytes p") auto
  with read_some [OF r] show thesis by (rule that)
qed

text \<open>From every state that satisfies the invariant the reader can still receive everything.\<close>

lemma pipe_can_finish:
  assumes n: "n > 0"
  shows "pipe_sys_inv buf (p, w, rcv) \<Longrightarrow> \<exists>p'. (pipe_step buf n)\<^sup>*\<^sup>* (p, w, rcv) (p', None, buf)"
proof (induction "2 * (length buf - length rcv) + (if w = None then 0 else 1)" arbitrary: p w rcv rule: less_induct)
  case less
  have ok: "pipe_ok p" using less(2) by (cases w) auto
  note go = converse_rtranclp_into_rtranclp [of "pipe_step buf n"]
  consider (data) "pipe_bytes p \<noteq> []" | (finished) "pipe_bytes p = []" "w = None" | (writer) tot where "pipe_bytes p = []" "w = Some tot"
    by (cases w) auto
  then show ?case
  proof cases
    case data
    obtain p' rcv' where s: "pipe_step buf n (p, w, rcv) (p', w, rcv')" "length buf - length rcv' < length buf - length rcv"
      using pipe_read_more [OF less(2) data n] .
    obtain q where q: "(pipe_step buf n)\<^sup>*\<^sup>* (p', w, rcv') (q, None, buf)"
      by (rule exE, rule less(1) [OF _ pipe_step_inv [OF s(1) less(2)]]) (use s(2) in simp)
    show ?thesis using go [OF s(1) q] by blast
  next
    case finished
    with less(2) show ?thesis by auto
  next
    case (writer tot)
    have tl: "tot \<le> length buf" using less(2) writer by simp
    show ?thesis
    proof (cases "pipe_write p buf tot")
      case (Ret r q)
      have s: "pipe_step buf n (p, w, rcv) (q\<lparr>p_refs_w := p_refs_w q - 1\<rparr>, None, rcv)"
        unfolding writer(2) by (rule write_done [OF Ret])
      obtain q' where q': "(pipe_step buf n)\<^sup>*\<^sup>* (q\<lparr>p_refs_w := p_refs_w q - 1\<rparr>, None, rcv) (q', None, buf)"
        by (rule exE, rule less(1) [OF _ pipe_step_inv [OF s less(2)]]) (simp add: writer(2))
      show ?thesis using go [OF s q'] by blast
    next
      case (Hlt t q)
      have s: "pipe_step buf n (p, w, rcv) (q, Some t, rcv)" unfolding writer(2) by (rule write_wait [OF Hlt])
      note inv = pipe_step_inv [OF s less(2)]
      have "p_count q = PIPE_BUF_SIZE" by (rule pipe_write_cases [OF ok tl]) (use Hlt in simp_all)
      then have nq: "pipe_bytes q \<noteq> []" by (simp add: pipe_bytes_def PIPE_BUF_SIZE_def)
      obtain q' rcv' where s2: "pipe_step buf n (q, Some t, rcv) (q', Some t, rcv')" "length buf - length rcv' < length buf - length rcv"
        using pipe_read_more [OF inv nq n] .
      obtain r where r: "(pipe_step buf n)\<^sup>*\<^sup>* (q', Some t, rcv') (r, None, buf)"
        by (rule exE, rule less(1) [OF _ pipe_step_inv [OF s2(1) inv]]) (use s2(2) writer(2) in simp)
      show ?thesis using go [OF s go [OF s2(1) r]] by blast
    next
      case Loop
      show ?thesis by (rule pipe_write_cases [OF ok tl]) (use Loop in simp_all)
    qed
  qed
qed

section \<open>Properties\<close>



end
