(* ===== verification/Vfs_Data.thy ===== *)
theory Vfs_Data
  imports Vfs_File
begin

text \<open>
  File contents and directory listings: a write replaces exactly its byte range, also when the buffer of
  the file has to move, and leaves the other files alone; a read returns what was written; a directory
  descriptor enumerates the entries of its directory.
\<close>

section \<open>Bytes in memory\<close>

lemma length_load_bytes [simp]: "length (load_bytes a n s) = n"
  by (simp add: load_bytes_def)

lemma nth_load_bytes: "i < n \<Longrightarrow> load_bytes a n s ! i = kbytes s (a + of_nat i)"
  by (simp add: load_bytes_def)

lemma take_load_bytes: "m \<le> n \<Longrightarrow> take m (load_bytes a n s) = load_bytes a m s"
  by (simp add: load_bytes_def take_map)

lemma unat_of_nat_64: "x < 2 ^ 64 \<Longrightarrow> unat (of_nat x :: u64) = x"
  by (simp add: unat_of_nat)

lemma unat_diff_index:
  assumes "i < 2 ^ 64" "k < 2 ^ 64"
  shows "unat ((a + of_nat i) - (a + of_nat k) :: u64) = (if k \<le> i then i - k else 2 ^ 64 + i - k)"
proof (cases "k \<le> i")
  case True
  then have "(a + of_nat i) - (a + of_nat k) = (of_nat (i - k) :: u64)" by (simp add: of_nat_diff)
  moreover have "unat (of_nat (i - k) :: u64) = i - k" using assms by (intro unat_of_nat_64) auto
  ultimately show ?thesis using True by metis
next
  case False
  let ?d = "2 ^ 64 + i - k"
  have "(of_nat ?d :: u64) = of_nat (2 ^ 64) + of_nat i - of_nat k"
    using assms by (subst of_nat_diff) (auto simp only: of_nat_add)
  moreover have "(of_nat (2 ^ 64) :: u64) = 0" by simp
  ultimately have "(a + of_nat i) - (a + of_nat k) = (of_nat ?d :: u64)" by (simp only: add_diff_cancel_left add_0)
  moreover have "unat (of_nat ?d :: u64) = ?d" using assms False by (intro unat_of_nat_64) auto
  ultimately show ?thesis using False by metis
qed

text \<open>Storing inside a loaded range replaces that part of it.\<close>

lemma load_store_bytes:
  assumes "k + length xs \<le> n" "n < 2 ^ 64"
  shows "load_bytes a n (store_bytes (a + of_nat k) xs s) = take k (load_bytes a n s) @ xs @ drop (k + length xs) (load_bytes a n s)"
proof (rule nth_equalityI)
  fix i assume "i < length (load_bytes a n (store_bytes (a + of_nat k) xs s))"
  then have i: "i < n" by simp
  have d: "unat ((a + of_nat i) - (a + of_nat k) :: u64) = (if k \<le> i then i - k else 2 ^ 64 + i - k)"
    using i assms by (intro unat_diff_index) auto
  have "kbytes (store_bytes (a + of_nat k) xs s) (a + of_nat i) =
      (if k \<le> i \<and> i < k + length xs then xs ! (i - k) else kbytes s (a + of_nat i))"
  proof (cases "k \<le> i")
    case True
    then show ?thesis using d by (simp add: store_bytes_def less_diff_conv2)
  next
    case False
    then have "\<not> 2 ^ 64 + i - k < length xs" using assms by linarith
    with False show ?thesis using d by (simp only: store_bytes_def heap.simps if_False) simp
  qed
  with i assms show "load_bytes a n (store_bytes (a + of_nat k) xs s) ! i =
      (take k (load_bytes a n s) @ xs @ drop (k + length xs) (load_bytes a n s)) ! i"
    by (auto simp: nth_load_bytes nth_append min_def)
qed (use assms in simp)

section \<open>Blocks of the heap\<close>

definition block_room :: "'a heap_scheme \<Rightarrow> u64 \<Rightarrow> nat" where
  "block_room s p = unat (b_size s (p - HEADER_SIZE))"

lemma live_block:
  assumes "live_inv P s" "p \<in> P"
  shows "unat (p - HEADER_SIZE) + 24 = unat p" "unat p + block_room s p < 2 ^ 64"
proof -
  have ok: "block_ok s (p - HEADER_SIZE)"
    using assms by (auto simp: live_inv_def heap_inv_def heap_rep_def blocks_ok_def)
  have g: "unat (g_arena_next s) < 2 ^ 64" using unat_lt_64 [of "g_arena_next s"] by simp
  have "unat (b + HEADER_SIZE) = unat b + 24" if "block_ok s b" for b
    using that g by (simp add: block_ok_def HEADER_SIZE_def unat_word_ariths)
  from this [OF ok] show e: "unat (p - HEADER_SIZE) + 24 = unat p" by simp
  show "unat p + block_room s p < 2 ^ 64"
    using ok g e by (simp add: block_ok_def block_room_def)
qed

lemma live_blocks_disjoint:
  assumes "live_inv P s" "p \<in> P" "q \<in> P" "p \<noteq> q"
  shows "unat p + block_room s p \<le> unat q \<or> unat q + block_room s q \<le> unat p"
proof -
  let ?h = "\<lambda>p. p - HEADER_SIZE"
  have "extent s (?h p) \<inter> extent s (?h q) = {}"
  proof -
    obtain B where B: "pairwise (\<lambda>b c. extent s b \<inter> extent s c = {}) B" "?h ` P \<subseteq> B"
      using assms(1) by (auto simp: live_inv_def heap_inv_def heap_rep_def blocks_ok_def)
    then have "?h p \<in> B" "?h q \<in> B" "?h p \<noteq> ?h q" using assms(2-4) by auto
    then show ?thesis using pairwiseD [OF B(1)] by blast
  qed
  then have "unat (?h p) + 24 + block_room s p \<le> unat (?h q) \<or> unat (?h q) + 24 + block_room s q \<le> unat (?h p)"
  proof -
    assume d: "extent s (?h p) \<inter> extent s (?h q) = {}"
    let ?m = "max (unat (?h p)) (unat (?h q))"
    have "?m \<notin> extent s (?h p) \<or> ?m \<notin> extent s (?h q)" using d by blast
    then show ?thesis by (auto simp: extent_def block_room_def max_def split: if_splits)
  qed
  then show ?thesis using live_block(1) [OF assms(1,2)] live_block(1) [OF assms(1,3)] by linarith
qed

lemma kbytes_copy_prefix:
  assumes "\<forall>i<N. N \<le> unat (src + of_nat i - dst)" "N < 2 ^ 64"
  shows "n \<le> N \<Longrightarrow> kbytes (copy_bytes dst src n s) x = (if unat (x - dst) < n then kbytes s (src + (x - dst)) else kbytes s x)"
proof (induction n arbitrary: x)
  case (Suc n)
  have r: "kbytes (copy_bytes dst src (Suc n) s) = (kbytes (copy_bytes dst src n s))
      (dst + of_nat n := kbytes (copy_bytes dst src n s) (src + of_nat n))"
    by (simp add: copy_bytes_def)
  have "n < N" using Suc(2) by simp
  then have src: "\<not> unat (src + of_nat n - dst) < n" using assms(1) by (meson leD le_less_trans less_imp_le)
  have n64: "unat (of_nat n :: u64) = n" using assms(2) Suc(2) by (simp add: unat_of_nat)
  have x: "x = dst + of_nat n \<longleftrightarrow> unat (x - dst) = n"
  proof
    assume "unat (x - dst) = n"
    then have "x - dst = of_nat n" by (simp add: word_unat_eq_iff n64)
    then show "x = dst + of_nat n" by (simp add: eq_diff_eq diff_eq_eq)
  qed (simp add: n64)
  show ?case
  proof (cases "x = dst + of_nat n")
    case True
    then show ?thesis using Suc(1) [of "src + of_nat n"] Suc(2) src n64 by (simp add: r)
  next
    case False
    then have "unat (x - dst) \<noteq> n" using x by blast
    then show ?thesis using Suc(1) [of x] Suc(2) False by (simp add: r less_Suc_eq)
  qed
qed (simp add: copy_bytes_def)

lemma kbytes_copy_bytes:
  assumes "\<forall>i<n. n \<le> unat (src + of_nat i - dst)" "n < 2 ^ 64"
  shows "kbytes (copy_bytes dst src n s) = (\<lambda>x. if unat (x - dst) < n then kbytes s (src + (x - dst)) else kbytes s x)"
  using kbytes_copy_prefix [OF assms order_refl] by (rule ext)

lemma load_bytes_copied:
  assumes "\<forall>i<n. n \<le> unat (src + of_nat i - dst)" "n < 2 ^ 64" "m \<le> n"
  shows "load_bytes dst m (copy_bytes dst src n s) = load_bytes src m s"
proof -
  have "unat (of_nat i :: u64) = i" if "i < m" for i using that assms by (intro unat_of_nat_64) auto
  then show ?thesis
    using assms(3) by (auto simp: load_bytes_def kbytes_copy_bytes [OF assms(1,2)])
qed

text \<open>What lies in another range keeps its bytes.\<close>

lemma unat_diff_far:
  fixes a c :: u64
  assumes "unat a + n \<le> unat c \<or> unat c + m \<le> unat a" "unat a + n < 2 ^ 64" "i < n"
  shows "m \<le> unat (a + of_nat i - c) \<or> unat c + m > 2 ^ 64"
proof -
  have a: "unat (a + of_nat i) = unat a + i" using assms by (intro unat_add_small) auto
  have c: "unat c < 2 ^ 64" using unat_lt_64 [of c] by simp
  show ?thesis
  proof (cases "unat c \<le> unat (a + of_nat i)")
    case True
    then have "unat (a + of_nat i - c) = unat a + i - unat c" using a by (simp add: unat_sub word_le_nat_alt)
    with True assms a show ?thesis by linarith
  next
    case False
    then have "unat (a + of_nat i - c) = 2 ^ 64 + (unat a + i) - unat c"
      using a c by (simp add: unat_sub_if' word_le_nat_alt)
    with False a assms show ?thesis by linarith
  qed
qed

lemma kmalloc_live:
  assumes inv: "live_inv P s" "arena_room s" "unat n \<le> 4064"
  obtains (oom) s' where "kmalloc n s = Some (NULL, s')" "payload s' = payload s" "fst (pmm_alloc_frame s) = 0"
  | (ok) p s' where "kmalloc n s = Some (p, s')" "p \<noteq> NULL" "p \<notin> P" "live_inv (insert p P) s'" "payload s' = payload s"
      "unat n \<le> block_room s' p" "\<And>r. r \<in> P \<Longrightarrow> block_room s' r = block_room s r"
proof -
  let ?L = "(\<lambda>p. p - HEADER_SIZE) ` P"
  have h: "heap_inv ?L s" and room: "unat (g_arena_next s) + 4096 < 2 ^ 64"
    using inv(1,2) by (simp_all add: live_inv_def arena_room_def)
  show thesis
  proof (rule kmalloc_small_cases [OF h inv(3) room])
    fix b s' assume k: "kmalloc n s = Some (b + HEADER_SIZE, s')" "b \<notin> ?L" "heap_inv (insert b ?L) s'"
      "request n \<le> b_size s' b" "\<forall>c\<in>?L. b_size s' c = b_size s c"
    have "block_ok s' b" using k(3) by (auto simp: heap_inv_def heap_rep_def blocks_ok_def)
    then have "b + HEADER_SIZE \<noteq> NULL" by (rule block_ptr_not_null)
    moreover have "live_inv (insert (b + HEADER_SIZE) P) s'" using k(3) by (simp add: live_inv_def)
    moreover have "b + HEADER_SIZE \<notin> P" using k(2) by (auto simp: image_iff)
    moreover have "unat n \<le> block_room s' (b + HEADER_SIZE)"
      using request_small(1) [OF inv(3)] k(4) by (simp add: block_room_def word_le_nat_alt)
    moreover have "block_room s' r = block_room s r" if "r \<in> P" for r using k(5) that by (simp add: block_room_def)
    ultimately show thesis using k(1) kmalloc_payload [OF k(1)] by (intro ok [of "b + HEADER_SIZE" s']) simp_all
  next
    fix s' assume "kmalloc n s = Some (NULL, s')" "vmm.more s' = vmm.more s" "fst (pmm_alloc_frame s) = 0"
    then show thesis using kmalloc_payload by (intro oom [of s']) auto
  qed
qed

lemma kfree_returns:
  assumes "live_inv P s" "p \<in> P"
  shows "\<exists>s'. kfree p s = Some s'"
proof (cases "b_pages s (p - HEADER_SIZE) = 0")
  case True
  have h: "heap_inv ((\<lambda>p. p - HEADER_SIZE) ` P) s" using assms(1) by (simp add: live_inv_def)
  show ?thesis
    by (rule kfree_small [OF h _ True, of p]) (use assms kheap.live_ptr [OF assms] in auto)
next
  case False
  then show ?thesis by (simp add: kfree_def Let_def word_gt_0)
qed

lemma load_bytes_payload: "kbytes s' = kbytes s \<Longrightarrow> load_bytes a n s' = load_bytes a n s"
  by (simp add: load_bytes_def)

text \<open>Bytes of one block are not touched by a copy or a store into another.\<close>

lemma load_bytes_elsewhere:
  assumes "unat r + n \<le> unat a \<or> unat a + k \<le> unat r" "unat r + n < 2 ^ 64" "unat a + k < 2 ^ 64"
    and "\<And>x. k \<le> unat (x - a) \<Longrightarrow> kbytes s' x = kbytes s x"
  shows "load_bytes r n s' = load_bytes r n s"
proof -
  have "kbytes s' (r + of_nat i) = kbytes s (r + of_nat i)" if "i < n" for i
    using unat_diff_far [OF assms(1,2) that] assms(3) by (intro assms(4)) auto
  then show ?thesis by (simp add: load_bytes_def)
qed

lemma copy_bytes_frame:
  "hmem (copy_bytes d p n s) = hmem s" "g_free (copy_bytes d p n s) = g_free s"
  "g_arena_next (copy_bytes d p n s) = g_arena_next s" "heap.more (copy_bytes d p n s) = heap.more s"
  by (induction n) (simp_all add: copy_bytes_def)

lemma krealloc_cases:
  assumes inv: "live_inv P s" "arena_room s" "unat sz \<le> 4064" "sz \<noteq> 0" and p: "p \<in> P"
  obtains (fits) "krealloc p sz s = Some (p, s)" "unat sz \<le> block_room s p"
  | (oom) s' where "krealloc p sz s = Some (NULL, s')" "payload s' = payload s" "fst (pmm_alloc_frame s) = 0"
  | (moved) q s' where "krealloc p sz s = Some (q, s')" "q \<noteq> NULL" "q \<notin> P" "heap.more s' = heap.more s"
      "unat q + unat sz < 2 ^ 64" "load_bytes q (block_room s p) s' = load_bytes p (block_room s p) s"
      "\<And>r. r \<in> P \<Longrightarrow> unat r + block_room s r \<le> unat q \<or> unat q + unat sz \<le> unat r"
      "\<And>r. r \<in> P \<Longrightarrow> load_bytes r (block_room s r) s' = load_bytes r (block_room s r) s"
proof -
  have pn: "p \<noteq> NULL" using kheap.live_ptr [OF inv(1) p] .
  have rq: "align_up sz = request sz" using inv(4) by (simp add: request_def)
  have le: "unat sz \<le> unat (align_up sz)" "unat (align_up sz) \<le> 4064" using request_small(1,2) [OF inv(3)] by (simp_all add: rq)
  let ?n = "block_room s p"
  show thesis
  proof (cases "align_up sz \<le> b_size s (p - HEADER_SIZE)")
    case True
    then have "unat sz \<le> ?n" using le(1) by (simp add: block_room_def word_le_nat_alt)
    with True pn show thesis by (intro fits) (simp_all add: krealloc_def Let_def)
  next
    case False
    have kr: "krealloc p sz s = (case kmalloc (align_up sz) s of None \<Rightarrow> None
       | Some (fresh, s) \<Rightarrow> (if fresh = NULL then Some (NULL, s)
          else map_option (Pair fresh) (kfree p (copy_bytes fresh p (unat (b_size s (p - HEADER_SIZE))) s))))"
      using False pn by (simp add: krealloc_def Let_def)
    show thesis
    proof (rule kmalloc_live [OF inv(1,2) le(2)])
      fix s' assume "kmalloc (align_up sz) s = Some (NULL, s')" "payload s' = payload s" "fst (pmm_alloc_frame s) = 0"
      then show thesis using kr by (intro oom [of s']) simp_all
    next
      fix q s1 assume k: "kmalloc (align_up sz) s = Some (q, s1)" "q \<noteq> NULL" "q \<notin> P" "live_inv (insert q P) s1"
        "payload s1 = payload s" "unat (align_up sz) \<le> block_room s1 q" "\<And>r. r \<in> P \<Longrightarrow> block_room s1 r = block_room s r"
      define s2 where "s2 = copy_bytes q p ?n s1"
      have f2: "hmem s2 = hmem s1" "g_free s2 = g_free s1" "g_arena_next s2 = g_arena_next s1" "heap.more s2 = heap.more s1"
        unfolding s2_def by (rule copy_bytes_frame)+
      have "live_inv (insert q P) s2" using live_inv_fields(1) [OF f2(1-3)] k(4) by blast
      then obtain s3 where s3: "kfree p s2 = Some s3" using kfree_returns p by blast
      have n: "?n < unat (align_up sz)" using False by (simp add: block_room_def word_le_nat_alt)
      have q64: "unat q + block_room s1 q < 2 ^ 64" using live_block(2) [OF k(4)] by simp
      have apart: "unat r + block_room s r \<le> unat q \<or> unat q + block_room s1 q \<le> unat r" if "r \<in> P" for r
        using live_blocks_disjoint [OF k(4), of r q] that k(3,7) by auto
      have r64: "unat r + block_room s r < 2 ^ 64" if "r \<in> P" for r using live_block(2) [OF inv(1) that] .
      have far: "\<forall>i<?n. ?n \<le> unat (p + of_nat i - q)"
        using unat_diff_far [of p ?n q ?n] apart [OF p] r64 [OF p] n q64 k(6) by force
      have n64: "?n < 2 ^ 64" using r64 [OF p] by simp
      have kb: "kbytes s3 = kbytes s2" "heap.more s3 = heap.more s2" "kbytes s1 = kbytes s" "heap.more s1 = heap.more s"
        using kfree_payload [OF s3] k(5) by (simp_all add: payload_def)
      have out: "kbytes s3 x = kbytes s x" if "?n \<le> unat (x - q)" for x
        using that kb(1,3) by (simp add: s2_def kbytes_copy_bytes [OF far n64])
      show thesis
      proof (rule moved)
        show "krealloc p sz s = Some (q, s3)" using kr k(1,2,7) p s3 by (simp add: s2_def block_room_def)
        show "load_bytes q ?n s3 = load_bytes p ?n s"
          using load_bytes_copied [OF far n64 order_refl, of s1] load_bytes_payload kb(1,3) by (metis s2_def)
        show "heap.more s3 = heap.more s" using kb f2(4) by simp
        show "unat q + unat sz < 2 ^ 64" using q64 k(6) le(1) by simp
        show "unat r + block_room s r \<le> unat q \<or> unat q + unat sz \<le> unat r" if "r \<in> P" for r
          using apart [OF that] k(6) le(1) by linarith
        show "load_bytes r (block_room s r) s3 = load_bytes r (block_room s r) s" if "r \<in> P" for r
          using apart [OF that] k(6) n q64 by (intro load_bytes_elsewhere [OF _ r64 [OF that] _ out]) auto
      qed (use k in simp_all)
    qed
  qed
qed

section \<open>Writing to a file\<close>

lemma grow_cap_small:
  assumes "0 < unat c" "unat need \<le> 2032"
  shows "unat c < unat need \<Longrightarrow> \<exists>d. grow_cap c need = Some d \<and> unat need \<le> unat d \<and> unat d < 2 * unat need"
  using assms(1)
proof (induction "unat need - unat c" arbitrary: c rule: less_induct)
  case less
  have d: "unat (c * 2) = 2 * unat c" using less(2) assms(2) by (simp add: unat_word_ariths)
  have lt: "c < need" using less(2) by (simp add: word_less_nat_alt)
  show ?case
  proof (cases "unat (c * 2) < unat need")
    case True
    then show ?thesis using less(1) [of "c * 2"] less(2,3) d lt by (subst grow_cap.simps) auto
  next
    case False
    then have "grow_cap (c * 2) need = Some (c * 2)" by (subst grow_cap.simps) (simp add: word_less_nat_alt)
    then show ?thesis using lt d False less(2) by (subst grow_cap.simps) auto
  qed
qed

text \<open>A regular file owns a live block that has room for its capacity.\<close>

definition file_ok :: "u64 set \<Rightarrow> 'a vfs_scheme \<Rightarrow> u64 \<Rightarrow> bool" where
  "file_ok P s node \<longleftrightarrow> n_size (nodes s node) \<le> n_capacity (nodes s node) \<and>
     (if n_capacity (nodes s node) = 0 then n_data (nodes s node) = NULL
      else n_data (nodes s node) \<in> P \<and> unat (n_capacity (nodes s node)) \<le> block_room s (n_data (nodes s node)))"

definition contents :: "'a vfs_scheme \<Rightarrow> u64 \<Rightarrow> u8 list" where
  "contents s node = load_bytes (n_data (nodes s node)) (unat (n_size (nodes s node))) s"

text \<open>Making room keeps the contents of the file and of every other live block.\<close>

definition moved_ok :: "u64 set \<Rightarrow> 'a vfs_scheme \<Rightarrow> u64 \<Rightarrow> u64 \<Rightarrow> u64 \<Rightarrow> 'a vfs_scheme \<Rightarrow> bool" where
  "moved_ok P s node d c s' \<longleftrightarrow> unat d + unat c < 2 ^ 64 \<and>
     load_bytes d (unat (n_size (nodes s node))) s' = contents s node \<and>
     (\<forall>r\<in>P - {n_data (nodes s node)}. unat r + block_room s r \<le> unat d \<or> unat d + unat c \<le> unat r) \<and>
     (\<forall>r\<in>P. load_bytes r (block_room s r) s' = load_bytes r (block_room s r) s)"

lemma moved_ok_same:
  assumes inv: "live_inv P s" and d: "n_data (nodes s node) \<in> P" "unat c \<le> block_room s (n_data (nodes s node))"
  shows "moved_ok P s node (n_data (nodes s node)) c s"
proof -
  let ?d = "n_data (nodes s node)"
  have "unat ?d + unat c < 2 ^ 64" using live_block(2) [OF inv d(1)] d(2) by simp
  moreover have "unat r + block_room s r \<le> unat ?d \<or> unat ?d + unat c \<le> unat r" if "r \<in> P - {?d}" for r
    using live_blocks_disjoint [OF inv, of r ?d] that d by auto
  ultimately show ?thesis by (simp add: moved_ok_def contents_def)
qed

lemma krealloc_file:
  assumes inv: "live_inv P s" "arena_room s" and ok: "file_ok P s node" and c: "unat c \<le> 4064" "c \<noteq> 0"
  obtains (oom) s' where "krealloc (n_data (nodes s node)) c s = Some (NULL, s')" "payload s' = payload s" "fst (pmm_alloc_frame s) = 0"
  | (ready) d s' where "krealloc (n_data (nodes s node)) c s = Some (d, s')" "d \<noteq> NULL" "heap.more s' = heap.more s"
      "moved_ok P s node d c s'"
proof (cases "n_capacity (nodes s node) = 0")
  case True
  then have z: "n_data (nodes s node) = NULL" "n_size (nodes s node) = 0" using ok by (simp_all add: file_ok_def)
  have kr: "krealloc (n_data (nodes s node)) c s = kmalloc c s" by (simp add: krealloc_def z)
  show thesis
  proof (rule kmalloc_live [OF inv c(1)])
    fix p s' assume k: "kmalloc c s = Some (p, s')" "p \<noteq> NULL" "p \<notin> P" "live_inv (insert p P) s'" "payload s' = payload s"
      "unat c \<le> block_room s' p" "\<And>r. r \<in> P \<Longrightarrow> block_room s' r = block_room s r"
    have "unat p + unat c < 2 ^ 64" using live_block(2) [OF k(4), of p] k(6) by simp
    moreover have "unat r + block_room s r \<le> unat p \<or> unat p + unat c \<le> unat r" if r: "r \<in> P" for r
    proof -
      have "r \<noteq> p" using r k(3) by blast
      then show ?thesis using live_blocks_disjoint [OF k(4), of r p] r k(6) k(7) [OF r] by auto
    qed
    moreover have "load_bytes x n s' = load_bytes x n s" for x n
      using k(5) by (intro load_bytes_payload) (simp add: payload_def)
    ultimately have "moved_ok P s node p c s'" by (simp add: moved_ok_def contents_def z load_bytes_def)
    with k(1,2,5) kr show thesis by (intro ready [of p s']) (simp_all add: payload_def)
  qed (use kr oom in auto)
next
  case False
  let ?d = "n_data (nodes s node)"
  have d: "?d \<in> P" "unat (n_size (nodes s node)) \<le> block_room s ?d"
    using ok False by (auto simp: file_ok_def word_le_nat_alt)
  show thesis
  proof (rule krealloc_cases [OF inv c d(1)])
    assume "krealloc ?d c s = Some (?d, s)" "unat c \<le> block_room s ?d"
    then show thesis using moved_ok_same [OF inv(1) d(1)] kheap.live_ptr [OF inv(1) d(1)] by (intro ready [of ?d s]) simp_all
  next
    fix s' assume "krealloc ?d c s = Some (NULL, s')" "payload s' = payload s" "fst (pmm_alloc_frame s) = 0"
    then show thesis by (rule oom)
  next
    fix q s' assume k: "krealloc ?d c s = Some (q, s')" "q \<noteq> NULL" "heap.more s' = heap.more s" "unat q + unat c < 2 ^ 64"
      "load_bytes q (block_room s ?d) s' = load_bytes ?d (block_room s ?d) s"
      "\<And>r. r \<in> P \<Longrightarrow> unat r + block_room s r \<le> unat q \<or> unat q + unat c \<le> unat r"
      "\<And>r. r \<in> P \<Longrightarrow> load_bytes r (block_room s r) s' = load_bytes r (block_room s r) s"
    have "load_bytes q (unat (n_size (nodes s node))) s' = contents s node"
      using arg_cong [OF k(5), of "take (unat (n_size (nodes s node)))"] d(2) by (simp add: take_load_bytes contents_def)
    then have "moved_ok P s node q c s'" using k(4,6,7) by (simp add: moved_ok_def)
    with k(1-3) show thesis by (intro ready [of q s']) simp_all
  qed
qed

lemma new_capacity:
  assumes "unat need \<le> 2032" "cap < need"
  obtains c where "grow_cap (if cap \<noteq> 0 then cap else 64) need = Some c" "need \<le> c" "unat c \<le> 4064" "c \<noteq> 0" "cap \<le> c"
proof -
  define c0 where "c0 = (if cap \<noteq> 0 then cap else 64)"
  have c0: "0 < unat c0" by (simp add: c0_def unat_gt_0)
  have lt: "unat cap < unat need" using assms(2) by (simp add: word_less_nat_alt)
  obtain c where c: "grow_cap c0 need = Some c" "unat need \<le> unat c" "unat c \<le> 4064"
  proof (cases "unat c0 < unat need")
    case True
    then show thesis using grow_cap_small [OF c0 assms(1) True] assms(1) that by force
  next
    case False
    then have "grow_cap c0 need = Some c0" by (subst grow_cap.simps) (simp add: word_less_nat_alt)
    moreover have "c0 = 64" using False lt by (auto simp: c0_def split: if_splits)
    ultimately show thesis using that False by simp
  qed
  then show thesis using lt by (intro that [of c]) (auto simp: c0_def word_le_nat_alt)
qed

lemma reserve_cases:
  assumes inv: "live_inv P s" "arena_room s" and ok: "file_ok P s node" and need: "unat need \<le> 2032"
  obtains (oom) s' where "reserve node need s = Some (False, s')" "payload s' = payload s" "fst (pmm_alloc_frame s) = 0"
  | (ready) d c s' where "reserve node need s = Some (True, s')" "need \<le> c" "n_size (nodes s node) \<le> c"
      "heap.more s' = heap.more (upd_node node (\<lambda>v. v\<lparr>n_data := d, n_capacity := c\<rparr>) s)" "moved_ok P s node d c s'"
proof -
  let ?v = "nodes s node"
  have sc: "n_size ?v \<le> n_capacity ?v" using ok by (simp add: file_ok_def)
  show thesis
  proof (cases "n_capacity ?v < need")
    case False
    have "heap.more s = heap.more (upd_node node (\<lambda>v. v\<lparr>n_data := n_data ?v, n_capacity := n_capacity ?v\<rparr>) s)"
      by (cases s) (simp add: upd_node_def)
    moreover have "moved_ok P s node (n_data ?v) (n_capacity ?v) s"
    proof (cases "n_capacity ?v = 0")
      case True
      then show ?thesis using ok by (simp add: file_ok_def moved_ok_def contents_def)
    qed (use ok in \<open>intro moved_ok_same [OF inv(1)]; simp add: file_ok_def\<close>)
    moreover have "reserve node need s = Some (True, s)" using False unfolding reserve_def Let_def by simp
    ultimately show thesis
      using False sc by (intro ready [of s "n_capacity ?v" "n_data ?v"]) (simp_all add: not_less)
  next
    case True
    obtain c where c: "grow_cap (if n_capacity ?v \<noteq> 0 then n_capacity ?v else 64) need = Some c" "need \<le> c" "unat c \<le> 4064" "c \<noteq> 0"
        "n_capacity ?v \<le> c"
      using new_capacity [OF need True] .
    have rs: "reserve node need s = (case krealloc (n_data ?v) c s of None \<Rightarrow> None
        | Some (fresh, s) \<Rightarrow> if fresh = NULL then Some (False, s)
            else Some (True, upd_node node (\<lambda>v. v\<lparr>n_data := fresh, n_capacity := c\<rparr>) s))"
      unfolding reserve_def Let_def c(1) using True by simp
    show thesis
    proof (rule krealloc_file [OF inv ok c(3,4)])
      fix s' assume "krealloc (n_data ?v) c s = Some (NULL, s')" "payload s' = payload s" "fst (pmm_alloc_frame s) = 0"
      then show thesis using rs by (intro oom [of s']) simp_all
    next
      fix d s' assume k: "krealloc (n_data ?v) c s = Some (d, s')" "d \<noteq> NULL" "heap.more s' = heap.more s" "moved_ok P s node d c s'"
      let ?s = "upd_node node (\<lambda>v. v\<lparr>n_data := d, n_capacity := c\<rparr>) s'"
      have "moved_ok P s node d c ?s" using k(4) by (simp add: moved_ok_def upd_node_def load_bytes_def)
      moreover have "heap.more ?s = heap.more (upd_node node (\<lambda>v. v\<lparr>n_data := d, n_capacity := c\<rparr>) s)"
        using k(3) by (cases s; cases s') (simp add: upd_node_def)
      ultimately show thesis using rs k(1,2) c(2,5) sc by (intro ready [of ?s c d]) auto
    qed
  qed
qed

lemma load_bytes_split:
  "m \<le> n \<Longrightarrow> load_bytes a n s = load_bytes a m s @ drop m (load_bytes a n s)"
  by (metis append_take_drop_id take_load_bytes)

lemma load_bytes_prefix:
  "load_bytes a n s' = load_bytes a n s \<Longrightarrow> m \<le> n \<Longrightarrow> load_bytes a m s' = load_bytes a m s"
  by (metis take_load_bytes)

text \<open>Storing \<open>buf\<close> at \<open>pos\<close> into the reserved range.\<close>

lemma moved_store_contents:
  assumes m: "moved_ok P s node d c s1" and pos: "unat pos \<le> unat (n_size (nodes s node))"
    and N: "N = max (unat (n_size (nodes s node))) (unat pos + length buf)" "N < 2 ^ 64"
  shows "load_bytes d N (store_bytes (d + pos) buf s1) =
    take (unat pos) (contents s node) @ buf @ drop (unat pos + length buf) (contents s node)"
proof -
  let ?n = "unat (n_size (nodes s node))"
  let ?L = "load_bytes d N s1"
  have c: "load_bytes d ?n s1 = contents s node" using m by (simp add: moved_ok_def)
  have lc: "length (contents s node) = ?n" by (simp add: contents_def)
  have "load_bytes d N (store_bytes (d + of_nat (unat pos)) buf s1) = take (unat pos) ?L @ buf @ drop (unat pos + length buf) ?L"
    using N by (intro load_store_bytes) auto
  moreover have "take (unat pos) ?L = take (unat pos) (contents s node)"
    using pos N(1) by (simp add: take_load_bytes flip: c)
  moreover have "drop (unat pos + length buf) ?L = drop (unat pos + length buf) (contents s node)"
  proof (cases "unat pos + length buf \<le> ?n")
    case True
    then show ?thesis using N(1) c by (simp add: max_def)
  next
    case False
    then show ?thesis using N(1) lc by (simp add: max_def)
  qed
  ultimately show ?thesis by simp
qed

lemma moved_store_other:
  assumes inv: "live_inv P s" and m: "moved_ok P s node d c s1" and fits: "unat pos + length buf \<le> unat c"
    and r: "r \<in> P - {n_data (nodes s node)}" and k: "k \<le> block_room s r"
  shows "load_bytes r k (store_bytes (d + pos) buf s1) = load_bytes r k s"
proof -
  have far: "unat r + block_room s r \<le> unat d \<or> unat d + unat c \<le> unat r" "unat d + unat c < 2 ^ 64"
    and s1: "load_bytes r (block_room s r) s1 = load_bytes r (block_room s r) s"
    using m r by (auto simp: moved_ok_def)
  have out: "kbytes (store_bytes (d + pos) buf s1) x = kbytes s1 x" if x: "unat c \<le> unat (x - d)" for x
  proof -
    have "pos \<le> x - d" using fits x by (simp add: word_le_nat_alt)
    then have "unat (x - d - pos) = unat (x - d) - unat pos" by (simp add: unat_sub)
    moreover have "x - (d + pos) = x - d - pos" by simp
    ultimately have "unat (x - (d + pos)) = unat (x - d) - unat pos" by (simp only:)
    then have "\<not> unat (x - (d + pos)) < length buf" using fits x by linarith
    then show ?thesis by (simp add: store_bytes_def)
  qed
  have "load_bytes r (block_room s r) (store_bytes (d + pos) buf s1) = load_bytes r (block_room s r) s"
    using load_bytes_elsewhere [OF far(1) live_block(2) [OF inv] far(2) out] r s1 by simp
  then show ?thesis using k by (rule load_bytes_prefix)
qed

lemma f_pos_advance: "f_pos_update (\<lambda>p. p + c) v = v\<lparr>f_pos := f_pos v + c\<rparr>"
  by (cases v) simp

lemma file_write_cases:
  fixes s :: "'a vfs_scheme"
  assumes inv: "live_inv P s" "arena_room s" and ok: "file_ok P s node"
    and f: "f_node (files s f) = node" "f_pos (files s f) \<le> n_size (nodes s node)"
    and need: "unat (f_pos (files s f)) + length buf \<le> 2032"
  obtains (oom) s' where "file_write f buf s = Ret (- ENOMEM) s'" "payload s' = payload s" "fst (pmm_alloc_frame s) = 0"
  | (written) s' where "file_write f buf s = Ret (int (length buf)) s'"
      "contents s' node = take (unat (f_pos (files s f))) (contents s node) @ buf @
         drop (unat (f_pos (files s f)) + length buf) (contents s node)"
      "files s' = (files s)(f := (files s f)\<lparr>f_pos := f_pos (files s f) + of_nat (length buf)\<rparr>)"
      "task_fds s' = task_fds s" "cur_task s' = cur_task s" "\<And>m. n_type (nodes s' m) = n_type (nodes s m)"
      "\<And>m. m \<noteq> node \<Longrightarrow> file_ok P s m \<Longrightarrow> n_data (nodes s m) \<noteq> n_data (nodes s node) \<Longrightarrow> contents s' m = contents s m"
proof -
  let ?pos = "f_pos (files s f)" and ?v = "nodes s node"
  define cnt :: u64 where "cnt = of_nat (length buf)"
  have u: "unat (?pos + cnt) = unat ?pos + length buf" unfolding cnt_def using need by (intro unat_add_small) simp
  have n: "unat (?pos + cnt) \<le> 2032" using need u by simp
  show thesis
  proof (rule reserve_cases [OF inv ok n])
    fix s' assume "reserve node (?pos + cnt) s = Some (False, s')" "payload s' = payload s" "fst (pmm_alloc_frame s) = 0"
    then show thesis using f(1) by (intro oom [of s']) (simp_all add: file_write_def Let_def cnt_def)
  next
    fix d c s1 assume r: "reserve node (?pos + cnt) s = Some (True, s1)" "?pos + cnt \<le> c" "n_size ?v \<le> c"
      "heap.more s1 = heap.more (upd_node node (\<lambda>v. v\<lparr>n_data := d, n_capacity := c\<rparr>) s)" "moved_ok P s node d c s1"
    have s1: "nodes s1 = (nodes s)(node := ?v\<lparr>n_data := d, n_capacity := c\<rparr>)" "files s1 = files s"
        "task_fds s1 = task_fds s" "cur_task s1 = cur_task s"
      using vfs_more_heap [OF r(4)] by (simp_all add: upd_node_def)
    define s2 where "s2 = store_bytes (d + ?pos) buf s1"
    define s3 where "s3 = upd_file f (f_pos_update (\<lambda>p. p + cnt)) s2"
    define s4 where "s4 = (if ?pos + cnt > n_size ?v then upd_node node (n_size_update (\<lambda>_. ?pos + cnt)) s3 else s3)"
    have d1: "n_data (nodes s1 node) = d" by (simp add: s1)
    have p3: "f_pos (files s3 f) = ?pos + cnt" "n_size (nodes s3 node) = n_size ?v"
      by (simp_all add: s3_def s2_def upd_file_def store_bytes_def s1)
    have w: "file_write f buf s = Ret (int (length buf)) s4"
      by (simp only: file_write_def Let_def f(1) cnt_def [symmetric] r(1) option.case prod.case bool.case d1
          s2_def [symmetric] s3_def [symmetric] p3 s4_def [symmetric])
    have n4: "nodes s4 = (nodes s)(node := ?v\<lparr>n_data := d, n_capacity := c, n_size := max (n_size ?v) (?pos + cnt)\<rparr>)"
      by (auto simp: s4_def s3_def s2_def store_bytes_def upd_file_def upd_node_def s1 max_def not_less split: if_splits)
    have k4: "kbytes s4 = kbytes s2" by (simp add: s4_def s3_def upd_file_def upd_node_def)
    have f4: "files s4 = (files s)(f := (files s f)\<lparr>f_pos := ?pos + cnt\<rparr>)" "task_fds s4 = task_fds s" "cur_task s4 = cur_task s"
      by (simp_all add: s4_def s3_def s2_def upd_node_def upd_file_def store_bytes_def s1 f_pos_advance)
    have mx: "unat (max (n_size ?v) (?pos + cnt)) = max (unat (n_size ?v)) (unat ?pos + length buf)"
      using u by (simp add: max_def word_le_nat_alt)
    have "contents s4 node = load_bytes d (max (unat (n_size ?v)) (unat ?pos + length buf)) s2"
      using load_bytes_payload [OF k4] mx by (simp add: contents_def n4)
    also have "\<dots> = take (unat ?pos) (contents s node) @ buf @ drop (unat ?pos + length buf) (contents s node)"
      unfolding s2_def using f(2) unat_lt_64 [of "max (n_size ?v) (?pos + cnt)"] mx
      by (intro moved_store_contents [OF r(5) _ refl]) (simp_all add: word_le_nat_alt)
    finally have "contents s4 node = take (unat ?pos) (contents s node) @ buf @ drop (unat ?pos + length buf) (contents s node)" .
    moreover have "contents s4 m = contents s m"
      if m: "m \<noteq> node" "file_ok P s m" "n_data (nodes s m) \<noteq> n_data ?v" for m
    proof (cases "n_capacity (nodes s m) = 0")
      case True
      then have "n_size (nodes s m) = 0" using m(2) by (simp add: file_ok_def)
      then show ?thesis using m(1) by (simp add: contents_def n4 load_bytes_def)
    next
      case False
      then have x: "n_data (nodes s m) \<in> P - {n_data ?v}" "unat (n_size (nodes s m)) \<le> block_room s (n_data (nodes s m))"
        using m(2,3) by (auto simp: file_ok_def word_le_nat_alt)
      have "unat ?pos + length buf \<le> unat c" using r(2) u by (simp add: word_le_nat_alt)
      then show ?thesis
        using moved_store_other [OF inv(1) r(5) _ x] load_bytes_payload [OF k4] m(1) by (simp add: contents_def n4 s2_def)
    qed
    moreover have "n_type (nodes s4 m) = n_type (nodes s m)" for m by (simp add: n4)
    ultimately show thesis using w f4 by (intro written [of s4]) (simp_all add: cnt_def)
  qed
qed

section \<open>Directory listings\<close>

lemma readdir_skip_sibs: "sibs s n xs \<Longrightarrow> sibs s (readdir_skip k n s) (drop k xs)"
  by (induction k arbitrary: n xs) (auto split: list.split elim: sibs.elims)

lemma readdir_fill_sibs:
  "sibs s n xs \<Longrightarrow> readdir_fill room n s = map (\<lambda>x. dirent_of (nodes s x)) (take (room div 76) xs)"
proof (induction xs arbitrary: n room)
  case Nil
  then show ?case by (simp add: readdir_fill.simps)
next
  case (Cons x xs)
  show ?case
  proof (cases "76 \<le> room")
    case True
    then have "room div 76 = Suc ((room - 76) div 76)" by (simp add: le_div_geq)
    with True Cons show ?thesis by (subst readdir_fill.simps) simp
  qed (use Cons in \<open>simp add: readdir_fill.simps\<close>)
qed

section \<open>Properties\<close>

lemma load_bytes_shift: "load_bytes (a + of_nat k) m s = drop k (load_bytes a (k + m) s)"
  by (rule nth_equalityI) (simp_all add: nth_load_bytes add.assoc)

lemma vfs_pread_contents:
  assumes "fd_get fd s = f" "f \<noteq> NULL" "f_pipe (files s f) = NULL" "f_node (files s f) = node" "n_type (nodes s node) = VFS_FILE"
  shows "vfs_pread fd True cnt offset s =
    (int (min (unat cnt) (length (contents s node) - unat offset)), take (unat cnt) (drop (unat offset) (contents s node)))"
proof -
  let ?v = "nodes s node"
  have l: "length (contents s node) = unat (n_size ?v)" by (simp add: contents_def)
  show ?thesis
  proof (cases "offset < n_size ?v")
    case True
    then have lt: "unat offset < unat (n_size ?v)" by (simp add: word_less_nat_alt)
    have d: "unat (n_size ?v - offset) = unat (n_size ?v) - unat offset" using True by (simp add: unat_sub)
    define c where "c = (if cnt > n_size ?v - offset then n_size ?v - offset else cnt)"
    have c: "unat c = min (unat cnt) (unat (n_size ?v) - unat offset)" using d by (auto simp: c_def word_less_nat_alt)
    have "load_bytes (n_data ?v + of_nat (unat offset)) (unat c) s = drop (unat offset) (load_bytes (n_data ?v) (unat offset + unat c) s)"
      by (rule load_bytes_shift)
    also have "load_bytes (n_data ?v) (unat offset + unat c) s = take (unat offset + unat c) (contents s node)"
      unfolding contents_def using c lt by (subst take_load_bytes) auto
    also have "drop (unat offset) (take (unat offset + unat c) (contents s node)) = take (unat cnt) (drop (unat offset) (contents s node))"
      using c l by (simp add: drop_take min_def)
    finally have "load_bytes (n_data ?v + offset) (unat c) s = take (unat cnt) (drop (unat offset) (contents s node))" by simp
    moreover have "uint c = int (min (unat cnt) (length (contents s node) - unat offset))"
      using c l by (simp flip: c)
    ultimately show ?thesis
      unfolding vfs_pread_def Let_def assms(1) assms(4) c_def [symmetric] using assms(2,3,5) True by (simp add: not_le)
  next
    case False
    then have "unat (n_size ?v) \<le> unat offset" by (simp add: word_less_nat_alt not_less)
    then show ?thesis using assms False l by (simp add: vfs_pread_def Let_def not_less)
  qed
qed


definition write_example :: vfs where
  "write_example = vfs_example\<lparr>files := (\<lambda>_. \<lparr>f_node = file_example, f_pipe = NULL, f_pos = 0, f_flags = O_RDWR, f_refs = 1\<rparr>),
     task_fds := (\<lambda>_ _. NULL)(0 := (\<lambda>_. NULL)(3 := root_example))\<rparr>"

lemma write_example_state:
  "live_inv {root_example, file_example} write_example" "arena_room write_example"
  "nodes write_example = nodes vfs_example" "fd_get 3 write_example = root_example"
  "fst (pmm_alloc_frame write_example) \<noteq> 0"
proof -
  have f: "hmem write_example = hmem vfs_example" "g_free write_example = g_free vfs_example"
      "g_arena_next write_example = g_arena_next vfs_example" by (simp_all add: write_example_def)
  show "live_inv {root_example, file_example} write_example" "arena_room write_example"
    using vfs_example_heap live_inv_fields [OF f] by simp_all
  show "nodes write_example = nodes vfs_example" by (simp add: write_example_def)
  show "fd_get 3 write_example = root_example"
    by (simp add: write_example_def fd_get_def vfs_example_state fd_valid_def VFS_MAX_FDS_def)
  have "pmm_inv vfs_example" "free_addrs vfs_example \<noteq> {}"
    by (simp_all add: vfs_example_def small_region_init free_addrs_def)
  then have "pmm_inv write_example" "free_addrs write_example \<noteq> {}"
    by (simp_all add: write_example_def pmm_inv_def free_addrs_def free_set_def frame_is_free_def)
  then show "fst (pmm_alloc_frame write_example) \<noteq> 0" using pmm.alloc_zero_iff by blast
qed


text \<open>C22: a directory descriptor at position \<open>k\<close> reports the entries of the directory from the \<open>k\<close>-th on, in
  the order of the sibling list, as many as fit into the buffer, and moves past them; so repeated calls
  enumerate every entry exactly once.\<close>

theorem vfs_readdir_entries:
  assumes t: "tree_inv N kids s" and d: "d \<in> N" "n_type (nodes s d) = VFS_DIR"
    and f: "fd_get fd s = f" "f \<noteq> NULL" "f_pipe (files s f) = NULL" "f_node (files s f) = d"
  shows "let k = unat (f_pos (files s f));
             out = map (\<lambda>x. dirent_of (nodes s x)) (take (unat cnt div 76) (drop k (kids d)))
         in vfs_readdir fd True cnt s =
              ((76 * int (length out), out), upd_file f (f_pos_update (\<lambda>p. p + of_nat (length out))) s)"
proof -
  let ?k = "unat (f_pos (files s f))"
  have "sibs s (readdir_skip ?k (n_child (nodes s d)) s) (drop ?k (kids d))"
    by (rule readdir_skip_sibs [OF tree_invD(1) [OF t d(1)]])
  from readdir_fill_sibs [OF this] show ?thesis
    using f d(2) by (simp add: vfs_readdir_def Let_def)
qed

theorem vfs_readdir_entries_witness:
  "fst (vfs_readdir 3 True 200 (write_example\<lparr>files := (\<lambda>_. \<lparr>f_node = root_example, f_pipe = NULL, f_pos = 0, f_flags = 0, f_refs = 1\<rparr>)\<rparr>)) =
     (76, [\<lparr>d_name = ''a'', d_type = 2, d_size = 0, d_mode = 0\<rparr>])"
proof -
  let ?s = "write_example\<lparr>files := (\<lambda>_. \<lparr>f_node = root_example, f_pipe = NULL, f_pos = 0, f_flags = 0, f_refs = 1\<rparr>)\<rparr>"
  have n: "nodes ?s = nodes vfs_example" "g_root ?s = g_root vfs_example" by (simp_all add: write_example_def)
  have t: "tree_inv {root_example, file_example} ((\<lambda>_. [])(root_example := [file_example])) ?s"
    using vfs_example_tree tree_cong(4) [OF n] by simp
  have f: "fd_get 3 ?s = root_example" by (simp add: fd_get_def write_example_def vfs_example_state fd_valid_def VFS_MAX_FDS_def)
  have r: "root_example \<noteq> NULL" "file_example \<noteq> root_example" by (simp_all add: root_example_def file_example_def VMM_KHEAP_BASE_def)
  have ty: "n_type (nodes ?s root_example) = VFS_DIR" "dirent_of (nodes ?s file_example) = \<lparr>d_name = ''a'', d_type = 2, d_size = 0, d_mode = 0\<rparr>"
    using r by (simp_all only: n vfs_example_state) (simp_all add: dirent_of_def zero_node_def VFS_FILE_def)
  show ?thesis
    using vfs_readdir_entries [OF t _ ty(1) f r(1), of 200] ty(2) by simp
qed

end
