(* ===== verification/Elf_Load.thy ===== *)
theory Elf_Load
  imports Kernel_State
begin

text \<open>
  The ELF loader library, \<open>kernel/elf/elfload.c\<close>, with the header layouts of \<open>kernel/elf/elf.h\<close>. The caller's
  positioned read, memory and allocation callbacks are arguments: \<open>pread nb off s\<close> gives what the read returns and
  the bytes it delivers, \<open>store\<close> writes memory and is \<open>None\<close> on a page fault, \<open>alloc\<close> is the allocation callback. A
  header is the list of its bytes.
\<close>

section \<open>Headers\<close>

datatype el_status = EL_OK | EL_EIO | EL_ENOMEM | EL_NOTELF | EL_WRONGBITS | EL_WRONGENDIAN | EL_WRONGARCH
  | EL_WRONGOS | EL_NOTEXEC | EL_NODYN | EL_BADREL

definition EHDR_SIZE :: u64 where "EHDR_SIZE = 64"
definition PHDR_SIZE :: u64 where "PHDR_SIZE = 56"
definition ET_EXEC :: nat where "ET_EXEC = 2"
definition ET_DYN :: nat where "ET_DYN = 3"
definition EM_AMD64 :: nat where "EM_AMD64 = 62"
definition PT_LOAD :: nat where "PT_LOAD = 1"
definition PT_DYNAMIC :: nat where "PT_DYNAMIC = 2"

definition is_elf :: "u8 list \<Rightarrow> bool" where
  "is_elf eh \<longleftrightarrow> take 4 eh = [0x7F, 0x45, 0x4C, 0x46]"

definition e_type :: "u8 list \<Rightarrow> nat" where "e_type = field 16 2"
definition e_machine :: "u8 list \<Rightarrow> nat" where "e_machine = field 18 2"
definition e_version :: "u8 list \<Rightarrow> nat" where "e_version = field 20 4"
definition e_entry :: "u8 list \<Rightarrow> u64" where "e_entry eh = of_nat (field 24 8 eh)"
definition e_phoff :: "u8 list \<Rightarrow> u64" where "e_phoff eh = of_nat (field 32 8 eh)"
definition e_phentsize :: "u8 list \<Rightarrow> nat" where "e_phentsize = field 54 2"
definition e_phnum :: "u8 list \<Rightarrow> nat" where "e_phnum = field 56 2"

definition p_type :: "u8 list \<Rightarrow> nat" where "p_type = field 0 4"
definition p_offset :: "u8 list \<Rightarrow> u64" where "p_offset ph = of_nat (field 8 8 ph)"
definition p_vaddr :: "u8 list \<Rightarrow> u64" where "p_vaddr ph = of_nat (field 16 8 ph)"
definition p_paddr :: "u8 list \<Rightarrow> u64" where "p_paddr ph = of_nat (field 24 8 ph)"
definition p_filesz :: "u8 list \<Rightarrow> u64" where "p_filesz ph = of_nat (field 32 8 ph)"
definition p_memsz :: "u8 list \<Rightarrow> u64" where "p_memsz ph = of_nat (field 40 8 ph)"
definition p_align :: "u8 list \<Rightarrow> u64" where "p_align ph = of_nat (field 48 8 ph)"

record el_ctx =
  userdata :: u64
  base_load_paddr :: u64
  base_load_vaddr :: u64
  memsz :: u64
  align :: u64
  ehdr :: "u8 list"
  dynoff :: u64
  dynsize :: u64

definition zero_ctx :: el_ctx where
  "zero_ctx = \<lparr>userdata = 0, base_load_paddr = 0, base_load_vaddr = 0, memsz = 0, align = 0, ehdr = replicate 64 0, dynoff = 0, dynsize = 0\<rparr>"

section \<open>Reading headers\<close>

type_synonym 's el_read = "u64 \<Rightarrow> u64 \<Rightarrow> 's \<Rightarrow> klong \<times> u8 list"

text \<open>A read into a structure of the loader: the bytes if all were read.\<close>

definition el_pread :: "'s el_read \<Rightarrow> u64 \<Rightarrow> u64 \<Rightarrow> 's \<Rightarrow> u8 list option" where
  "el_pread pread nb off s = (let (n, bs) = pread nb off s in if n = sint nb then Some bs else None)"

definition el_phoff :: "u8 list \<Rightarrow> nat \<Rightarrow> u64" where
  "el_phoff eh i = e_phoff eh + of_nat (i * e_phentsize eh)"

text \<open>The status, the header read last and the index found; \<open>None\<close> is the index -1.\<close>

function el_findphdr :: "'s el_read \<Rightarrow> u8 list \<Rightarrow> nat \<Rightarrow> u8 list \<Rightarrow> nat \<Rightarrow> 's \<Rightarrow> el_status \<times> u8 list \<times> nat option" where
  "el_findphdr pread eh type ph i s =
     (if i < e_phnum eh
      then case el_pread pread PHDR_SIZE (el_phoff eh i) s of
             None \<Rightarrow> (EL_EIO, ph, Some i)
           | Some ph \<Rightarrow> if p_type ph = type then (EL_OK, ph, Some i) else el_findphdr pread eh type ph (Suc i) s
      else (EL_OK, ph, None))"
  by pat_completeness auto
termination
  by (relation "measure (\<lambda>(pread, eh, type, ph, i, s). e_phnum eh - i)") auto

declare el_findphdr.simps [simp del]

lemma el_findphdr_index: "el_findphdr pread eh type ph i s = (st, ph', Some j) \<Longrightarrow> i \<le> j \<and> j < e_phnum eh"
proof (induction pread eh type ph i s rule: el_findphdr.induct)
  case (1 pread eh type ph i s)
  then show ?case by (subst (asm) el_findphdr.simps) (fastforce split: if_splits option.splits)
qed

text \<open>The loop that computes the extent of the image.\<close>

function el_extent :: "'s el_read \<Rightarrow> nat \<Rightarrow> 's \<Rightarrow> el_ctx \<Rightarrow> el_status \<times> el_ctx" where
  "el_extent pread i s ctx =
     (case el_findphdr pread (ehdr ctx) PT_LOAD [] i s of
        (EL_OK, ph, None) \<Rightarrow> (EL_OK, ctx)
      | (EL_OK, ph, Some j) \<Rightarrow>
          (let phend = p_vaddr ph + p_memsz ph;
               ctx = (if phend > memsz ctx then ctx\<lparr>memsz := phend\<rparr> else ctx);
               ctx = (if p_align ph > align ctx then ctx\<lparr>align := p_align ph\<rparr> else ctx)
           in el_extent pread (Suc j) s ctx)
      | (st, ph, j) \<Rightarrow> (st, ctx))"
  by pat_completeness auto
termination
  by (relation "measure (\<lambda>(pread, i, s, ctx). e_phnum (ehdr ctx) - i)")
     (auto simp: Let_def dest!: el_findphdr_index [OF sym])

declare el_extent.simps [simp del]

definition el_init :: "'s el_read \<Rightarrow> 's \<Rightarrow> el_ctx \<Rightarrow> el_status \<times> el_ctx" where
  "el_init pread s ctx =
     (case el_pread pread EHDR_SIZE 0 s of
        None \<Rightarrow> (EL_EIO, ctx)
      | Some eh \<Rightarrow>
          (let ctx = ctx\<lparr>ehdr := eh\<rparr>
           in if \<not> is_elf eh then (EL_NOTELF, ctx)
              else if field 4 1 eh \<noteq> 2 then (EL_WRONGBITS, ctx)
              else if field 5 1 eh \<noteq> 1 then (EL_WRONGENDIAN, ctx)
              else if field 6 1 eh \<noteq> 1 then (EL_NOTELF, ctx)
              else if e_type eh \<noteq> ET_EXEC then (EL_NOTEXEC, ctx)
              else if e_machine eh \<noteq> EM_AMD64 then (EL_WRONGARCH, ctx)
              else if e_version eh \<noteq> 1 then (EL_NOTELF, ctx)
              else
                case el_extent pread 0 s (ctx\<lparr>base_load_paddr := 0, base_load_vaddr := 0, align := 1, memsz := 0\<rparr>) of
                  (EL_OK, ctx) \<Rightarrow>
                    if e_type eh = ET_DYN
                    then case el_findphdr pread eh PT_DYNAMIC [] 0 s of
                           (EL_OK, ph, Some _) \<Rightarrow> (EL_OK, ctx\<lparr>dynoff := p_offset ph, dynsize := p_filesz ph\<rparr>)
                         | (EL_OK, ph, None) \<Rightarrow> (EL_NODYN, ctx)
                         | (st, ph, _) \<Rightarrow> (st, ctx)
                    else (EL_OK, ctx\<lparr>dynoff := 0, dynsize := 0\<rparr>)
                | (st, ctx) \<Rightarrow> (st, ctx)))"

section \<open>Loading segments\<close>

type_synonym 's el_store = "u64 \<Rightarrow> u8 list \<Rightarrow> 's \<Rightarrow> 's option"
type_synonym 's el_alloc = "el_ctx \<Rightarrow> u64 \<Rightarrow> u64 \<Rightarrow> u64 \<Rightarrow> 's \<Rightarrow> u64 \<times> 's"

text \<open>One segment: allocate, read the file part, clear the rest. A short read has stored what it read.\<close>

definition load_segment :: "'s el_read \<Rightarrow> 's el_store \<Rightarrow> 's el_alloc \<Rightarrow> el_ctx \<Rightarrow> u8 list \<Rightarrow> 's \<Rightarrow> (el_status \<times> 's) option" where
  "load_segment pread store alloc ctx ph s =
     (let (dest, s) = alloc ctx (p_paddr ph + base_load_paddr ctx) (p_vaddr ph + base_load_vaddr ctx) (p_memsz ph) s
      in if dest = 0 then Some (EL_ENOMEM, s)
         else let (n, bs) = pread (p_filesz ph) (p_offset ph) s
              in case store dest bs s of
                   None \<Rightarrow> None
                 | Some s \<Rightarrow>
                     if n \<noteq> sint (p_filesz ph) then Some (EL_EIO, s)
                     else (case store (dest + p_filesz ph) (replicate (unat (p_memsz ph - p_filesz ph)) 0) s of
                             None \<Rightarrow> None
                           | Some s \<Rightarrow> Some (EL_OK, s)))"

function el_load_from :: "'s el_read \<Rightarrow> 's el_store \<Rightarrow> 's el_alloc \<Rightarrow> el_ctx \<Rightarrow> nat \<Rightarrow> 's \<Rightarrow> (el_status \<times> 's) option" where
  "el_load_from pread store alloc ctx i s =
     (case el_findphdr pread (ehdr ctx) PT_LOAD [] i s of
        (EL_OK, ph, None) \<Rightarrow> Some (EL_OK, s)
      | (EL_OK, ph, Some j) \<Rightarrow>
          (case load_segment pread store alloc ctx ph s of
             Some (EL_OK, s) \<Rightarrow> el_load_from pread store alloc ctx (Suc j) s
           | r \<Rightarrow> r)
      | (st, ph, j) \<Rightarrow> Some (st, s))"
  by pat_completeness auto
termination
  by (relation "measure (\<lambda>(pread, store, alloc, ctx, i, s). e_phnum (ehdr ctx) - i)")
     (auto dest!: el_findphdr_index [OF sym])

declare el_load_from.simps [simp del]

definition el_load :: "'s el_read \<Rightarrow> 's el_store \<Rightarrow> 's el_alloc \<Rightarrow> el_ctx \<Rightarrow> 's \<Rightarrow> (el_status \<times> 's) option" where
  "el_load pread store alloc ctx s = el_load_from pread store alloc ctx 0 s"

section \<open>What a loaded image looks like\<close>

text \<open>Positioned reads of a file with contents \<open>img\<close>, and its program headers.\<close>

definition file_pread :: "u8 list \<Rightarrow> u64 \<Rightarrow> u64 \<Rightarrow> klong \<times> u8 list" where
  "file_pread img nb off =
     (if length img \<le> unat off then (0, [])
      else let n = min (unat nb) (length img - unat off) in (int n, take n (drop (unat off) img)))"

definition phdr :: "u8 list \<Rightarrow> u8 list \<Rightarrow> nat \<Rightarrow> u8 list" where
  "phdr img eh i = take 56 (drop (unat (el_phoff eh i)) img)"

definition reads_file :: "'s el_read \<Rightarrow> u8 list \<Rightarrow> bool" where
  "reads_file pread img \<longleftrightarrow> (\<forall>nb off s. pread nb off s = file_pread img nb off)"

text \<open>Memory as the loader's host provides it: \<open>rd\<close> is the byte at an address, if it is mapped.\<close>

definition host_store_ok :: "('s \<Rightarrow> u64 \<Rightarrow> u8 option) \<Rightarrow> 's el_store \<Rightarrow> bool" where
  "host_store_ok rd store \<longleftrightarrow>
     (\<forall>a bs s s'. store a bs s = Some s' \<longrightarrow>
        (\<forall>x. rd s' x = (if unat (x - a) < length bs then Some (bs ! unat (x - a)) else rd s x)))"

definition host_alloc_ok :: "('s \<Rightarrow> u64 \<Rightarrow> u8 option) \<Rightarrow> 's el_alloc \<Rightarrow> bool" where
  "host_alloc_ok rd alloc \<longleftrightarrow>
     (\<forall>ctx p v n s. fst (alloc ctx p v n s) \<in> {0, v} \<and> (\<forall>x b. rd s x = Some b \<longrightarrow> rd (snd (alloc ctx p v n s)) x = Some b))"

definition segment_loaded :: "('s \<Rightarrow> u64 \<Rightarrow> u8 option) \<Rightarrow> u8 list \<Rightarrow> u8 list \<Rightarrow> 's \<Rightarrow> bool" where
  "segment_loaded rd img ph s \<longleftrightarrow>
     (\<forall>k<unat (p_memsz ph). rd s (p_vaddr ph + of_nat k) =
        Some (if k < unat (p_filesz ph) then img ! (unat (p_offset ph) + k) else 0))"

definition segments_disjoint :: "u8 list \<Rightarrow> u8 list \<Rightarrow> bool" where
  "segments_disjoint img eh \<longleftrightarrow>
     (\<forall>i<e_phnum eh. \<forall>j<e_phnum eh. i \<noteq> j \<and> p_type (phdr img eh i) = PT_LOAD \<and> p_type (phdr img eh j) = PT_LOAD \<longrightarrow>
        (\<forall>k<unat (p_memsz (phdr img eh i)). \<not> unat (p_vaddr (phdr img eh i) + of_nat k - p_vaddr (phdr img eh j)) < unat (p_memsz (phdr img eh j))))"

lemma sint_unat: "unat w < 2 ^ 63 \<Longrightarrow> sint w = int (unat w)" for w :: u64
proof -
  assume "unat w < 2 ^ 63"
  then have "int (unat w) < int (2 ^ 63)" by (simp only: of_nat_less_iff)
  then have "uint w < 2 ^ 63" by simp
  then show ?thesis by (simp add: sint_uint signed_take_bit_eq_take_bit_shift take_bit_int_eq_self)
qed

lemma el_pread_file:
  assumes "reads_file pread img" "el_pread pread nb off s = Some bs" "sint nb = int (unat nb)"
  shows "bs = take (unat nb) (drop (unat off) img)" "length bs = unat nb"
proof -
  have p: "pread nb off s = file_pread img nb off" using assms(1) by (simp add: reads_file_def)
  have "bs = take (unat nb) (drop (unat off) img) \<and> length bs = unat nb"
  proof (cases "length img \<le> unat off")
    case True
    then have b: "sint nb = 0" "bs = []" using assms(2) by (auto simp: el_pread_def p file_pread_def split: if_splits)
    then have "unat nb = 0" using assms(3) by (simp only: of_nat_0_eq_iff [symmetric])
    with b True show ?thesis by simp
  next
    case False
    let ?n = "min (unat nb) (length img - unat off)"
    have e: "file_pread img nb off = (int ?n, take ?n (drop (unat off) img))" using False by (simp add: file_pread_def Let_def)
    have "int ?n = sint nb" using assms(2) by (simp add: el_pread_def p e split: if_splits)
    then have "?n = unat nb" using assms(3) by (simp only: of_nat_eq_iff)
    then show ?thesis using assms(2) e by (auto simp: el_pread_def p split: if_splits)
  qed
  then show "bs = take (unat nb) (drop (unat off) img)" "length bs = unat nb" by blast+
qed

lemma el_findphdr_file:
  assumes "reads_file pread img" "el_findphdr pread eh type ph i s = (EL_OK, ph', r)"
  shows "case r of
       Some j \<Rightarrow> i \<le> j \<and> j < e_phnum eh \<and> ph' = phdr img eh j \<and> p_type ph' = type \<and> (\<forall>k. i \<le> k \<and> k < j \<longrightarrow> p_type (phdr img eh k) \<noteq> type)
     | None \<Rightarrow> \<forall>k. i \<le> k \<and> k < e_phnum eh \<longrightarrow> p_type (phdr img eh k) \<noteq> type"
  using assms
proof (induction pread eh type ph i s rule: el_findphdr.induct)
  case (1 pread eh type ph i s)
  show ?case
  proof (cases "i < e_phnum eh")
    case False
    then show ?thesis using "1.prems"(2) by (subst (asm) el_findphdr.simps) auto
  next
    case True
    then obtain q where q: "el_pread pread PHDR_SIZE (el_phoff eh i) s = Some q"
      using "1.prems"(2) by (subst (asm) el_findphdr.simps) (auto split: option.splits)
    have qe: "q = phdr img eh i"
      using el_pread_file(1) [OF "1.prems"(1) q] by (simp add: phdr_def PHDR_SIZE_def)
    show ?thesis
    proof (cases "p_type q = type")
      case True
      then show ?thesis using "1.prems"(2) \<open>i < e_phnum eh\<close> q qe by (subst (asm) el_findphdr.simps) auto
    next
      case False
      then have "el_findphdr pread eh type q (Suc i) s = (EL_OK, ph', r)"
        using "1.prems"(2) True q by (subst (asm) el_findphdr.simps) simp
      note IH = "1.IH" [OF True q False "1.prems"(1) this]
      have step: "i \<le> k \<longleftrightarrow> k = i \<or> Suc i \<le> k" for k by auto
      show ?thesis using IH False qe True unfolding step by (cases r) (auto simp: Suc_le_eq)
    qed
  qed
qed

text \<open>One segment leaves what was loaded before in place.\<close>

lemma load_segment_loaded:
  assumes host: "reads_file pread img" "host_store_ok rd store" "host_alloc_ok rd alloc"
    and r: "load_segment pread store alloc ctx ph s = Some (EL_OK, s')"
    and ph: "base_load_vaddr ctx = 0" "unat (p_filesz ph) \<le> unat (p_memsz ph)" "unat (p_filesz ph) < 2 ^ 63"
  shows "segment_loaded rd img ph s'"
    and "\<And>x b. rd s x = Some b \<Longrightarrow> \<not> unat (x - p_vaddr ph) < unat (p_memsz ph) \<Longrightarrow> rd s' x = Some b"
proof -
  let ?v = "p_vaddr ph" and ?f = "p_filesz ph" and ?m = "p_memsz ph"
  obtain dest s1 where a: "alloc ctx (p_paddr ph + base_load_paddr ctx) ?v ?m s = (dest, s1)"
    by (cases "alloc ctx (p_paddr ph + base_load_paddr ctx) ?v ?m s")
  obtain n bs where p: "pread ?f (p_offset ph) s1 = (n, bs)" by (cases "pread ?f (p_offset ph) s1")
  from r a p ph(1) obtain s2 where d: "dest \<noteq> 0" "store dest bs s1 = Some s2" "n = sint ?f"
    "store (dest + ?f) (replicate (unat (?m - ?f)) 0) s2 = Some s'"
    by (auto simp: load_segment_def Let_def split: if_splits option.splits)
  have dest: "dest = ?v" "\<And>x b. rd s x = Some b \<Longrightarrow> rd s1 x = Some b"
    using host(3) a d(1) unfolding host_alloc_ok_def by (metis fst_conv snd_conv insert_iff empty_iff)+
  have sf: "sint ?f = int (unat ?f)" by (rule sint_unat [OF ph(3)])
  have "el_pread pread ?f (p_offset ph) s1 = Some bs" using p d(3) by (simp add: el_pread_def)
  note bs = el_pread_file [OF host(1) this sf]
  have mf: "unat (?m - ?f) = unat ?m - unat ?f" using ph(2) by (simp add: unat_sub word_le_nat_alt)
  have s2: "rd s2 x = (if unat (x - ?v) < unat ?f then Some (bs ! unat (x - ?v)) else rd s1 x)" for x
    using host(2) d(2) bs(2) dest(1) unfolding host_store_ok_def by metis
  have s': "rd s' x = (if unat (x - (?v + ?f)) < unat ?m - unat ?f then Some 0 else rd s2 x)" for x
  proof -
    have "rd s' x = (if unat (x - (dest + ?f)) < length (replicate (unat (?m - ?f)) (0 :: u8))
        then Some (replicate (unat (?m - ?f)) 0 ! unat (x - (dest + ?f))) else rd s2 x)"
      using host(2) d(4) unfolding host_store_ok_def by blast
    then show ?thesis by (simp add: mf dest(1))
  qed
  have tail: "unat (x - (?v + ?f)) < unat ?m - unat ?f \<longleftrightarrow> unat ?f \<le> unat (x - ?v) \<and> unat (x - ?v) < unat ?m" for x
  proof -
    have e: "x - (?v + ?f) = (x - ?v) - ?f" by simp
    show ?thesis
    proof (cases "unat ?f \<le> unat (x - ?v)")
      case True
      then have "unat ((x - ?v) - ?f) = unat (x - ?v) - unat ?f" by (simp add: unat_sub word_le_nat_alt)
      with True show ?thesis unfolding e using ph(2) by auto
    next
      case False
      then have "unat ((x - ?v) - ?f) = 2 ^ 64 + unat (x - ?v) - unat ?f"
        by (simp add: unat_sub_if' word_le_nat_alt)
      moreover have "unat ?m < 2 ^ 64" using unsigned_less [of ?m] by simp
      ultimately show ?thesis unfolding e using False by auto
    qed
  qed
  show "segment_loaded rd img ph s'" unfolding segment_loaded_def
  proof (intro allI impI)
    fix k assume k: "k < unat ?m"
    have "k < 2 ^ 64" using k unsigned_less [of ?m, where ?'a = nat] by simp
    then have "unat (?v + of_nat k - ?v) = k" by (simp add: unat_of_nat_small)
    then show "rd s' (?v + of_nat k) = Some (if k < unat ?f then img ! (unat (p_offset ph) + k) else 0)"
      unfolding s' tail s2 using k bs by auto
  qed
  show "rd s' x = Some b" if "rd s x = Some b" "\<not> unat (x - ?v) < unat ?m" for x b
    unfolding s' tail s2 using that dest(2) ph(2) by auto
qed

lemma el_load_from_loaded:
  assumes host: "reads_file pread img" "host_store_ok rd store" "host_alloc_ok rd alloc"
    and b: "base_load_vaddr ctx = 0"
    and sizes: "\<forall>i<e_phnum (ehdr ctx). p_type (phdr img (ehdr ctx) i) = PT_LOAD \<longrightarrow>
      unat (p_filesz (phdr img (ehdr ctx) i)) \<le> unat (p_memsz (phdr img (ehdr ctx) i)) \<and> unat (p_filesz (phdr img (ehdr ctx) i)) < 2 ^ 63"
    and disj: "segments_disjoint img (ehdr ctx)"
    and r: "el_load_from pread store alloc ctx i s = Some (EL_OK, s')"
    and before: "\<forall>k<i. k < e_phnum (ehdr ctx) \<longrightarrow> p_type (phdr img (ehdr ctx) k) = PT_LOAD \<longrightarrow> segment_loaded rd img (phdr img (ehdr ctx) k) s"
  shows "\<forall>k<e_phnum (ehdr ctx). p_type (phdr img (ehdr ctx) k) = PT_LOAD \<longrightarrow> segment_loaded rd img (phdr img (ehdr ctx) k) s'"
  using assms
proof (induction pread store alloc ctx i s rule: el_load_from.induct)
  case (1 pread store alloc ctx i s)
  note host = "1.prems"(1-3) and b = "1.prems"(4) and sizes = "1.prems"(5) and disj = "1.prems"(6) and r = "1.prems"(7) and before = "1.prems"(8)
  let ?eh = "ehdr ctx"
  obtain st ph j where f: "el_findphdr pread ?eh PT_LOAD [] i s = (st, ph, j)" by (cases "el_findphdr pread ?eh PT_LOAD [] i s")
  have "el_load_from pread store alloc ctx i s = Some (st, s)" if "st \<noteq> EL_OK"
    using that by (subst el_load_from.simps) (cases st; simp add: f)
  then have st: "st = EL_OK" using r by force
  note found = el_findphdr_file [OF host(1) f [unfolded st]]
  show ?case
  proof (cases j)
    case None
    then have "s' = s" using r f st by (subst (asm) el_load_from.simps) simp
    have "k < i" if "k < e_phnum ?eh" "p_type (phdr img ?eh k) = PT_LOAD" for k
    proof (rule ccontr)
      assume "\<not> k < i"
      then show False using found that unfolding None option.case by auto
    qed
    then show ?thesis using before unfolding \<open>s' = s\<close> by blast
  next
    case (Some j')
    then have j: "i \<le> j'" "j' < e_phnum ?eh" "ph = phdr img ?eh j'" "p_type ph = PT_LOAD"
      "\<And>k. i \<le> k \<Longrightarrow> k < j' \<Longrightarrow> p_type (phdr img ?eh k) \<noteq> PT_LOAD" using found by auto
    obtain s1 where s1: "load_segment pread store alloc ctx ph s = Some (EL_OK, s1)" "el_load_from pread store alloc ctx (Suc j') s1 = Some (EL_OK, s')"
      using r f st Some by (subst (asm) el_load_from.simps) (auto split: option.splits prod.splits el_status.splits)
    have sz: "unat (p_filesz ph) \<le> unat (p_memsz ph)" "unat (p_filesz ph) < 2 ^ 63" using sizes j by auto
    note L = load_segment_loaded [OF host s1(1) b sz]
    have "segment_loaded rd img (phdr img ?eh k) s1"
      if k: "k < Suc j'" "k < e_phnum ?eh" "p_type (phdr img ?eh k) = PT_LOAD" for k
    proof (cases "k = j'")
      case True
      then show ?thesis using L(1) j(3) by simp
    next
      case False
      then have "k < i" using k(1,3) j(5) by (metis less_SucE not_le)
      then have old: "segment_loaded rd img (phdr img ?eh k) s" using before k(2,3) by blast
      have "\<not> unat (p_vaddr (phdr img ?eh k) + of_nat n - p_vaddr ph) < unat (p_memsz ph)" if "n < unat (p_memsz (phdr img ?eh k))" for n
        using disj k(2,3) j(2,3,4) False that unfolding segments_disjoint_def by metis
      then show ?thesis using old L(2) unfolding segment_loaded_def by blast
    qed
    then show ?thesis
      using "1.IH" [of st "(ph, j)" ph j] f st Some s1 host b sizes disj by (auto)
  qed
qed

lemma el_extent_keeps:
  "el_extent pread i s ctx = (st, ctx') \<Longrightarrow> ehdr ctx' = ehdr ctx \<and> base_load_vaddr ctx' = base_load_vaddr ctx"
proof (induction pread i s ctx rule: el_extent.induct)
  case (1 pread i s ctx)
  obtain st1 ph j where f: "el_findphdr pread (ehdr ctx) PT_LOAD [] i s = (st1, ph, j)" by (cases "el_findphdr pread (ehdr ctx) PT_LOAD [] i s")
  show ?case
  proof (cases "st1 = EL_OK \<and> j \<noteq> None")
    case True
    then obtain j' where j: "st1 = EL_OK" "j = Some j'" by auto
    let ?c1 = "if p_vaddr ph + p_memsz ph > memsz ctx then ctx\<lparr>memsz := p_vaddr ph + p_memsz ph\<rparr> else ctx"
    let ?c2 = "if p_align ph > align ?c1 then ?c1\<lparr>align := p_align ph\<rparr> else ?c1"
    have "el_extent pread i s ctx = el_extent pread (Suc j') s ?c2"
      by (subst el_extent.simps) (simp add: f j Let_def)
    then have "ehdr ctx' = ehdr ?c2 \<and> base_load_vaddr ctx' = base_load_vaddr ?c2"
      using "1.IH" [OF f [symmetric] j(1) refl j(2) refl refl refl] "1.prems" by simp
    then show ?thesis by simp
  next
    case False
    then have "el_extent pread i s ctx = (st1, ctx)"
      by (subst el_extent.simps) (cases st1; cases j; simp add: f)
    with "1.prems" show ?thesis by simp
  qed
qed

text \<open>An image the loader accepts is a static 64-bit x86 executable; the context then holds its header.\<close>

lemma el_init_accepts:
  assumes "reads_file pread img" and i: "el_init pread s zero_ctx = (EL_OK, ctx)"
  shows "ehdr ctx = take 64 img \<and> base_load_vaddr ctx = 0 \<and> is_elf img \<and> take 3 (drop 4 img) = [2, 1, 1] \<and>
    e_type img = ET_EXEC \<and> e_machine img = EM_AMD64 \<and> e_version img = 1"
proof -
  obtain eh where eh: "el_pread pread EHDR_SIZE 0 s = Some eh" using i by (auto simp: el_init_def split: option.splits)
  have e: "eh = take 64 img" "length eh = 64" using el_pread_file [OF assms(1) eh] by (simp_all add: EHDR_SIZE_def)
  then have len: "64 \<le> length img" by simp
  let ?ctx = "zero_ctx\<lparr>ehdr := eh, base_load_paddr := 0, base_load_vaddr := 0, align := 1, memsz := 0\<rparr>"
  obtain st c where x: "el_extent pread 0 s ?ctx = (st, c)" by (cases "el_extent pread 0 s ?ctx")
  have h: "is_elf eh" "field 4 1 eh = 2" "field 5 1 eh = 1" "field 6 1 eh = 1" "e_type eh = ET_EXEC" "e_machine eh = EM_AMD64" "e_version eh = 1"
    using i unfolding el_init_def eh option.case Let_def by (auto split: if_splits)
  have c: "st = EL_OK" "ctx = c\<lparr>dynoff := 0, dynsize := 0\<rparr>"
    using i h x unfolding el_init_def eh option.case Let_def by (cases st; simp add: ET_EXEC_def ET_DYN_def)+
  have byte: "img ! k = of_nat (field k 1 eh)" if "k < 64" for k
  proof -
    have "drop k eh = eh ! k # drop (Suc k) eh" using that e(2) by (simp add: Cons_nth_drop_Suc)
    then show ?thesis using that by (simp add: field_def e(1))
  qed
  have "take 3 (drop 4 img) = [img ! 4, img ! 5, img ! 6]" using len
    by (simp add: numeral_3_eq_3 take_Suc Cons_nth_drop_Suc [symmetric])
  moreover have "field off k img = field off k eh" if "off + k \<le> 64" for off k
    using that by (simp add: field_def e(1) drop_take min_def)
  ultimately show ?thesis
    using h e el_extent_keeps [OF x] c(2) byte [of 4] byte [of 5] byte [of 6] by (simp add: is_elf_def e_type_def e_machine_def e_version_def min_def)
qed
section \<open>Properties\<close>


text \<open>An executable with one segment of four bytes in the file and six in memory, on a flat memory.\<close>

definition elf_example :: "u8 list" where
  "elf_example =
     [127, 69, 76, 70, 2, 1, 1, 0, 0, 0, 0, 0, 0, 0, 0, 0, 2, 0, 62, 0, 1, 0, 0, 0, 0, 0, 0, 16, 0, 0, 0, 0,
      64, 0, 0, 0, 0, 0, 0, 0, 0, 0, 0, 0, 0, 0, 0, 0, 0, 0, 0, 0, 0, 0, 56, 0, 1, 0, 0, 0, 0, 0, 0, 0,
      1, 0, 0, 0, 5, 0, 0, 0, 120, 0, 0, 0, 0, 0, 0, 0, 0, 0, 0, 16, 0, 0, 0, 0, 0, 0, 0, 16, 0, 0, 0, 0,
      4, 0, 0, 0, 0, 0, 0, 0, 6, 0, 0, 0, 0, 0, 0, 0, 0, 16, 0, 0, 0, 0, 0, 0, 184, 1, 2, 3]"

definition flat_store :: "(u64 \<Rightarrow> u8 option) el_store" where
  "flat_store a bs m = Some (\<lambda>x. if unat (x - a) < length bs then Some (bs ! unat (x - a)) else m x)"

definition flat_alloc :: "(u64 \<Rightarrow> u8 option) el_alloc" where
  "flat_alloc ctx p v n m = (v, m)"

definition example_read :: "(u64 \<Rightarrow> u8 option) el_read" where
  "example_read nb off m = file_pread elf_example nb off"

lemma example_host: "reads_file example_read elf_example" "host_store_ok (\<lambda>m. m) flat_store" "host_alloc_ok (\<lambda>m. m) flat_alloc"
  by (auto simp: reads_file_def example_read_def host_store_ok_def flat_store_def host_alloc_ok_def flat_alloc_def)

lemmas header_fields = field_def e_type_def e_machine_def e_version_def e_entry_def e_phoff_def e_phentsize_def e_phnum_def
  p_type_def p_offset_def p_vaddr_def p_paddr_def p_filesz_def p_memsz_def p_align_def

lemma elf_example_header:
  "e_phnum (take 64 elf_example) = 1" "e_type elf_example = ET_EXEC" "e_phoff (take 64 elf_example) = 64"
  by (simp_all add: header_fields elf_example_def ET_EXEC_def)

definition example_phdr :: "u8 list" where
  "example_phdr = drop 64 (take 120 elf_example)"

lemma example_phdr: "phdr elf_example (take 64 elf_example) 0 = example_phdr"
  by (simp add: phdr_def el_phoff_def elf_example_header example_phdr_def) (simp add: elf_example_def)

lemma example_phdr_fields:
  "p_type example_phdr = PT_LOAD" "p_offset example_phdr = 120" "p_vaddr example_phdr = 0x10000000" "p_filesz example_phdr = 4"
  "p_memsz example_phdr = 6"
  by (simp_all add: example_phdr_def elf_example_def header_fields PT_LOAD_def)

lemma example_reads:
  "el_pread example_read EHDR_SIZE 0 m = Some (take 64 elf_example)" "el_pread example_read PHDR_SIZE 64 m = Some example_phdr"
  "example_read 4 120 m = (4, [184, 1, 2, 3])"
  by (simp_all add: el_pread_def example_read_def file_pread_def EHDR_SIZE_def PHDR_SIZE_def example_phdr_def elf_example_def)

lemma example_find:
  "el_findphdr example_read (take 64 elf_example) PT_LOAD [] 0 m = (EL_OK, example_phdr, Some 0)"
  "el_findphdr example_read (take 64 elf_example) PT_LOAD [] (Suc 0) m = (EL_OK, [], None)"
  by (subst el_findphdr.simps, simp add: el_phoff_def elf_example_header example_reads example_phdr_fields)+

lemma example_init:
  obtains ctx where "el_init example_read m zero_ctx = (EL_OK, ctx)" "ehdr ctx = take 64 elf_example" "base_load_vaddr ctx = 0"
proof -
  let ?c = "zero_ctx\<lparr>ehdr := take 64 elf_example, base_load_paddr := 0, base_load_vaddr := 0, align := 1, memsz := 0\<rparr>"
  let ?d = "?c\<lparr>memsz := 0x10000006, align := 4096\<rparr>"
  have al: "p_align example_phdr = 4096" by (simp add: example_phdr_def elf_example_def header_fields)
  have z: "el_extent example_read (Suc 0) m ?d = (EL_OK, ?d)"
    by (subst el_extent.simps) (simp add: example_find(2))
  have "el_extent example_read 0 m ?c = el_extent example_read (Suc 0) m ?d"
    by (subst el_extent.simps) (simp add: example_find(1) example_phdr_fields al Let_def)
  then have x: "el_extent example_read 0 m ?c = (EL_OK, ?d)" using z by simp
  have h: "is_elf (take 64 elf_example)" "field 4 1 (take 64 elf_example) = 2" "field 5 1 (take 64 elf_example) = 1"
    "field 6 1 (take 64 elf_example) = 1" "e_type (take 64 elf_example) = 2" "e_machine (take 64 elf_example) = 62" "e_version (take 64 elf_example) = 1"
    by (simp_all add: is_elf_def header_fields elf_example_def)
  have "el_init example_read m zero_ctx = (EL_OK, ?d\<lparr>dynoff := 0, dynsize := 0\<rparr>)"
    unfolding el_init_def example_reads option.case Let_def using h x by (simp add: ET_EXEC_def ET_DYN_def EM_AMD64_def zero_ctx_def)
  then show thesis by (rule that) simp_all
qed

lemma example_load:
  assumes "ehdr ctx = take 64 elf_example" "base_load_vaddr ctx = 0"
  obtains m' where "el_load example_read flat_store flat_alloc ctx m = Some (EL_OK, m')"
proof -
  obtain m' where l: "load_segment example_read flat_store flat_alloc ctx example_phdr m = Some (EL_OK, m')"
    using assms(2) by (simp add: load_segment_def flat_alloc_def example_phdr_fields example_reads flat_store_def)
  have "el_load_from example_read flat_store flat_alloc ctx 0 m = el_load_from example_read flat_store flat_alloc ctx (Suc 0) m'"
    by (subst el_load_from.simps) (simp add: assms(1) example_find(1) l)
  also have "\<dots> = Some (EL_OK, m')" by (subst el_load_from.simps) (simp add: assms(1) example_find(2))
  finally show thesis using that by (simp add: el_load_def)
qed

end
