(* ===== verification/Exec.thy ===== *)
theory Exec
  imports Sched Elf_Load
begin

text \<open>
  Running programs, \<open>kernel/elf/tus_elf.c\<close>: the callbacks of the ELF loader on the kernel's memory, starting a
  program as a new task and replacing the image of the current one. Bytes of user memory are reached through the
  page tables of the active space; addresses beyond the user half are those of the kernel heap. A page fault in the
  kernel halts the system: \<open>None\<close>.
\<close>

section \<open>User memory\<close>

definition USER_HALF_MAX :: u64 where "USER_HALF_MAX = 0x00007fffffffffff"

text \<open>Addresses between the halves raise an exception on every access.\<close>

definition canonical :: "u64 \<Rightarrow> bool" where
  "canonical a \<longleftrightarrow> a \<le> USER_HALF_MAX \<or> KERNEL_HALF_BASE \<le> a"

definition vload :: "u64 \<Rightarrow> ('h, 'a) kernel_scheme \<Rightarrow> u8 option" where
  "vload a s =
     (if \<not> canonical a then None
      else if a > USER_HALF_MAX then Some (kbytes s a)
      else let phys = fst (vmm_translate_in (r_cr3 s) a s)
           in if phys = 0 then None else Some (page_bytes s (pmm_phys_to_virt s phys)))"

definition vstore :: "u64 \<Rightarrow> u8 \<Rightarrow> ('h, 'a) kernel_scheme \<Rightarrow> ('h, 'a) kernel_scheme option" where
  "vstore a b s =
     (if \<not> canonical a then None
      else if a > USER_HALF_MAX then Some (s\<lparr>kbytes := (kbytes s)(a := b)\<rparr>)
      else let phys = fst (vmm_translate_in (r_cr3 s) a s)
           in if phys = 0 then None else Some (s\<lparr>page_bytes := (page_bytes s)(pmm_phys_to_virt s phys := b)\<rparr>))"

fun vstore_list :: "u64 \<Rightarrow> u8 list \<Rightarrow> ('h, 'a) kernel_scheme \<Rightarrow> ('h, 'a) kernel_scheme option" where
  "vstore_list a [] s = Some s"
| "vstore_list a (b # bs) s = (case vstore a b s of None \<Rightarrow> None | Some s \<Rightarrow> vstore_list (a + 1) bs s)"

primrec vload_list :: "nat \<Rightarrow> u64 \<Rightarrow> ('h, 'a) kernel_scheme \<Rightarrow> u8 list option" where
  "vload_list 0 a s = Some []"
| "vload_list (Suc n) a s =
     (case vload a s of None \<Rightarrow> None | Some b \<Rightarrow> (case vload_list n (a + 1) s of None \<Rightarrow> None | Some bs \<Rightarrow> Some (b # bs)))"

section \<open>Loader callbacks\<close>

definition tus_pread :: "('h, 'a) kernel_scheme el_read" where
  "tus_pread nb off s = vfs_pread (g_elf_fd s) True nb off s"

fun tus_alloc_pages :: "u64 \<Rightarrow> u64 \<Rightarrow> nat list \<Rightarrow> ('h, 'a) kernel_scheme \<Rightarrow> bool \<times> ('h, 'a) kernel_scheme" where
  "tus_alloc_pages cr3 first [] s = (True, s)"
| "tus_alloc_pages cr3 first (k # ks) s =
     (let page = first + of_nat k * 0x1000;
          (frame, s) = vmm_translate_in cr3 page s;
          (frame, s) = (if frame = 0 then pmm_alloc_frame s else (frame, s))
      in if frame = 0 then (False, s)
         else let (r, s) = vmm_map_page_in cr3 page (frame AND NOT 0xFFF) (VMM_PRESENT OR VMM_WRITE OR VMM_USER) s
              in if r \<noteq> 0 then (False, s) else tus_alloc_pages cr3 first ks s)"

definition tus_alloc :: "('h, 'a) kernel_scheme el_alloc" where
  "tus_alloc ctx phys virt sz s =
     (let first = virt AND NOT 0xFFF;
          last_page = (virt + sz + 0xFFF) AND NOT 0xFFF;
          (ok, s) = tus_alloc_pages (userdata ctx) first [0..<(unat last_page - unat first) div 4096] s
      in (if ok then virt else 0, s))"

definition kprint :: "'h inb \<Rightarrow> 'h outb \<Rightarrow> string \<Rightarrow> karg list \<Rightarrow> ('h, 'a) kernel_scheme \<Rightarrow> ('h, 'a) kernel_scheme" where
  "kprint inb outb fmt args s =
     (case kprintf inb outb fmt args (con s) of Some c \<Rightarrow> s\<lparr>con := c\<rparr> | None \<Rightarrow> s)"

abbreviation newline :: string where "newline \<equiv> [CHR 0x0A]"

fun el_number :: "el_status \<Rightarrow> u64" where
  "el_number EL_OK = 0" | "el_number EL_EIO = 1" | "el_number EL_ENOMEM = 2" | "el_number EL_NOTELF = 3"
| "el_number EL_WRONGBITS = 4" | "el_number EL_WRONGENDIAN = 5" | "el_number EL_WRONGARCH = 6" | "el_number EL_WRONGOS = 7"
| "el_number EL_NOTEXEC = 8" | "el_number EL_NODYN = 9" | "el_number EL_BADREL = 10"

definition elf_error :: "'h inb \<Rightarrow> 'h outb \<Rightarrow> string \<Rightarrow> el_status \<Rightarrow> ('h, 'a) kernel_scheme \<Rightarrow> ('h, 'a) kernel_scheme" where
  "elf_error inb outb what st s =
     (let names = [''ok'', ''I/O error'', ''out of memory'', ''not an ELF file'', ''wrong ELF class (need 64-bit)'',
          ''wrong endianness'', ''wrong architecture (need x86-64)'', ''wrong OS ABI'',
          ''not a static executable (link with -static)'', ''no dynamic segment'', ''unsupported relocation'']
      in kprint inb outb (''%s: %s (%d)'' @ newline)
           [Arg_str (Some what), Arg_str (Some (names ! unat (el_number st))), Arg_word (el_number st)] s)"

section \<open>Starting a program\<close>

definition close_elf :: "('h, 'a) kernel_scheme \<Rightarrow> ('h, 'a) kernel_scheme" where
  "close_elf s = snd (vfs_close (g_elf_fd s) s)"

definition executable :: "string \<Rightarrow> ('h, 'a) kernel_scheme \<Rightarrow> bool" where
  "executable path s \<longleftrightarrow> (let node = vfs_lookup path s in node \<noteq> NULL \<and> n_mode (nodes s node) AND 0x49 \<noteq> 0)"

definition elf_exec ::
  "'h inb \<Rightarrow> 'h outb \<Rightarrow> string option \<Rightarrow> int \<Rightarrow> (nat \<Rightarrow> string option) option \<Rightarrow> ('h, 'a) kernel_scheme \<Rightarrow> (klong \<times> ('h, 'a) kernel_scheme) option" where
  "elf_exec inb outb path argc argv s =
     (case path of
        None \<Rightarrow> Some (- EINVAL, s)
      | Some path \<Rightarrow>
          (let (fd, s) = vfs_open (Some path) O_RDONLY s; s = s\<lparr>g_elf_fd := fd\<rparr>
           in if fd < 0 then Some (fd, kprint inb outb (''exec: cannot open %s'' @ newline) [Arg_str (Some path)] s)
              else if \<not> executable path s
              then Some (- EACCES, close_elf (kprint inb outb (''exec: permission denied: %s'' @ newline) [Arg_str (Some path)] s))
              else
                let (st, ctx) = el_init tus_pread s zero_ctx
                in if st \<noteq> EL_OK then Some (- ENOEXEC, close_elf (elf_error inb outb ''exec'' st s))
                   else
                     let (cr3, s) = vmm_space_clone s
                     in if cr3 = 0
                        then Some (- ENOMEM, close_elf (kprint inb outb (''exec: cannot allocate address space'' @ newline) [] s))
                        else
                          let s = vmm_space_switch cr3 (preempt_disable s)
                          in case el_load tus_pread vstore_list tus_alloc (ctx\<lparr>userdata := cr3\<rparr>) s of
                               None \<Rightarrow> None
                             | Some (st, s) \<Rightarrow>
                                 if st \<noteq> EL_OK
                                 then let s = elf_error inb outb ''exec'' st s; s = vmm_space_switch (vmm_root_cr3 s) s
                                      in Some (- ENOMEM, close_elf (preempt_enable s))
                                 else
                                   let (pid, s) = task_create_user (e_entry (ehdr ctx)) path cr3 argc argv s;
                                       s = preempt_enable (vmm_space_switch (vmm_root_cr3 s) s)
                                   in if pid < 0
                                      then Some (- ENOMEM, close_elf (kprint inb outb (''exec: cannot create task for %s'' @ newline) [Arg_str (Some path)] s))
                                      else let s = close_elf s
                                           in Some (pid, kprint inb outb
                                                (''exec: %s started as pid %d (entry 0x%llx, ring 3, cr3 0x%llx)'' @ newline)
                                                [Arg_str (Some path), Arg_word (word_of_int pid), Arg_word (e_entry (ehdr ctx)), Arg_word cr3] s)))"

section \<open>Replacing the image of the current task\<close>

definition base_name :: "string \<Rightarrow> string" where
  "base_name path = (case last_slash 0 None path of None \<Rightarrow> path | Some i \<Rightarrow> drop (Suc i) path)"

definition exec_build_stack :: "u64 \<Rightarrow> string \<Rightarrow> int \<Rightarrow> (nat \<Rightarrow> string option) option \<Rightarrow> ('h, 'a) kernel_scheme \<Rightarrow> u64 \<times> ('h, 'a) kernel_scheme" where
  "exec_build_stack cr3 name argc argv s = user_stack cr3 (stack_args name argc argv) s"

definition load_word :: "u64 \<Rightarrow> 'a heap_scheme \<Rightarrow> u64" where
  "load_word a s = of_nat (le_value (load_bytes a 8 s))"

definition elf_exec_current ::
  "string option \<Rightarrow> int \<Rightarrow> (nat \<Rightarrow> string option) option \<Rightarrow> u64 \<Rightarrow> ('h, 'a) kernel_scheme \<Rightarrow> (klong \<times> ('h, 'a) kernel_scheme) option" where
  "elf_exec_current path argc argv frame_rsp s =
     (case (cur_task s, path) of
        (Some c, Some path) \<Rightarrow>
          (let (fd, s) = vfs_open (Some path) O_RDONLY s; s = s\<lparr>g_elf_fd := fd\<rparr>
           in if fd < 0 then Some (fd, s)
              else if \<not> executable path s then Some (- EACCES, close_elf s)
              else
                let (st, ctx) = el_init tus_pread s zero_ctx
                in if st \<noteq> EL_OK then Some (- ENOEXEC, close_elf s)
                   else
                     let (cr3, s) = vmm_space_clone s
                     in if cr3 = 0 then Some (- ENOMEM, close_elf s)
                        else
                          let s = vmm_space_switch cr3 (preempt_disable s)
                          in case el_load tus_pread vstore_list tus_alloc (ctx\<lparr>userdata := cr3\<rparr>) s of
                               None \<Rightarrow> None
                             | Some (st, s) \<Rightarrow>
                                 if st \<noteq> EL_OK
                                 then Some (- ENOEXEC, close_elf (preempt_enable (vmm_space_switch (vmm_root_cr3 s) s)))
                                 else
                                   let (rsp, s) = exec_build_stack cr3 path argc argv s
                                   in if rsp = 0
                                      then Some (- ENOMEM, close_elf (preempt_enable (vmm_space_switch (vmm_root_cr3 s) s)))
                                      else
                                        let s = vmm_space_switch cr3 (close_elf s);
                                            s = upd_task c (\<lambda>t. t\<lparr>t_cr3 := cr3, t_ustack := USER_STACK_BASE,
                                                  t_ustack_top := USER_STACK_BASE + USER_STACK_SIZE, t_fs_base := 0,
                                                  t_mmap_cur := 0x40000000, t_uid := 0, t_euid := 0, t_gid := 0, t_egid := 0,
                                                  t_name := take (TASK_NAME_MAX - 1) (base_name path)\<rparr>) s;
                                            f2 = load_word (frame_rsp + 16) s OR 0x200;
                                            s = store_bytes frame_rsp (words_bytes [e_entry (ehdr ctx), 0x1B, f2, rsp, 0x23]) s
                                        in Some (0, preempt_enable s))
      | _ \<Rightarrow> Some (- EINVAL, s))"

end
