(* ===== verification/Syscall.thy ===== *)
theory Syscall
  imports Devices Exec
begin

text \<open>
  System calls, \<open>kernel/syscall/syscall.c\<close>: the pointer check, the handlers and the dispatcher. User memory is
  read and written through the page tables of the active space (theory \<open>Exec\<close>). A call may return, wait for an
  interrupt with the point it resumes at, hand the processor to another task, stop the system, or fault in the
  kernel, which is a panic.
\<close>

section \<open>Registers and outcomes\<close>

record syscall_regs =
  rax :: u64
  rdi :: u64
  rsi :: u64
  rdx :: u64
  r10 :: u64
  r8 :: u64
  r9 :: u64

datatype wait_point = W_read | W_write nat | W_writev nat klong nat | W_sleep u64

datatype 's outcome = Returns klong 's | Waits wait_point 's | Switches u64 's | Halts 's | Faults | Spins

abbreviation SYS_EXIT :: u64 where "SYS_EXIT \<equiv> 0"
abbreviation SYS_READ :: u64 where "SYS_READ \<equiv> 1"
abbreviation SYS_WRITE :: u64 where "SYS_WRITE \<equiv> 2"
abbreviation SYS_OPEN :: u64 where "SYS_OPEN \<equiv> 3"
abbreviation SYS_CLOSE :: u64 where "SYS_CLOSE \<equiv> 4"
abbreviation SYS_IOCTL :: u64 where "SYS_IOCTL \<equiv> 5"
abbreviation SYS_GETPID :: u64 where "SYS_GETPID \<equiv> 6"
abbreviation SYS_UPTIME :: u64 where "SYS_UPTIME \<equiv> 7"
abbreviation SYS_SLEEP :: u64 where "SYS_SLEEP \<equiv> 8"
abbreviation SYS_MKDIR :: u64 where "SYS_MKDIR \<equiv> 9"
abbreviation SYS_UNLINK :: u64 where "SYS_UNLINK \<equiv> 10"
abbreviation SYS_READDIR :: u64 where "SYS_READDIR \<equiv> 11"
abbreviation SYS_MMAP :: u64 where "SYS_MMAP \<equiv> 12"
abbreviation SYS_MUNMAP :: u64 where "SYS_MUNMAP \<equiv> 13"
abbreviation SYS_ARCH_PRCTL :: u64 where "SYS_ARCH_PRCTL \<equiv> 14"
abbreviation SYS_WRITEV :: u64 where "SYS_WRITEV \<equiv> 15"
abbreviation SYS_TIME :: u64 where "SYS_TIME \<equiv> 16"
abbreviation SYS_FTRUNCATE :: u64 where "SYS_FTRUNCATE \<equiv> 17"
abbreviation SYS_EXECVE :: u64 where "SYS_EXECVE \<equiv> 18"
abbreviation SYS_CHMOD :: u64 where "SYS_CHMOD \<equiv> 19"
abbreviation SYS_GETUID :: u64 where "SYS_GETUID \<equiv> 20"
abbreviation SYS_GETEUID :: u64 where "SYS_GETEUID \<equiv> 21"
abbreviation SYS_SETUID :: u64 where "SYS_SETUID \<equiv> 22"
abbreviation SYS_GETGID :: u64 where "SYS_GETGID \<equiv> 23"
abbreviation SYS_SETGID :: u64 where "SYS_SETGID \<equiv> 24"
abbreviation SYS_PIPE :: u64 where "SYS_PIPE \<equiv> 25"
abbreviation SYS_DUP2 :: u64 where "SYS_DUP2 \<equiv> 26"
abbreviation SYS_DUP :: u64 where "SYS_DUP \<equiv> 27"

abbreviation ARCH_SET_FS :: u64 where "ARCH_SET_FS \<equiv> 0x1002"
abbreviation ARCH_GET_FS :: u64 where "ARCH_GET_FS \<equiv> 0x1003"
abbreviation MAP_ANONYMOUS :: u64 where "MAP_ANONYMOUS \<equiv> 0x20"

text \<open>A register converted to \<open>int\<close>.\<close>

definition int_arg :: "u64 \<Rightarrow> int" where
  "int_arg w = sint (ucast w :: u32)"

definition done_with :: "klong \<times> 's \<Rightarrow> 's outcome" where
  "done_with p = Returns (fst p) (snd p)"

section \<open>User memory\<close>

definition access_ok :: "bool \<Rightarrow> u64 \<Rightarrow> u64 \<Rightarrow> bool" where
  "access_ok from_user a len = (\<not> from_user \<or> (let e = a + len in e \<ge> a \<and> e \<le> USER_HALF_MAX))"

text \<open>How many of the bytes from an address on are mapped, and the bytes; unmapped ones count as 0 and are
  only used together with a test of the first.\<close>

primrec readable :: "nat \<Rightarrow> u64 \<Rightarrow> ('h, 'a) kernel_scheme \<Rightarrow> nat" where
  "readable 0 a s = 0"
| "readable (Suc n) a s = (if vload a s = None then 0 else Suc (readable n (a + 1) s))"

definition user_bytes :: "u64 \<Rightarrow> nat \<Rightarrow> ('h, 'a) kernel_scheme \<Rightarrow> u8 list" where
  "user_bytes a n s = map (\<lambda>k. case vload (a + of_nat k) s of Some b \<Rightarrow> b | None \<Rightarrow> 0) [0..<n]"

definition user_word :: "u64 \<Rightarrow> ('h, 'a) kernel_scheme \<Rightarrow> u64 option" where
  "user_word a s = map_option (\<lambda>bs. of_nat (le_value bs)) (vload_list 8 a s)"

text \<open>A string argument that the file system walks in place, and the bounded copy of \<open>sys_execve\<close>.\<close>

partial_function (option) user_string :: "u64 \<Rightarrow> ('h, 'a) kernel_scheme \<Rightarrow> string option" where
  "user_string a s =
     (case vload a s of
        None \<Rightarrow> None
      | Some b \<Rightarrow> if b = 0 then Some [] else Option.bind (user_string (a + 1) s) (\<lambda>cs. Some (byte_char b # cs)))"

primrec copy_string :: "nat \<Rightarrow> u64 \<Rightarrow> ('h, 'a) kernel_scheme \<Rightarrow> string option" where
  "copy_string 0 a s = Some []"
| "copy_string (Suc n) a s =
     (case vload a s of
        None \<Rightarrow> None
      | Some b \<Rightarrow> if b = 0 then Some [] else map_option ((#) (byte_char b)) (copy_string n (a + 1) s))"

definition store_out :: "u64 \<Rightarrow> u8 list \<Rightarrow> klong \<Rightarrow> ('h, 'a) kernel_scheme \<Rightarrow> ('h, 'a) kernel_scheme outcome" where
  "store_out a bs n s = (case vstore_list a bs s of None \<Rightarrow> Faults | Some s \<Rightarrow> Returns n s)"

definition with_path ::
  "u64 \<Rightarrow> (string option \<Rightarrow> ('h, 'a) kernel_scheme \<Rightarrow> klong \<times> ('h, 'a) kernel_scheme) \<Rightarrow> ('h, 'a) kernel_scheme \<Rightarrow> ('h, 'a) kernel_scheme outcome" where
  "with_path a op s =
     (if a = NULL then done_with (op None s)
      else case user_string a s of None \<Rightarrow> Faults | Some p \<Rightarrow> done_with (op (Some p) s))"

section \<open>Reading and writing\<close>

definition do_read :: "'h inb \<Rightarrow> 'h outb \<Rightarrow> klong \<Rightarrow> u64 \<Rightarrow> u64 \<Rightarrow> ('h, 'a) kernel_scheme \<Rightarrow> ('h, 'a) kernel_scheme outcome" where
  "do_read inb outb fd a cnt s =
     (case vfs_read (dev_read inb outb) fd (a \<noteq> NULL) cnt s of
        Ret (n, bs) s \<Rightarrow> store_out a bs n s
      | Hlt _ s \<Rightarrow> Waits W_read s
      | Loop \<Rightarrow> Spins)"

text \<open>The null and zero devices take a buffer without looking at it; everything else reads the bytes it reports
  as written.\<close>

definition reads_buffer :: "klong \<Rightarrow> 'a vfs_scheme \<Rightarrow> bool" where
  "reads_buffer fd s \<longleftrightarrow>
     (let v = files s (fd_get fd s); node = nodes s (f_node v)
      in f_pipe v \<noteq> NULL \<or> n_type node \<noteq> VFS_DEVICE \<or> n_ops node \<notin> {Null_ops, Zero_ops})"

fun consumed :: "(klong, 's) io \<Rightarrow> nat" where
  "consumed (Ret n s) = nat n"
| "consumed (Hlt k s) = k"
| "consumed Loop = 0"

definition write_from :: "'h inb \<Rightarrow> 'h outb \<Rightarrow> klong \<Rightarrow> u64 \<Rightarrow> u64 \<Rightarrow> nat \<Rightarrow> ('h, 'a) kernel_scheme \<Rightarrow> (klong, ('h, 'a) kernel_scheme) io option" where
  "write_from inb outb fd a cnt sent s =
     (let r = vfs_write (dev_write inb outb) fd (if a = NULL then None else Some (user_bytes a (unat cnt) s)) sent s
      in if reads_buffer fd s \<and> readable (unat cnt) a s < consumed r then None else Some r)"

definition do_write :: "'h inb \<Rightarrow> 'h outb \<Rightarrow> klong \<Rightarrow> u64 \<Rightarrow> u64 \<Rightarrow> nat \<Rightarrow> ('h, 'a) kernel_scheme \<Rightarrow> ('h, 'a) kernel_scheme outcome" where
  "do_write inb outb fd a cnt sent s =
     (case write_from inb outb fd a cnt sent s of
        None \<Rightarrow> Faults
      | Some (Ret n s) \<Rightarrow> Returns n s
      | Some (Hlt k s) \<Rightarrow> Waits (W_write k) s
      | Some Loop \<Rightarrow> Spins)"

text \<open>\<open>writev\<close> from segment \<open>i\<close> on.\<close>

function writev_from ::
  "'h inb \<Rightarrow> 'h outb \<Rightarrow> bool \<Rightarrow> klong \<Rightarrow> u64 \<Rightarrow> nat \<Rightarrow> nat \<Rightarrow> klong \<Rightarrow> nat \<Rightarrow> ('h, 'a) kernel_scheme \<Rightarrow> ('h, 'a) kernel_scheme outcome" where
  "writev_from inb outb from_user fd iov cnt i total_n sent s =
     (if i < cnt
      then case (user_word (iov + of_nat (16 * i)) s, user_word (iov + of_nat (16 * i + 8)) s) of
             (Some base, Some len) \<Rightarrow>
               if \<not> access_ok from_user base len then Returns (if total_n > 0 then total_n else - EFAULT) s
               else (case write_from inb outb fd base len sent s of
                       None \<Rightarrow> Faults
                     | Some (Ret n s) \<Rightarrow>
                         if n < 0 then Returns (if total_n > 0 then total_n else n) s
                         else writev_from inb outb from_user fd iov cnt (Suc i) (total_n + n) 0 s
                     | Some (Hlt k s) \<Rightarrow> Waits (W_writev i total_n k) s
                     | Some Loop \<Rightarrow> Spins)
           | _ \<Rightarrow> Faults
      else Returns total_n s)"
  by pat_completeness auto
termination
  by (relation "measure (\<lambda>(inb, outb, u, fd, iov, cnt, i, t, k, s). cnt - i)") auto

declare writev_from.simps [simp del]

definition sys_writev ::
  "'h inb \<Rightarrow> 'h outb \<Rightarrow> klong \<Rightarrow> u64 \<Rightarrow> klong \<Rightarrow> bool \<Rightarrow> ('h, 'a) kernel_scheme \<Rightarrow> ('h, 'a) kernel_scheme outcome" where
  "sys_writev inb outb fd iov cnt from_user s =
     (if cnt < 0 \<or> cnt > 256 then Returns (- EINVAL) s
      else if \<not> access_ok from_user iov (of_int cnt * 16) then Returns (- EFAULT) s
      else writev_from inb outb from_user fd iov (nat cnt) 0 0 0 s)"

text \<open>The bytes a device's \<open>ioctl\<close> reads from its argument when it succeeds.\<close>

definition ioctl_in :: "u64 \<Rightarrow> nat" where
  "ioctl_in req = (if req \<in> {TCSETS, TCSETSW, TCSETSF} then TERMIOS_SIZE else if req = FB_IOCTL_FILL then 4 else 0)"

definition do_ioctl :: "klong \<Rightarrow> u64 \<Rightarrow> u64 \<Rightarrow> ('h, 'a) kernel_scheme \<Rightarrow> ('h, 'a) kernel_scheme outcome" where
  "do_ioctl fd req a s =
     (let ((n, out), s') = vfs_ioctl dev_ioctl fd req (if a = NULL then None else Some (user_bytes a 64 s)) s
      in if n = 0 \<and> a \<noteq> NULL \<and> readable 64 a s < ioctl_in req then Faults else store_out a out n s')"

definition dirent_bytes :: "vfs_dirent \<Rightarrow> u8 list" where
  "dirent_bytes d =
     map char_byte (d_name d) @ replicate (64 - length (d_name d)) 0 @
     le_bytes 4 (unat (d_type d)) @ le_bytes 4 (unat (d_size d)) @ le_bytes 4 (unat (d_mode d))"

definition do_readdir :: "klong \<Rightarrow> u64 \<Rightarrow> u64 \<Rightarrow> ('h, 'a) kernel_scheme \<Rightarrow> ('h, 'a) kernel_scheme outcome" where
  "do_readdir fd a cnt s =
     (let ((n, out), s) = vfs_readdir fd (a \<noteq> NULL) cnt s in store_out a (concat (map dirent_bytes out)) n s)"

definition do_ftruncate :: "klong \<Rightarrow> klong \<Rightarrow> ('h, 'a) kernel_scheme \<Rightarrow> ('h, 'a) kernel_scheme outcome" where
  "do_ftruncate fd len s = (case vfs_ftruncate fd len s of Ret n s \<Rightarrow> Returns n s | _ \<Rightarrow> Spins)"

definition do_pipe :: "bool \<Rightarrow> u64 \<Rightarrow> ('h, 'a) kernel_scheme \<Rightarrow> ('h, 'a) kernel_scheme outcome" where
  "do_pipe from_user a s =
     (let ((ret, fds), s) = vfs_pipe_fds s
      in if ret < 0 then Returns ret s
         else if \<not> access_ok from_user a 8 then Returns (- EFAULT) s
         else case fds of
                Some (rd, wr) \<Rightarrow> store_out a (le_bytes 4 (nat rd) @ le_bytes 4 (nat wr)) 0 s
              | None \<Rightarrow> Returns ret s)"

section \<open>Programs and processes\<close>

text \<open>The argument vector from entry \<open>argc\<close> on: at most 16 strings of at most 127 characters. \<open>Inl\<close> ends
  the call.\<close>

function copy_argv :: "u64 \<Rightarrow> nat \<Rightarrow> ('h, 'a) kernel_scheme \<Rightarrow> (klong + string list) option" where
  "copy_argv uargv argc s =
     (if argc < 16
      then if \<not> access_ok True (uargv + of_nat (8 * argc)) 8 then Some (Inl (- EFAULT))
           else case user_word (uargv + of_nat (8 * argc)) s of
                  None \<Rightarrow> None
                | Some p \<Rightarrow>
                    if p = NULL then Some (Inr [])
                    else if \<not> access_ok True p 1 then Some (Inl (- EFAULT))
                    else (case copy_string 127 p s of
                            None \<Rightarrow> None
                          | Some str \<Rightarrow> map_option (map_sum id ((#) str)) (copy_argv uargv (Suc argc) s))
      else Some (Inr []))"
  by pat_completeness auto
termination
  by (relation "measure (\<lambda>(uargv, argc, s). 16 - argc)") auto

declare copy_argv.simps [simp del]

definition arg_vector :: "string list \<Rightarrow> nat \<Rightarrow> string option" where
  "arg_vector args i = (if i < length args then Some (args ! i) else None)"

definition sys_execve :: "u64 \<Rightarrow> u64 \<Rightarrow> bool \<Rightarrow> u64 \<Rightarrow> ('h, 'a) kernel_scheme \<Rightarrow> ('h, 'a) kernel_scheme outcome" where
  "sys_execve upath uargv from_user frame_rsp s =
     (if \<not> from_user then Returns (- EPERM) s
      else if \<not> access_ok from_user upath 1 then Returns (- EFAULT) s
      else case copy_string 255 upath s of
             None \<Rightarrow> Faults
           | Some path \<Rightarrow>
               if path = [] then Returns (- ENOENT) s
               else (case (if uargv = NULL then Some (Inr []) else copy_argv uargv 0 s) of
                       None \<Rightarrow> Faults
                     | Some (Inl e) \<Rightarrow> Returns e s
                     | Some (Inr args) \<Rightarrow>
                         (case elf_exec_current (Some path) (int (length args - 1))
                                 (Some (arg_vector (tl args))) frame_rsp s of
                            None \<Rightarrow> Faults
                          | Some r \<Rightarrow> done_with r)))"

definition sys_exit :: "'h inb \<Rightarrow> 'h outb \<Rightarrow> int \<Rightarrow> ('h, 'a) kernel_scheme \<Rightarrow> ('h, 'a) kernel_scheme outcome" where
  "sys_exit inb outb status s =
     (case task_exit inb outb status s of (Some rsp, s) \<Rightarrow> Switches rsp s | (None, s) \<Rightarrow> Halts s)"

section \<open>Memory\<close>

definition page_round :: "u64 \<Rightarrow> u64" where
  "page_round n = (n + 0xFFF) AND NOT 0xFFF"

definition range_ok :: "u64 \<Rightarrow> u64 \<Rightarrow> bool" where
  "range_ok start n \<longleftrightarrow> \<not> (start + n > USER_HALF_MAX \<or> start + n < start)"

definition munmap_page :: "u64 \<Rightarrow> u64 \<Rightarrow> ('h, 'a) kernel_scheme \<Rightarrow> ('h, 'a) kernel_scheme" where
  "munmap_page cr3 page s =
     (let (phys, s) = vmm_translate_in cr3 page s
      in if phys = 0 then s else pmm_free_frame (phys AND NOT 0xFFF) (vmm_unmap_page_in cr3 page s))"

definition sys_munmap :: "u64 \<Rightarrow> u64 \<Rightarrow> ('h, 'a) kernel_scheme \<Rightarrow> klong \<times> ('h, 'a) kernel_scheme" where
  "sys_munmap start len s =
     (case sched_current s of
        None \<Rightarrow> (- EINVAL, s)
      | Some t \<Rightarrow>
          if sint len \<le> 0 \<or> start AND 0xFFF \<noteq> 0 then (- EINVAL, s)
          else let n = page_round len
               in if \<not> range_ok start n then (- EINVAL, s)
                  else (0, fold (\<lambda>k. munmap_page (t_cr3 t) (start + of_nat k * 0x1000)) [0..<unat n div 4096] s))"

text \<open>The loop of \<open>sys_mmap\<close>: the page it failed at, if any.\<close>

fun mmap_pages :: "u64 \<Rightarrow> u64 \<Rightarrow> nat list \<Rightarrow> ('h, 'a) kernel_scheme \<Rightarrow> nat option \<times> ('h, 'a) kernel_scheme" where
  "mmap_pages cr3 start [] s = (None, s)"
| "mmap_pages cr3 start (k # ks) s =
     (let (frame, s) = pmm_alloc_frame s
      in if frame = 0 then (Some k, s)
         else let s = s\<lparr>page_bytes := poke (pmm_phys_to_virt s frame) (replicate 4096 0) (page_bytes s)\<rparr>;
                  (r, s) = vmm_map_page_in cr3 (start + of_nat k * 0x1000) frame (VMM_PRESENT OR VMM_WRITE OR VMM_USER) s
              in if r \<noteq> 0 then (Some k, pmm_free_frame frame s) else mmap_pages cr3 start ks s)"

definition sys_mmap :: "u64 \<Rightarrow> u64 \<Rightarrow> u64 \<Rightarrow> ('h, 'a) kernel_scheme \<Rightarrow> klong \<times> ('h, 'a) kernel_scheme" where
  "sys_mmap addr len flags s =
     (case (cur_task s, sched_current s) of
        (Some c, Some t) \<Rightarrow>
          if sint len \<le> 0 \<or> flags AND MAP_ANONYMOUS = 0 then (- EINVAL, s)
          else
            let start = (if addr = 0 then t_mmap_cur t else addr)
            in if start AND 0xFFF \<noteq> 0 then (- EINVAL, s)
               else
                 let n = page_round len
                 in if \<not> range_ok start n then (- ENOMEM, s)
                    else case mmap_pages (t_cr3 t) start [0..<unat n div 4096] s of
                           (Some k, s) \<Rightarrow> (- ENOMEM, snd (sys_munmap start (of_nat k * 0x1000) s))
                         | (None, s) \<Rightarrow> (uint start, upd_task c (t_mmap_cur_update (\<lambda>_. start + n)) s)
      | _ \<Rightarrow> (- EINVAL, s))"

definition sys_arch_prctl :: "u64 \<Rightarrow> u64 \<Rightarrow> bool \<Rightarrow> ('h, 'a) kernel_scheme \<Rightarrow> ('h, 'a) kernel_scheme outcome" where
  "sys_arch_prctl op a from_user s =
     (case cur_task s of
        None \<Rightarrow> Returns (- EINVAL) s
      | Some c \<Rightarrow>
          if op = ARCH_SET_FS
          then if canonical a then Returns 0 ((upd_task c (t_fs_base_update (\<lambda>_. a)) s)\<lparr>r_fs_base := a\<rparr>) else Faults
          else if op = ARCH_GET_FS
          then if \<not> access_ok from_user a 8 then Returns (- EFAULT) s
               else store_out a (le_bytes 8 (unat (t_fs_base (g_tasks s c)))) 0 s
          else Returns (- EINVAL) s)"

section \<open>The dispatcher\<close>

definition do_sleep :: "u64 \<Rightarrow> ('h, 'a) kernel_scheme \<Rightarrow> ('h, 'a) kernel_scheme outcome" where
  "do_sleep target s =
     (case timer_sleep_ms target (g_ticks s) of
        Ret _ t \<Rightarrow> Returns 0 (s\<lparr>g_ticks := t\<rparr>) | Hlt _ t \<Rightarrow> Waits (W_sleep target) (s\<lparr>g_ticks := t\<rparr>) | Loop \<Rightarrow> Spins)"

definition cur_field :: "(task \<Rightarrow> klong) \<Rightarrow> klong \<Rightarrow> ('h, 'a) kernel_scheme \<Rightarrow> ('h, 'a) kernel_scheme outcome" where
  "cur_field f dflt s = Returns (case sched_current s of Some t \<Rightarrow> f t | None \<Rightarrow> dflt) s"

definition set_cur :: "(task \<Rightarrow> task) \<Rightarrow> ('h, 'a) kernel_scheme \<Rightarrow> ('h, 'a) kernel_scheme outcome" where
  "set_cur g s = (case cur_task s of None \<Rightarrow> Returns (- EPERM) s | Some c \<Rightarrow> Returns 0 (upd_task c g s))"

definition checked :: "bool \<Rightarrow> u64 \<Rightarrow> u64 \<Rightarrow> ('s \<Rightarrow> 's outcome) \<Rightarrow> 's \<Rightarrow> 's outcome" where
  "checked from_user a len op s = (if \<not> access_ok from_user a len then Returns (- EFAULT) s else op s)"

definition syscall_dispatch ::
  "'h inb \<Rightarrow> 'h outb \<Rightarrow> syscall_regs \<Rightarrow> u64 \<Rightarrow> u64 \<Rightarrow> ('h, 'a) kernel_scheme \<Rightarrow> ('h, 'a) kernel_scheme outcome" where
  "syscall_dispatch inb outb r cs frame_rsp s =
     (let from_user = (cs AND 3 = 3); n = rax r in
      if n = SYS_EXIT then sys_exit inb outb (int_arg (rdi r)) s
      else if n = SYS_EXECVE then sys_execve (rdi r) (rsi r) from_user frame_rsp s
      else if n = SYS_PIPE then do_pipe from_user (rdi r) s
      else if n = SYS_DUP2 then done_with (vfs_dup2 (sint (rdi r)) (sint (rsi r)) s)
      else if n = SYS_DUP then done_with (vfs_dup (sint (rdi r)) s)
      else if n = SYS_READ then checked from_user (rsi r) (rdx r) (do_read inb outb (int_arg (rdi r)) (rsi r) (rdx r)) s
      else if n = SYS_WRITE then checked from_user (rsi r) (rdx r) (do_write inb outb (int_arg (rdi r)) (rsi r) (rdx r) 0) s
      else if n = SYS_OPEN then checked from_user (rdi r) 1 (with_path (rdi r) (\<lambda>p. vfs_open p (ucast (rsi r)))) s
      else if n = SYS_CLOSE then done_with (vfs_close (int_arg (rdi r)) s)
      else if n = SYS_IOCTL then checked from_user (rdx r) 64 (do_ioctl (int_arg (rdi r)) (rsi r) (rdx r)) s
      else if n = SYS_GETPID then Returns (current_pid s) s
      else if n = SYS_UPTIME then Returns (sint (pit_uptime_ms (g_ticks s))) s
      else if n = SYS_SLEEP then do_sleep (sleep_target (ucast (rdi r)) (g_ticks s)) s
      else if n = SYS_MKDIR then checked from_user (rdi r) 1 (with_path (rdi r) (\<lambda>p. vfs_mkdir p (ucast (rsi r)))) s
      else if n = SYS_CHMOD then checked from_user (rdi r) 1 (with_path (rdi r) (\<lambda>p. vfs_chmod p (ucast (rsi r)))) s
      else if n = SYS_UNLINK then checked from_user (rdi r) 1 (with_path (rdi r) vfs_unlink) s
      else if n = SYS_READDIR then checked from_user (rsi r) (rdx r) (do_readdir (int_arg (rdi r)) (rsi r) (rdx r)) s
      else if n = SYS_MMAP then done_with (sys_mmap (rdi r) (rsi r) (r10 r) s)
      else if n = SYS_MUNMAP then done_with (sys_munmap (rdi r) (rsi r) s)
      else if n = SYS_ARCH_PRCTL then sys_arch_prctl (rdi r) (rsi r) from_user s
      else if n = SYS_WRITEV then sys_writev inb outb (sint (rdi r)) (rsi r) (sint (rdx r)) from_user s
      else if n = SYS_TIME then Returns (sint (pit_uptime_ms (g_ticks s) div 1000)) s
      else if n = SYS_FTRUNCATE then do_ftruncate (int_arg (rdi r)) (sint (rsi r)) s
      else if n = SYS_GETUID then cur_field (\<lambda>t. uint (t_uid t)) 0 s
      else if n = SYS_GETEUID then cur_field (\<lambda>t. uint (t_euid t)) 0 s
      else if n = SYS_SETUID then set_cur (\<lambda>t. t\<lparr>t_uid := ucast (rdi r), t_euid := ucast (rdi r)\<rparr>) s
      else if n = SYS_GETGID then cur_field (\<lambda>t. uint (t_gid t)) 0 s
      else if n = SYS_SETGID then set_cur (\<lambda>t. t\<lparr>t_gid := ucast (rdi r), t_egid := ucast (rdi r)\<rparr>) s
      else Returns (- ENOSYS) s)"

text \<open>Continuing a call that waited.\<close>

definition syscall_resume ::
  "'h inb \<Rightarrow> 'h outb \<Rightarrow> wait_point \<Rightarrow> syscall_regs \<Rightarrow> u64 \<Rightarrow> ('h, 'a) kernel_scheme \<Rightarrow> ('h, 'a) kernel_scheme outcome" where
  "syscall_resume inb outb w r cs s =
     (case w of
        W_read \<Rightarrow> do_read inb outb (int_arg (rdi r)) (rsi r) (rdx r) s
      | W_write k \<Rightarrow> do_write inb outb (int_arg (rdi r)) (rsi r) (rdx r) k s
      | W_writev i t k \<Rightarrow> writev_from inb outb (cs AND 3 = 3) (sint (rdi r)) (rsi r) (nat (sint (rdx r))) i t k s
      | W_sleep target \<Rightarrow> do_sleep target s)"

end
