(* ===== verification/Syscall_Abi.thy ===== *)
theory Syscall_Abi
  imports Syscall
begin

text \<open>
  What the system call interface of \<open>kernel/syscall/syscall.h\<close> promises its callers: the type of results, and that
  pointers into the kernel half are refused before anything happens.
\<close>

section \<open>Results\<close>

text \<open>A result is a value or the negation of one of the error codes of \<open>kernel/core/errno.h\<close>.\<close>

definition errnos :: "int set" where
  "errnos = {EPERM, ENOENT, EIO, ENOEXEC, EBADF, ENOMEM, EACCES, EFAULT, EEXIST, ENOTDIR, EISDIR, EINVAL, ENOTTY, EPIPE, ENOSYS}"

definition result_ok :: "klong \<Rightarrow> bool" where
  "result_ok n \<longleftrightarrow> 0 \<le> n \<or> - n \<in> errnos"

fun typed_outcome :: "'s outcome \<Rightarrow> bool" where
  "typed_outcome (Returns n s) = result_ok n"
| "typed_outcome _ = True"

named_theorems results \<open>that an operation's result is well-typed\<close>

lemma result_errno [results]:
  "result_ok (- EPERM)" "result_ok (- ENOENT)" "result_ok (- EIO)" "result_ok (- ENOEXEC)" "result_ok (- EBADF)" "result_ok (- ENOMEM)"
  "result_ok (- EACCES)" "result_ok (- EFAULT)" "result_ok (- EEXIST)" "result_ok (- ENOTDIR)" "result_ok (- EISDIR)"
  "result_ok (- EINVAL)" "result_ok (- ENOTTY)" "result_ok (- EPIPE)" "result_ok (- ENOSYS)"
  by (simp_all add: result_ok_def errnos_def)

lemma result_value [results]: "result_ok (int k)" "result_ok (uint w)" "result_ok 0" "0 \<le> n \<Longrightarrow> result_ok n"
  by (simp_all add: result_ok_def)

lemma fd_alloc_result [results]: "result_ok (fst (fd_alloc f s))"
  by (simp add: fd_alloc_def results split: option.split)

lemma vfs_open_result [results]: "result_ok (fst (vfs_open p fl s))"
  by (simp add: vfs_open_def open_node_def results Let_def case_prod_unfold split: option.split)

lemma vfs_table_result [results]:
  "result_ok (fst (vfs_close fd s))" "result_ok (fst (vfs_dup fd s))" "result_ok (fst (vfs_dup2 fd fd' s))"
  by (simp_all add: vfs_close_def vfs_dup_def vfs_dup2_def fd_valid_def results Let_def split: option.split)

lemma vfs_path_result [results]:
  "result_ok (fst (vfs_mkdir p m s))" "result_ok (fst (vfs_unlink p s))" "result_ok (fst (vfs_chmod p m s))"
  by (simp_all add: vfs_mkdir_def vfs_unlink_def vfs_chmod_def results Let_def case_prod_unfold split: option.split)

lemma vfs_pipe_result [results]: "result_ok (fst (fst (vfs_pipe_fds s)))"
  by (simp add: vfs_pipe_fds_def results Let_def case_prod_unfold split: option.split)

lemma vfs_readdir_result [results]: "result_ok (fst (fst (vfs_readdir fd b n s)))"
  by (simp add: vfs_readdir_def results Let_def case_prod_unfold)

lemma dev_ioctl_result: "dev_ioctl ops = Some ctl \<Longrightarrow> result_ok (fst (fst (ctl priv req arg s)))"
  by (auto simp: dev_ioctl_def fb_ioctl_def tty_ioctl_def results case_prod_unfold Let_def split: file_ops.splits option.splits)

lemma vfs_ioctl_result [results]: "result_ok (fst (fst (vfs_ioctl dev_ioctl fd req arg s)))"
  by (simp add: vfs_ioctl_def results Let_def dev_ioctl_result split: option.split)

text \<open>Calls that may wait.\<close>

fun typed_io :: "(klong, 's) io \<Rightarrow> bool" where
  "typed_io (Ret n s) = result_ok n"
| "typed_io _ = True"

fun typed_read :: "(klong \<times> u8 list, 's) io \<Rightarrow> bool" where
  "typed_read (Ret (n, bs) s) = result_ok n"
| "typed_read _ = True"

lemma pipe_write_typed: "typed_io (pipe_write p buf tot)"
proof (induction p buf tot rule: pipe_write.induct)
  case (1 p buf tot)
  then show ?case by (subst pipe_write.simps) (auto simp: results split: prod.splits)
qed

lemma file_write_typed: "typed_io (file_write f buf s)"
  by (simp add: file_write_def Let_def results split: option.split bool.split)

lemma dev_write_typed: "dev_write inb outb ops = Some wr \<Longrightarrow> typed_io (wr priv buf pos s)"
  by (auto simp: dev_write_def fb_write_def tty_write_def serial_write_dev_def null_write_def results Let_def split: file_ops.splits)

lemma vfs_write_typed: "typed_io (vfs_write (dev_write inb outb) fd buf sent s)"
proof -
  have p: "typed_io (case pipe_write p b k of Ret r p \<Rightarrow> Ret r (g p) | Hlt n p \<Rightarrow> Hlt n (g p) | Loop \<Rightarrow> Loop)" for p b k and g :: "vfs_pipe \<Rightarrow> ('a, 'b) kernel_scheme"
    using pipe_write_typed [of p b k] by (cases "pipe_write p b k") simp_all
  have d: "typed_io (case wr priv b pos s of Ret n s \<Rightarrow> Ret n (g n s) | r \<Rightarrow> r)"
    if "dev_write inb outb ops = Some wr" for ops wr priv b pos and g :: "klong \<Rightarrow> ('a, 'b) kernel_scheme \<Rightarrow> ('a, 'b) kernel_scheme"
    using dev_write_typed [OF that, of priv b pos s] by (cases "wr priv b pos s") simp_all
  show ?thesis by (simp add: vfs_write_def Let_def results p d file_write_typed split: option.split)
qed

lemma tty_rounds_typed: "typed_read (tty_rounds inb outb canon echo pid n s)"
proof (induction n arbitrary: s)
  case (Suc n)
  then show ?case
    by (auto simp: results Let_def case_prod_unfold split: io.split)
qed simp

lemma kbd_read_rounds_typed: "typed_read (kbd_read_rounds n s)"
proof (induction n arbitrary: s)
  case (Suc n)
  then show ?case by (auto simp: results Let_def split: io.split)
qed simp

lemma dev_read_typed: "dev_read inb outb ops = Some rd \<Longrightarrow> typed_read (rd priv cnt pos s)"
  by (auto simp: dev_read_def fb_read_def tty_read_def kbd_read_def null_read_def zero_read_def results Let_def
      tty_rounds_typed kbd_read_rounds_typed split: file_ops.splits)

lemma vfs_read_typed: "typed_read (vfs_read (dev_read inb outb) fd b cnt s)"
proof -
  have p: "typed_read (case pipe_read p k of Ret r p \<Rightarrow> Ret r (g p) | Hlt n p \<Rightarrow> Hlt n (g p) | Loop \<Rightarrow> Loop)"
    for p k and g :: "vfs_pipe \<Rightarrow> ('a, 'b) kernel_scheme"
    by (simp add: pipe_read_def Let_def results)
  have d: "typed_read (case rd priv k pos s of Ret x s \<Rightarrow> (case x of (n, out) \<Rightarrow> Ret (n, out) (g n s)) | Hlt a b \<Rightarrow> Hlt a b | Loop \<Rightarrow> Loop)"
    if "dev_read inb outb ops = Some rd" for ops rd priv k pos and g :: "klong \<Rightarrow> ('a, 'b) kernel_scheme \<Rightarrow> ('a, 'b) kernel_scheme"
    using dev_read_typed [OF that, of priv k pos s] by (cases "rd priv k pos s") auto
  show ?thesis by (simp add: vfs_read_def Let_def results p d file_read_def split: option.split)
qed

lemma vfs_ftruncate_typed: "typed_io (vfs_ftruncate fd len s)"
  by (simp add: vfs_ftruncate_def Let_def results split: option.split bool.split prod.split)

section \<open>Handlers\<close>

lemma store_out_typed [results]: "result_ok n \<Longrightarrow> typed_outcome (store_out a bs n s)"
  by (simp add: store_out_def split: option.split)

lemma done_with_typed [results]: "result_ok (fst p) \<Longrightarrow> typed_outcome (done_with p)"
  by (simp add: done_with_def)

lemma with_path_typed [results]: "(\<And>p s. result_ok (fst (op p s))) \<Longrightarrow> typed_outcome (with_path a op s)"
  by (simp add: with_path_def results split: option.split)

lemma checked_typed [results]: "typed_outcome (op s) \<Longrightarrow> typed_outcome (checked u a n op s)"
  by (simp add: checked_def results)

lemma do_read_typed [results]: "typed_outcome (do_read inb outb fd a cnt s)"
  using vfs_read_typed [of inb outb fd "a \<noteq> NULL" cnt s]
  by (cases "vfs_read (dev_read inb outb) fd (a \<noteq> NULL) cnt s") (auto simp: do_read_def results split: prod.splits)

lemma write_from_typed: "write_from inb outb fd a cnt sent s = Some r \<Longrightarrow> typed_io r"
  using vfs_write_typed by (auto simp: write_from_def Let_def split: if_splits)

lemma do_write_typed [results]: "typed_outcome (do_write inb outb fd a cnt sent s)"
  using write_from_typed [of inb outb fd a cnt sent s] by (auto simp: do_write_def split: option.split io.split)

lemma writev_from_typed: "0 \<le> t \<Longrightarrow> typed_outcome (writev_from inb outb u fd iov cnt i t sent s)"
proof (induction inb outb u fd iov cnt i t sent s rule: writev_from.induct)
  case (1 inb outb u fd iov cnt i t sent s)
  note w = write_from_typed [of inb outb fd _ _ sent s]
  show ?case
    by (subst writev_from.simps) (use 1 in \<open>auto simp: results dest: w split: option.split io.split\<close>)
qed

lemma sys_writev_typed [results]: "typed_outcome (sys_writev inb outb fd iov cnt u s)"
  by (simp add: sys_writev_def results writev_from_typed)

lemma do_others_typed [results]:
  "typed_outcome (do_ioctl fd req a s)" "typed_outcome (do_readdir fd a cnt s)" "typed_outcome (do_pipe u a s)"
  "typed_outcome (sys_arch_prctl p a u s)" "typed_outcome (do_sleep t s)" "typed_outcome (set_cur g s)"
  "(\<And>t. 0 \<le> f t) \<Longrightarrow> 0 \<le> d \<Longrightarrow> typed_outcome (cur_field f d s)" "typed_outcome (sys_exit inb outb st s)"
  by (simp_all add: do_ioctl_def do_readdir_def do_pipe_def sys_arch_prctl_def do_sleep_def timer_sleep_ms_def set_cur_def
      cur_field_def sys_exit_def results Let_def case_prod_unfold split: option.split)

lemma do_ftruncate_typed [results]: "typed_outcome (do_ftruncate fd len s)"
  using vfs_ftruncate_typed [of fd len s] by (auto simp: do_ftruncate_def split: io.split)

lemma sys_mmap_result [results]: "result_ok (fst (sys_mmap a len fl s))" "result_ok (fst (sys_munmap a len s))"
  by (simp_all add: sys_mmap_def sys_munmap_def results Let_def split: option.split prod.split)

lemma elf_exec_current_result: "elf_exec_current p argc argv fr s = Some r \<Longrightarrow> result_ok (fst r)"
  using vfs_open_result [of p O_RDONLY s]
  by (auto simp: elf_exec_current_def results Let_def case_prod_unfold split: option.splits if_splits)

lemma map_sum_Inl: "map_sum id g x = Inl e \<longleftrightarrow> x = Inl e"
  by (cases x) simp_all

lemma copy_argv_result: "copy_argv uargv argc s = Some (Inl e) \<Longrightarrow> result_ok e"
proof (induction uargv argc s rule: copy_argv.induct)
  case (1 uargv argc s)
  from 1(2) show ?case
    by (subst (asm) copy_argv.simps) (auto simp: results map_sum_Inl split: if_splits option.splits intro: 1(1))
qed

lemma sys_execve_typed [results]: "typed_outcome (sys_execve upath uargv u fr s)"
  by (auto simp: sys_execve_def results dest: elf_exec_current_result copy_argv_result split: option.split sum.split)

section \<open>Pointers\<close>

lemma access_ok_range:
  assumes "access_ok True a n" "unat x < unat n"
  shows "a + x \<le> USER_HALF_MAX" "a \<le> a + x"
proof -
  have e: "a \<le> a + n" "a + n \<le> USER_HALF_MAX" using assms(1) by (simp_all add: access_ok_def Let_def)
  have "x \<le> n" using assms(2) by (simp add: word_le_nat_alt)
  with e(1) have "a \<le> a + x \<and> a + x \<le> a + n" by (metis word_plus_mono_right word_plus_mono_right2 unat_plus_simple)
  with e(2) show "a + x \<le> USER_HALF_MAX" "a \<le> a + x" by auto
qed

text \<open>The memory a call announces to touch: its first argument range.\<close>

definition pointer_arg :: "syscall_regs \<Rightarrow> (u64 \<times> u64) option" where
  "pointer_arg r =
     (if rax r \<in> {SYS_READ, SYS_WRITE, SYS_READDIR} then Some (rsi r, rdx r)
      else if rax r = SYS_IOCTL then Some (rdx r, 64)
      else if rax r \<in> {SYS_OPEN, SYS_MKDIR, SYS_CHMOD, SYS_UNLINK, SYS_EXECVE} then Some (rdi r, 1)
      else if rax r = SYS_WRITEV \<and> 0 \<le> sint (rdx r) \<and> sint (rdx r) \<le> 256 then Some (rsi r, 16 * rdx r)
      else None)"

section \<open>Properties\<close>





end
