(* ===== verification/Vmm_Space.thy ===== *)
theory Vmm_Space
  imports Vmm
begin

text \<open>
  Address spaces under several changes: which paths through the tables, which frames and which entries a walk, a
  mapping and an unmapping keep, so that loops over pages can be verified.
\<close>

section \<open>Paths without large pages\<close>

lemma link_table_small:
  assumes wf: "pt_wf T s" and p: "T p = Some (Suc (Suc l))" "i < 512"
    and q: "pmm_alloc_frame s = (q, s1)" "q \<noteq> 0"
    and p0: "T p0 = Some (Suc (length ns))" and small: "small_path s ns v p0"
  defines "t \<equiv> link_table (pt_cell s p i) q s1"
  shows "small_path t ns v p0"
proof -
  have t: "t = link_table (pt_cell s p i) q (snd (pmm_alloc_frame s))" by (simp add: t_def q)
  note L = link_table_wf [OF wf p q, folded t_def]
  note M = link_table_mem [OF wf p L(4), folded t]
  have c: "pt_cell t = pt_cell s" by (simp add: t)
  have zero: "small_path t ns v q" for ns by (cases ns) (simp_all add: c M(2) Let_def)
  show ?thesis using p0 small
  proof (induction ns arbitrary: p0)
    case (Cons n ns)
    let ?e = "pt_mem s (pt_cell s p0 (pt_index n v))"
    show ?case
    proof (cases "pt_cell s p0 (pt_index n v) = pt_cell s p i")
      case True
      then show ?thesis using M(1) new_entry [OF L(3)] zero by (simp add: c Let_def)
    next
      case False
      have e: "pt_mem t (pt_cell t p0 (pt_index n v)) = ?e" using M(3) [OF Cons.prems(1) pt_index_less False] by (simp add: c)
      have "T (?e AND PTE_ADDR_MASK) = Some (Suc (length ns))" if "bit ?e 0"
        using wf Cons.prems that by (simp add: pt_wf_def Let_def)
      with Cons show ?thesis by (simp add: e Let_def)
    qed
  qed simp
qed

lemma small_path_same_link:
  assumes "same_link e (pt_mem s c)"
  shows "small_path (pt_write c e s) ns v p = small_path s ns v p"
proof (induction ns arbitrary: p)
  case (Cons n ns)
  then show ?case using assms by (auto simp: same_link_def Let_def)
qed simp

lemma small_path_touch:
  fixes s :: "'a vmm_scheme"
  shows "small_path (touch_path user cs s) ns v p = small_path s ns v p"
proof -
  have 1: "small_path (clear_nx c u) ns v p = small_path u ns v p" for c and u :: "'a vmm_scheme"
    unfolding clear_nx_def by (rule small_path_same_link) (rule same_link_nx)
  have 2: "small_path (set_user c u) ns v p = small_path u ns v p" for c and u :: "'a vmm_scheme"
    unfolding set_user_def by (rule small_path_same_link) (rule same_link_user)
  have 3: "small_path (fold clear_nx cs u) ns v p = small_path u ns v p" for cs and u :: "'a vmm_scheme"
    by (induction cs arbitrary: u) (simp_all add: 1)
  have 4: "small_path (fold set_user cs u) ns v p = small_path u ns v p" for cs and u :: "'a vmm_scheme"
    by (induction cs arbitrary: u) (simp_all add: 2)
  show ?thesis by (simp add: touch_path_def Let_def 3 4)
qed

lemma small_path_leaf_write:
  assumes wf: "pt_wf T s" and q: "T q = Some 1" "j < 512" and p: "T p = Some (Suc (length ns))"
  shows "small_path (pt_write (pt_cell s q j) e s) ns v p \<longleftrightarrow> small_path s ns v p"
  using p
proof (induction ns arbitrary: p)
  case (Cons n ns)
  have d: "pt_cell s p (pt_index n v) \<noteq> pt_cell s q j"
    using pt_wf_page [OF wf] q Cons.prems by (auto simp: pt_cell_eq_iff)
  have "T (pt_mem s (pt_cell s p (pt_index n v)) AND PTE_ADDR_MASK) = Some (Suc (length ns))"
    if "bit (pt_mem s (pt_cell s p (pt_index n v))) 0" "\<not> bit (pt_mem s (pt_cell s p (pt_index n v))) 7"
    using wf Cons.prems that by (simp add: pt_wf_def)
  with Cons.IH d show ?case by (auto simp: Let_def)
qed simp

section \<open>What a walk keeps\<close>

lemma walk_tables_keeps:
  assumes "pt_wf T s" "T p = Some (Suc (length L))" "small_path s (map fst L) virt p"
    and "walk_tables L p virt al s = (r, s')"
  shows "free_addrs s' \<subseteq> free_addrs s \<and> card (free_addrs s) \<le> card (free_addrs s') + length L \<and>
    (\<forall>ns v p0. T p0 = Some (Suc (length ns)) \<longrightarrow> small_path s ns v p0 \<longrightarrow> small_path s' ns v p0)"
  using assms
proof (induction L arbitrary: T s p r)
  case (Cons x L)
  obtain n st ex where x: "x = (n, st, ex)" by (cases x)
  let ?c = "pt_cell s p (pt_index n virt)"
  have p: "T p = Some (Suc (Suc (length L)))" using Cons.prems(2) by simp
  have small: "\<not> bit (pt_mem s ?c) 7" using Cons.prems(3) by (simp add: x Let_def)
  obtain r1 s1 where w: "walk_level ?c st ex al s = (r1, s1)" by (cases "walk_level ?c st ex al s")
  show ?case using Cons.prems(1) p pt_index_less small w
  proof (cases rule: walk_level_cases)
    case present
    have "small_path s (map fst L) virt (pt_mem s ?c AND PTE_ADDR_MASK)" using Cons.prems(3) present by (simp add: x Let_def)
    moreover obtain r2 where "walk_tables L (pt_mem s ?c AND PTE_ADDR_MASK) virt al s = (r2, s')"
      using Cons.prems(4) present w by (auto simp: x split: option.splits prod.splits)
    ultimately show ?thesis using Cons.IH [OF Cons.prems(1) present(4)] by fastforce
  next
    case stop
    then show ?thesis using Cons.prems(4) w by (simp add: x)
  next
    case (fresh q)
    note g = link_table_grow(1) [OF Cons.prems(1) p pt_index_less fresh(1,4,5), folded fresh(6)]
    have inv: "pmm_inv s" using Cons.prems(1) by (simp add: pt_wf_def)
    have f: "free_addrs s1 = free_addrs s - {q}" using pmm.alloc_frames [OF inv] fresh(4) by (simp add: fresh(6)) (metis fst_conv)
    have z: "pt_mem s1 (pt_cell s1 q j) = 0" if "j < 512" for j
      using link_table_mem(2) [OF Cons.prems(1) p pt_index_less link_table_wf(4) [OF Cons.prems(1) p pt_index_less fresh(4,5)] that]
      unfolding fresh(6) by simp
    have sp: "small_path s1 ns v q" for ns v by (cases ns) (simp_all add: z Let_def)
    obtain r2 where r2: "walk_tables L q virt al s1 = (r2, s')"
      using Cons.prems(4) fresh(3) w by (auto simp: x split: option.splits prod.splits)
    note IH = Cons.IH [OF pt_growD(1) [OF g] _ sp r2]
    have k: "small_path s1 ns v p0" if "T p0 = Some (Suc (length ns))" "small_path s ns v p0" for ns v p0
      unfolding fresh(6) by (rule link_table_small [OF Cons.prems(1) p pt_index_less fresh(4,5) that])
    have c: "card (free_addrs s) \<le> Suc (card (free_addrs s1))"
      using card_alloc [OF inv fresh(4)] unfolding fresh(6) by simp
    have T1: "(T(q \<mapsto> Suc (length L))) p0 = Some (Suc l0)" if "T p0 = Some (Suc l0)" for p0 l0
      using pt_growD(3) [OF g that] .
    show ?thesis using IH f k c T1 by (auto simp: le_diff_conv)
  qed
qed simp

section \<open>Spaces with a user half of small pages\<close>

definition space_ok :: "(u64 \<rightharpoonup> nat) \<Rightarrow> u64 \<Rightarrow> 'a vmm_scheme \<Rightarrow> bool" where
  "space_ok T cr3 s \<longleftrightarrow> pt_wf T s \<and> unshared T s \<and> T cr3 = Some 4 \<and>
     (\<forall>v. v < 0x800000000000 \<longrightarrow> small_path s [39, 30, 21] v cr3)"

lemma space_okD:
  assumes "space_ok T cr3 s"
  shows "pt_wf T s" "unshared T s" "T cr3 = Some 4" "v < 0x800000000000 \<Longrightarrow> small_path s [39, 30, 21] v cr3" "pmm_inv s"
  using assms by (simp_all add: space_ok_def pt_wf_def)

lemma pt_cell_phys: "pt_cell t = pt_cell s \<Longrightarrow> pmm_phys_to_virt t = pmm_phys_to_virt s"
proof -
  assume "pt_cell t = pt_cell s"
  then have "pt_cell t p 0 = pt_cell s p 0" for p by simp
  then show ?thesis by (simp add: pt_cell_def fun_eq_iff)
qed

text \<open>The walk of a page of the user half.\<close>

lemma space_walk:
  assumes ok: "space_ok T cr3 s" and v: "virt < 0x800000000000" and w: "walk_pt cr3 virt al user s = (r, s')"
  obtains
    (stop) "r = None" "al \<longrightarrow> card (free_addrs s) < 3" "\<not> al \<longrightarrow> s' = s \<and> page_entry s cr3 virt = None"
  | (leaf) T' q where "r = Some (pt_cell s' q (pt_index 12 virt), False)" "T' q = Some 1"
      "leaf_table s' [39, 30, 21] virt cr3 = Some q" "space_ok T' cr3 s'"
      "\<And>v. page_entry s' cr3 v = page_entry s cr3 v" "dom T' \<subseteq> dom T \<union> free_addrs s"
      "free_addrs s' \<subseteq> free_addrs s" "card (free_addrs s) \<le> card (free_addrs s') + 3"
      "\<not> al \<longrightarrow> free_addrs s' = free_addrs s" "pt_cell s' = pt_cell s"
proof -
  note D = space_okD [OF ok]
  have l: "T cr3 = Some (Suc (length walk_levels))" using D(3) by simp
  have sm: "small_path s (map fst walk_levels) virt cr3" using D(4) [OF v] by (simp del: small_path.simps)
  obtain r1 s1 where w1: "walk_tables walk_levels cr3 virt al s = (r1, s1)" by (cases "walk_tables walk_levels cr3 virt al s")
  note K = walk_tables_keeps [OF D(1) l sm w1]
  have s': "s' = s1 \<or> (\<exists>cs. s' = touch_path user cs s1)" using w w1 by (auto simp: walk_pt_tables split: option.splits)
  have free: "free_addrs s' = free_addrs s1" using s' by (auto simp: touch_path_frame)
  have cell: "pt_cell s' = pt_cell s" if "r1 = Some x" for x
  proof -
    obtain q cs b where "x = (q, cs, b)" by (cases x)
    with that obtain T' where "pt_grow T s T' s1" using walk_tables_Some [OF D(1) l sm, of al q cs b s1] w1 by auto
    from pt_growD(2) [OF this] s' show ?thesis by (auto simp: touch_path_frame)
  qed
  have small: "small_path s' [39, 30, 21] v cr3" if "v < 0x800000000000" for v
  proof -
    have "small_path s1 [39, 30, 21] v cr3" using K D(3) D(4) [OF that] by (simp del: small_path.simps)
    with s' show ?thesis by (auto simp: small_path_touch simp del: small_path.simps)
  qed
  have same: "free_addrs s1 = free_addrs s" if "\<not> al"
    using walk_tables_Some [OF D(1) l sm, of al _ _ _ s1] walk_tables_None [OF D(1) l sm, of al s1] w1 that
    by (cases r1) auto
  show thesis using D(1,3) D(4) [OF v] w
  proof (cases rule: walk_pt_outcome)
    case stop
    then show ?thesis by (rule that(1))
  next
    case (leaf T' q)
    have "space_ok T' cr3 s'" using leaf(3,4,6) D(2) small by (simp add: space_ok_def del: small_path.simps)
    moreover have "r1 \<noteq> None" using w w1 leaf(1) by (cases r1) (simp_all add: walk_pt_tables)
    ultimately show ?thesis using leaf K free same cell by (intro that(2) [of q T']) auto
  qed
qed

lemma space_leaf_write:
  assumes ok: "space_ok T cr3 s" and q: "T q = Some 1" "j < 512"
  shows "space_ok T cr3 (pt_write (pt_cell s q j) e s)"
proof -
  note D = space_okD [OF ok]
  have n: "links_to (pt_write (pt_cell s q j) e s) p i r = links_to s p i r" if "T p = Some (Suc (Suc l))" "i < 512" for p i r l
  proof -
    have "pt_cell s p i \<noteq> pt_cell s q j" using pt_wf_page [OF D(1)] q that by (auto simp: pt_cell_eq_iff)
    then show ?thesis by (simp add: links_to_def)
  qed
  have "unshared T (pt_write (pt_cell s q j) e s)" using D(2) n unfolding unshared_def by blast
  moreover have "small_path (pt_write (pt_cell s q j) e s) [39, 30, 21] v cr3" if "v < 0x800000000000" for v
    using small_path_leaf_write [OF D(1) q, of cr3 "[39, 30, 21]"] D(3) D(4) [OF that] by (simp del: small_path.simps)
  ultimately show ?thesis using leaf_write_wf [OF D(1) q] D(3) by (simp add: space_ok_def del: small_path.simps)
qed

text \<open>Mapping a page: with three frames at hand it succeeds.\<close>

lemma space_map:
  assumes ok: "space_ok T cr3 s" and v: "virt < 0x800000000000"
    and al: "virt AND 0xFFF = 0" "phys AND 0xFFF = 0" and flags: "flags AND PTE_ADDR_MASK = 0"
    and m: "vmm_map_page_in cr3 virt phys flags s = (r, s')"
  obtains
    (short) "r = -1" "card (free_addrs s) < 3"
  | (mapped) T' where "r = 0" "space_ok T' cr3 s'"
      "page_entry s' cr3 virt = Some ((phys AND PTE_ADDR_MASK) OR flags OR VMM_PRESENT)"
      "\<And>v. \<not> same_page v virt \<Longrightarrow> page_entry s' cr3 v = page_entry s cr3 v"
      "dom T' \<subseteq> dom T \<union> free_addrs s" "free_addrs s' \<subseteq> free_addrs s" "card (free_addrs s) \<le> card (free_addrs s') + 3"
      "pt_cell s' = pt_cell s"
proof -
  let ?e = "(phys AND PTE_ADDR_MASK) OR flags OR VMM_PRESENT"
  obtain q s1 where w: "walk_pt cr3 virt True (flags AND VMM_USER \<noteq> 0) s = (q, s1)"
    by (cases "walk_pt cr3 virt True (flags AND VMM_USER \<noteq> 0) s")
  show thesis using ok v w
  proof (cases rule: space_walk)
    case stop
    with m al w show ?thesis by (intro short) (simp_all add: vmm_map_page_in_def)
  next
    case (leaf T' p)
    have s': "r = 0" "s' = pt_write (pt_cell s1 p (pt_index 12 virt)) ?e s1"
      using m al w leaf(1) by (simp_all add: vmm_map_page_in_def)
    note D = space_okD [OF leaf(4)]
    note E = page_entry_write [OF D(1,2,3) leaf(3), where e = ?e, folded s'(2)]
    have "bit ?e 0" using pt_entry_bits(1) [OF al(2) flags] .
    with E s' leaf space_leaf_write [OF leaf(4,2) pt_index_less] show ?thesis
      by (intro mapped [of T']) simp_all
  qed
qed

lemma space_translate:
  assumes ok: "space_ok T cr3 s" and v: "virt < 0x800000000000" and t: "vmm_translate_in cr3 virt s = (r, s')"
  obtains T' where "space_ok T' cr3 s'" "\<And>v. page_entry s' cr3 v = page_entry s cr3 v" "free_addrs s' = free_addrs s"
    "dom T' \<subseteq> dom T \<union> free_addrs s"
    "r = (case page_entry s cr3 virt of None \<Rightarrow> 0 | Some e \<Rightarrow> (e AND PTE_ADDR_MASK) OR (virt AND 0xFFF))"
proof -
  note D = space_okD [OF ok]
  obtain q s1 where w: "walk_pt cr3 virt False False s = (q, s1)" by (cases "walk_pt cr3 virt False False s")
  have s': "s' = s1" using t by (auto simp: vmm_translate_in_def w split: option.splits if_splits)
  have r: "r = (case page_entry s cr3 virt of None \<Rightarrow> 0 | Some e \<Rightarrow> (e AND PTE_ADDR_MASK) OR (virt AND 0xFFF))"
    using vmm_translate_in_entry(1) [OF D(1,3) D(4) [OF v]] t by simp
  show thesis using ok v w
  proof (cases rule: space_walk)
    case stop
    then show ?thesis using ok r s' by (intro that [of T]) auto
  next
    case (leaf T' p)
    then show ?thesis using r s' by (intro that [of T']) simp_all
  qed
qed

lemma space_unmap:
  assumes ok: "space_ok T cr3 s" and v: "virt < 0x800000000000"
  obtains T' where "space_ok T' cr3 (vmm_unmap_page_in cr3 virt s)"
    "page_entry (vmm_unmap_page_in cr3 virt s) cr3 virt = None"
    "\<And>v. \<not> same_page v virt \<Longrightarrow> page_entry (vmm_unmap_page_in cr3 virt s) cr3 v = page_entry s cr3 v"
    "free_addrs (vmm_unmap_page_in cr3 virt s) = free_addrs s" "dom T' \<subseteq> dom T \<union> free_addrs s"
proof -
  obtain q s1 where w: "walk_pt cr3 virt False False s = (q, s1)" by (cases "walk_pt cr3 virt False False s")
  show thesis using ok v w
  proof (cases rule: space_walk)
    case stop
    then show ?thesis using ok w by (intro that [of T]) (auto simp: vmm_unmap_page_in_def)
  next
    case (leaf T' p)
    have eq: "vmm_unmap_page_in cr3 virt s = pt_write (pt_cell s1 p (pt_index 12 virt)) 0 s1"
      by (simp add: vmm_unmap_page_in_def w leaf(1))
    note D = space_okD [OF leaf(4)]
    from page_entry_write(2,3) [OF D(1,2,3) leaf(3), where e = 0] leaf space_leaf_write [OF leaf(4,2) pt_index_less]
    show ?thesis by (intro that [of T']) (simp_all add: eq)
  qed
qed

text \<open>Taking a frame and giving one back; \<open>f\<close> carries no table.\<close>

lemma space_frame:
  fixes s t :: "'a vmm_scheme"
  assumes ok: "space_ok T cr3 s" and t: "pt_mem t = pt_mem s" "g_hhdm_offset t = g_hhdm_offset s" "pmm_inv t"
    and free: "\<And>p. p \<in> dom T \<Longrightarrow> p \<notin> free_addrs t"
  shows "space_ok T cr3 t" "page_entry t = page_entry s"
proof -
  have c: "pt_cell t = pt_cell s" by (simp add: pt_cell_def pmm_phys_to_virt_def t fun_eq_iff)
  have l: "links_to t = links_to s" by (simp add: links_to_def c t fun_eq_iff)
  have sm: "small_path t ns v p = small_path s ns v p" for ns v p
    by (induction ns arbitrary: p) (simp_all add: c t)
  have "pt_wf T t" using ok t(3) free by (auto simp: space_ok_def pt_wf_def c t(1))
  moreover have "unshared T t" using ok by (simp add: space_ok_def unshared_def l)
  ultimately show "space_ok T cr3 t" using ok by (simp add: space_ok_def sm del: small_path.simps)
  show "page_entry t = page_entry s" 
    by (intro ext) (simp add: page_entry_def leaf_table_links [OF l] c t split: option.splits del: leaf_table.simps)
qed

lemma space_alloc:
  assumes ok: "space_ok T cr3 s" and a: "pmm_alloc_frame s = (q, t)" "q \<noteq> 0"
  shows "space_ok T cr3 t" "page_entry t = page_entry s" "q \<in> free_addrs s" "free_addrs t = free_addrs s - {q}"
    "T q = None" "q AND 0xFFF = 0" "q AND PTE_ADDR_MASK = q" "card (free_addrs s) \<le> Suc (card (free_addrs t))"
proof -
  note D = space_okD [OF ok]
  show q: "q \<in> free_addrs s" using a pmm.alloc_mem [OF D(5)] pmm.alloc_zero_iff [OF D(5)] by auto
  show f: "free_addrs t = free_addrs s - {q}" using pmm.alloc_frames [OF D(5)] a by simp
  have t: "t = snd (pmm_alloc_frame s)" by (simp add: a)
  have "pt_mem t = pt_mem s" "g_hhdm_offset t = g_hhdm_offset s" "pmm_inv t" "\<And>p. p \<in> dom T \<Longrightarrow> p \<notin> free_addrs t"
    using pmm.alloc_inv [OF D(5)] pt_wf_page [OF D(1)] f by (auto simp: t frame_simps)
  from space_frame [OF ok this] show "space_ok T cr3 t" "page_entry t = page_entry s" by simp_all
  show "T q = None" using pt_wf_page [OF D(1)] q by (cases "T q") auto
  show "q AND PTE_ADDR_MASK = q" by (rule free_addr_mask [OF D(5) q])
  then show "q AND 0xFFF = 0" by (rule addr_low12)
  show "card (free_addrs s) \<le> Suc (card (free_addrs t))" by (rule card_alloc [OF D(5) a(1)])
qed

section \<open>Pages of the user half\<close>

lemma pt_index_unat: "pt_index n v = unat v div 2 ^ n mod 512"
proof -
  have "(0x1FF :: u64) = mask 9" by (simp add: mask_eq_exp_minus_1)
  then have "pt_index n v = unat (drop_bit n v) mod 2 ^ 9" by (simp only: pt_index_def unat_and_mask)
  also have "unat (drop_bit n v) = unat v div 2 ^ n" by (simp only: unat_drop_bit_eq) (simp only: drop_bit_eq_div)
  finally show ?thesis by simp
qed

lemma same_page_user:
  assumes "v < 0x800000000000" "w < 0x800000000000" "v AND 0xFFF = 0" "w AND 0xFFF = 0" "same_page v w"
  shows "v = w"
proof -
  obtain x y where x: "unat v = 4096 * x" and y: "unat w = 4096 * y" using assms(3,4) unfolding page_dvd by (elim dvdE)
  have b: "x < 2 ^ 35" "y < 2 ^ 35" using assms(1,2) x y by (simp_all add: word_less_nat_alt)
  have i: "pt_index 39 v = x div 2 ^ 27 mod 512" "pt_index 30 v = x div 2 ^ 18 mod 512" "pt_index 21 v = x div 2 ^ 9 mod 512"
    "pt_index 12 v = x mod 512" "pt_index 39 w = y div 2 ^ 27 mod 512" "pt_index 30 w = y div 2 ^ 18 mod 512"
    "pt_index 21 w = y div 2 ^ 9 mod 512" "pt_index 12 w = y mod 512"
    by (simp_all add: pt_index_unat x y)
  have m: "x div 2 ^ 27 mod 512 = y div 2 ^ 27 mod 512" "x div 2 ^ 18 mod 512 = y div 2 ^ 18 mod 512"
    "x div 2 ^ 9 mod 512 = y div 2 ^ 9 mod 512" "x mod 512 = y mod 512"
    using assms(5) unfolding same_page_def i list.set ball_simps by simp_all
  have d: "a = c" if "a mod 512 = c mod 512" "a div 512 = c div 512" for a c :: nat using that by (metis div_mod_decomp)
  have e: "a div 2 ^ 18 div 512 = a div 2 ^ 27" "a div 2 ^ 9 div 512 = a div 2 ^ 18" "a div 512 = a div 2 ^ 9" for a :: nat
    by (simp_all add: div_mult2_eq [symmetric])
  have "x div 2 ^ 27 = y div 2 ^ 27" using m(1) b by simp
  then have "x div 2 ^ 18 = y div 2 ^ 18" using d [OF m(2)] by (simp only: e(1))
  then have "x div 2 ^ 9 = y div 2 ^ 9" using d [OF m(3)] by (simp only: e(2))
  then have "x = y" using d [OF m(4)] by (simp only: e(3))
  with x y show ?thesis by (metis word_unat_eq_iff)
qed

end
