(* ===== verification/Mmap.thy ===== *)
theory Mmap
  imports Syscall Vmm_Space
begin

text \<open>
  Anonymous memory, \<open>sys_mmap\<close> and \<open>sys_munmap\<close> of \<open>kernel/syscall/syscall.c\<close>, on the page tables of the calling
  task: fresh zeroed pages, nothing else changed, and every frame given back.
\<close>

section \<open>What the memory calls leave alone\<close>

lemma kernel_fields_more:
  assumes "vmm.more s = vmm.more t"
  shows "g_tasks s = g_tasks t" "cur_task s = cur_task t" "page_bytes s = page_bytes t"
  using assms by (cases s; cases t; simp)+

lemma page_bytes_more: "vmm.more s = vmm.more t \<Longrightarrow> vmm.more (page_bytes_update f s) = vmm.more (page_bytes_update f t)"
  by (cases s; cases t) simp

lemma page_bytes_frame [simp]:
  "free_addrs (page_bytes_update f s) = free_addrs s" "pmm_inv (page_bytes_update f s) = pmm_inv s"
  "pmm_phys_to_virt (page_bytes_update f s) = pmm_phys_to_virt s"
  by (simp_all add: free_addrs_def free_set_def frame_is_free_def pmm_inv_def pmm_phys_to_virt_def fun_eq_iff)

lemma page_bytes_space:
  assumes ok: "space_ok T cr3 s"
  shows "space_ok T cr3 (page_bytes_update f s)" "page_entry (page_bytes_update f s) = page_entry s"
proof -
  have "pmm_inv (page_bytes_update f s)" using space_okD(5) [OF ok] by simp
  moreover have "p \<notin> free_addrs (page_bytes_update f s)" if "p \<in> dom T" for p
    using pt_wf_page [OF space_okD(1) [OF ok]] that by auto
  ultimately show "space_ok T cr3 (page_bytes_update f s)" "page_entry (page_bytes_update f s) = page_entry s"
    using space_frame [OF ok, of "page_bytes_update f s"] by simp_all
qed

lemma upd_task_space:
  assumes ok: "space_ok T cr3 s"
  shows "space_ok T cr3 (upd_task c g s)" "page_entry (upd_task c g s) = page_entry s"
    "free_addrs (upd_task c g s) = free_addrs s" "page_bytes (upd_task c g s) = page_bytes s"
    "pmm_phys_to_virt (upd_task c g s) = pmm_phys_to_virt s"
proof -
  have f: "free_addrs (upd_task c g s) = free_addrs s" "pmm_inv (upd_task c g s) = pmm_inv s"
    "pmm_phys_to_virt (upd_task c g s) = pmm_phys_to_virt s" "pt_mem (upd_task c g s) = pt_mem s"
    "g_hhdm_offset (upd_task c g s) = g_hhdm_offset s"
    by (simp_all add: upd_task_def free_addrs_def free_set_def frame_is_free_def pmm_inv_def pmm_phys_to_virt_def fun_eq_iff)
  have "p \<notin> free_addrs (upd_task c g s)" if "p \<in> dom T" for p
    using pt_wf_page [OF space_okD(1) [OF ok]] that by (auto simp: f)
  then show "space_ok T cr3 (upd_task c g s)" "page_entry (upd_task c g s) = page_entry s"
    using space_frame [OF ok, of "upd_task c g s"] space_okD(5) [OF ok] by (simp_all add: f)
  show "free_addrs (upd_task c g s) = free_addrs s" "pmm_phys_to_virt (upd_task c g s) = pmm_phys_to_virt s" by (simp_all only: f)
  show "page_bytes (upd_task c g s) = page_bytes s" by (simp add: upd_task_def)
qed

section \<open>Frames as byte ranges\<close>

text \<open>The bytes of the frame at \<open>f\<close>, by their address in the direct map.\<close>

definition in_frame :: "'a pmm_scheme \<Rightarrow> u64 \<Rightarrow> u64 \<Rightarrow> bool" where
  "in_frame s f x \<longleftrightarrow> unat (x - pmm_phys_to_virt s f) < 4096"

lemma in_frame_inj:
  assumes "f AND 0xFFF = 0" "g AND 0xFFF = 0" "in_frame s f x" "in_frame s g x"
  shows "f = g"
proof -
  define a b where "a = x - pmm_phys_to_virt s f" and "b = x - pmm_phys_to_virt s g"
  have ab: "unat a < 4096" "unat b < 4096" using assms(3,4) by (simp_all add: in_frame_def a_def b_def)
  have eq: "f + a = g + b" by (simp add: a_def b_def pmm_phys_to_virt_def)
  obtain m n where mn: "unat f = 4096 * m" "unat g = 4096 * n" using assms(1,2) unfolding page_dvd by (elim dvdE)
  have "unat f < 2 ^ 64" "unat g < 2 ^ 64" by (rule order_less_le_trans [OF unsigned_less], simp)+
  then have "m < 4503599627370496" "n < 4503599627370496" unfolding mn by simp_all
  then have b: "unat f + unat a < 2 ^ 64" "unat g + unat b < 2 ^ 64" using ab unfolding mn by simp_all
  have "unat (f + a) = unat f + unat a" "unat (g + b) = unat g + unat b" using b by (simp_all add: unat_word_ariths)
  with eq have "(4096 * m + unat a) div 4096 = (4096 * n + unat b) div 4096" by (simp only: mn)
  with ab have "m = n" by simp
  with mn show ?thesis by (metis word_unat_eq_iff)
qed

lemma poke_zero: "in_frame s f x \<Longrightarrow> poke (pmm_phys_to_virt s f) (replicate 4096 0) m x = 0"
  "\<not> in_frame s f x \<Longrightarrow> poke (pmm_phys_to_virt s f) (replicate 4096 0) m x = m x"
  by (simp_all add: in_frame_def poke_def)

section \<open>Mapping\<close>

text \<open>What mapping the pages \<open>ks\<close> has done: each has a zeroed frame of its own, taken from the free ones.\<close>

definition mapped_fresh ::
  "u64 \<Rightarrow> u64 \<Rightarrow> nat list \<Rightarrow> (nat \<Rightarrow> u64) \<Rightarrow> ('h, 'a) kernel_scheme \<Rightarrow> ('h, 'a) kernel_scheme \<Rightarrow> bool" where
  "mapped_fresh cr3 start ks fr s s' \<longleftrightarrow>
     inj_on fr (set ks) \<and> fr ` set ks \<subseteq> free_addrs s - free_addrs s' \<and> free_addrs s' \<subseteq> free_addrs s \<and>
     (\<forall>k\<in>set ks. page_entry s' cr3 (start + of_nat k * 0x1000) = Some (fr k OR (VMM_PRESENT OR VMM_WRITE OR VMM_USER))) \<and>
     (\<forall>v. (\<forall>k\<in>set ks. \<not> same_page v (start + of_nat k * 0x1000)) \<longrightarrow> page_entry s' cr3 v = page_entry s cr3 v) \<and>
     (\<forall>k\<in>set ks. \<forall>x. in_frame s (fr k) x \<longrightarrow> page_bytes s' x = 0) \<and>
     (\<forall>x. (\<forall>f\<in>free_addrs s. \<not> in_frame s f x) \<longrightarrow> page_bytes s' x = page_bytes s x)"

text \<open>The pages of a range of the user half.\<close>

definition user_pages :: "u64 \<Rightarrow> nat list \<Rightarrow> bool" where
  "user_pages start ks \<longleftrightarrow> distinct ks \<and> start AND 0xFFF = 0 \<and> (\<forall>k\<in>set ks. unat start + k * 4096 < 0x800000000000)"

lemma user_page:
  fixes start :: u64
  assumes "unat start + k * 4096 < 0x800000000000" "start AND 0xFFF = 0"
  shows "unat (start + of_nat k * 0x1000) = unat start + k * 4096" "start + of_nat k * 0x1000 < 0x800000000000"
    "(start + of_nat k * 0x1000) AND 0xFFF = 0"
proof -
  have k: "k * 4096 < 2 ^ 64" using assms(1) by simp
  have m: "unat (of_nat k * 0x1000 :: u64) = k * 4096"
    using k by (simp add: unat_word_ariths unat_of_nat take_bit_nat_eq_self)
  show u: "unat (start + of_nat k * 0x1000) = unat start + k * 4096"
    using assms(1) m by (simp add: unat_word_ariths)
  then show "start + of_nat k * 0x1000 < 0x800000000000" using assms(1) by (simp add: word_less_nat_alt)
  show "(start + of_nat k * 0x1000) AND 0xFFF = 0" using assms(2) unfolding page_dvd u by simp
qed

lemma user_pages_same:
  assumes "user_pages start ks" "k \<in> set ks" "j \<in> set ks" "same_page (start + of_nat k * 0x1000) (start + of_nat j * 0x1000)"
  shows "k = j"
proof -
  have k: "unat start + k * 4096 < 0x800000000000" "unat start + j * 4096 < 0x800000000000" "start AND 0xFFF = 0"
    using assms(1-3) by (auto simp: user_pages_def)
  note K = user_page [OF k(1,3)] and J = user_page [OF k(2,3)]
  have "unat (start + of_nat k * 0x1000) = unat (start + of_nat j * 0x1000)"
    by (rule arg_cong [OF same_page_user [OF K(2) J(2) K(3) J(3) assms(4)]])
  then show ?thesis unfolding K(1) J(1) by simp
qed

lemma flags_user: "(VMM_PRESENT OR VMM_WRITE OR VMM_USER) AND PTE_ADDR_MASK = 0"
  by (simp add: VMM_PRESENT_def VMM_WRITE_def VMM_USER_def PTE_ADDR_MASK_def)

lemma entry_user: "(e OR (VMM_PRESENT OR VMM_WRITE OR VMM_USER)) OR VMM_PRESENT = e OR (VMM_PRESENT OR VMM_WRITE OR VMM_USER)"
  by (rule bit_word_eqI) (auto simp: bit_or_iff)

lemma phys_to_virt_alloc: "pmm_phys_to_virt (snd (pmm_alloc_frame s)) = pmm_phys_to_virt s"
  by (simp add: pmm_phys_to_virt_def fun_eq_iff pmm_frame)

text \<open>One round of the loop.\<close>

lemma mmap_page:
  assumes ok: "space_ok T cr3 s" and k: "unat start + k * 4096 < 0x800000000000" "start AND 0xFFF = 0"
    and a: "pmm_alloc_frame s = (q, s1)" "q \<noteq> 0"
    and m: "vmm_map_page_in cr3 (start + of_nat k * 0x1000) q (VMM_PRESENT OR VMM_WRITE OR VMM_USER)
      (s1\<lparr>page_bytes := poke (pmm_phys_to_virt s1 q) (replicate 4096 0) (page_bytes s1)\<rparr>) = (r, s2)"
  obtains (short) "r = -1" "card (free_addrs s) < 4"
  | (mapped) T' where "r = 0" "space_ok T' cr3 s2" "mapped_fresh cr3 start [k] (\<lambda>_. q) s s2"
      "dom T' \<subseteq> dom T \<union> (free_addrs s - {q})" "T q = None" "q AND 0xFFF = 0" "pt_cell s2 = pt_cell s"
      "card (free_addrs s) \<le> card (free_addrs s2) + 4" "vmm.more s2 = vmm.more (s\<lparr>page_bytes := poke (pmm_phys_to_virt s q) (replicate 4096 0) (page_bytes s)\<rparr>)"
      "pool_addrs s2 = pool_addrs s"
proof -
  note A = space_alloc [OF ok a]
  have s1: "s1 = snd (pmm_alloc_frame s)" by (simp add: a)
  have pv: "pmm_phys_to_virt s1 = pmm_phys_to_virt s" by (simp add: s1 phys_to_virt_alloc)
  have m1: "vmm.more s1 = vmm.more s" by (simp add: s1 frame_simps)
  have pb: "page_bytes s1 = page_bytes s" by (rule kernel_fields_more(3) [OF m1])
  define s1' where "s1' = s1\<lparr>page_bytes := poke (pmm_phys_to_virt s1 q) (replicate 4096 0) (page_bytes s1)\<rparr>"
  have ok1: "space_ok T cr3 s1'" "page_entry s1' = page_entry s" "free_addrs s1' = free_addrs s - {q}"
    using page_bytes_space [OF A(1)] A(2,4) by (simp_all add: s1'_def)
  have m2: "vmm.more s2 = vmm.more s1'" 
    using vmm_ops_more(4) [of cr3 "start + of_nat k * 0x1000" q "VMM_PRESENT OR VMM_WRITE OR VMM_USER" s1'] m [folded s1'_def]
    by simp
  show thesis using ok1(1) user_page(2,3) [OF k] A(6) flags_user m [folded s1'_def]
  proof (cases rule: space_map)
    case short
    then show ?thesis using A(8) ok1(3) A(4) by (intro that(1)) simp_all
  next
    case (mapped T')
    have b: "page_bytes s2 = poke (pmm_phys_to_virt s q) (replicate 4096 0) (page_bytes s)"
      using kernel_fields_more(3) [OF m2] by (simp add: s1'_def pv pb)
    have "q \<notin> free_addrs s2" "free_addrs s2 \<subseteq> free_addrs s" using mapped(6) ok1(3) by auto
    moreover have "page_entry s2 cr3 (start + of_nat k * 0x1000) = Some (q OR (VMM_PRESENT OR VMM_WRITE OR VMM_USER))"
      using mapped(3) A(7) entry_user [of q] by (simp add: or.assoc)
    moreover have "page_entry s2 cr3 v = page_entry s cr3 v" if "\<not> same_page v (start + of_nat k * 0x1000)" for v
      using mapped(4) [OF that] by (simp add: ok1(2))
    ultimately have f: "mapped_fresh cr3 start [k] (\<lambda>_. q) s s2"
      using A(3) by (simp add: mapped_fresh_def b poke_zero)
    have c: "pt_cell s2 = pt_cell s" unfolding mapped(8) by (simp add: s1'_def pt_cell_def fun_eq_iff pv)
    have m: "vmm.more s2 = vmm.more (s\<lparr>page_bytes := poke (pmm_phys_to_virt s q) (replicate 4096 0) (page_bytes s)\<rparr>)"
      unfolding m2 s1'_def pv pb by (rule page_bytes_more [OF m1])
    have n: "card (free_addrs s) \<le> card (free_addrs s2) + 4" using A(8) mapped(7) unfolding ok1(3) A(4) by simp
    have "beyond s2 = beyond s1'" using vmm_ops_beyond(1) [of cr3 "start + of_nat k * 0x1000" q "VMM_PRESENT OR VMM_WRITE OR VMM_USER" s1']
      by (simp add: assms(6) [folded s1'_def])
    then have p: "pool_addrs s2 = pool_addrs s" by (simp add: pool_addrs_def beyond_def s1'_def s1 pmm_frame)
    show ?thesis by (rule that(2) [OF mapped(1,2) f mapped(5) [unfolded ok1(3)] A(5,6) c n m p])
  qed
qed

text \<open>All rounds.\<close>

lemma in_frame_cong: "pmm_phys_to_virt t = pmm_phys_to_virt s \<Longrightarrow> in_frame t = in_frame s"
  by (simp add: in_frame_def fun_eq_iff)

lemma mapped_fresh_Cons:
  assumes 1: "mapped_fresh cr3 start [k] (\<lambda>_. q) s s2" and 2: "mapped_fresh cr3 start ks fr s2 s'"
    and up: "user_pages start (k # ks)" and pv: "pmm_phys_to_virt s2 = pmm_phys_to_virt s"
    and al: "\<And>f. f \<in> free_addrs s \<Longrightarrow> f AND 0xFFF = 0"
  shows "mapped_fresh cr3 start (k # ks) (fr(k := q)) s s'"
proof -
  have k: "k \<notin> set ks" using up by (simp add: user_pages_def)
  have q: "q \<in> free_addrs s" "q \<notin> free_addrs s2" and sub: "free_addrs s' \<subseteq> free_addrs s2" "free_addrs s2 \<subseteq> free_addrs s"
    and fr: "fr ` set ks \<subseteq> free_addrs s2 - free_addrs s'" "inj_on fr (set ks)"
    using 1 2 by (auto simp: mapped_fresh_def)
  have other: "\<not> same_page (start + of_nat k * 0x1000) (start + of_nat j * 0x1000)" if "j \<in> set ks" for j
    using user_pages_same [OF up, of k j] that k by auto
  have zero: "page_bytes s' x = 0" if x: "in_frame s q x" for x
  proof -
    have "\<not> in_frame s2 f x" if "f \<in> free_addrs s2" for f
      using in_frame_inj [OF al al, of f q s x] x that q sub(2) by (auto simp: in_frame_cong [OF pv])
    with 1 2 x show ?thesis by (simp add: mapped_fresh_def)
  qed
  have map: "(\<lambda>j. if j = k then q else fr j) ` set ks = fr ` set ks" using k by (auto intro!: image_cong)
  show ?thesis unfolding mapped_fresh_def
  proof (intro conjI)
    show "inj_on (fr(k := q)) (set (k # ks))" using fr q k by (auto simp: inj_on_def)
    show "(fr(k := q)) ` set (k # ks) \<subseteq> free_addrs s - free_addrs s'" using fr q k sub by (auto simp: image_iff)
    show "free_addrs s' \<subseteq> free_addrs s" using sub by blast
    show "\<forall>j\<in>set (k # ks). page_entry s' cr3 (start + of_nat j * 0x1000) = Some ((fr(k := q)) j OR (VMM_PRESENT OR VMM_WRITE OR VMM_USER))"
      using 1 2 other k by (auto simp: mapped_fresh_def)
    show "\<forall>v. (\<forall>j\<in>set (k # ks). \<not> same_page v (start + of_nat j * 0x1000)) \<longrightarrow> page_entry s' cr3 v = page_entry s cr3 v"
      using 1 2 by (simp add: mapped_fresh_def)
    show "\<forall>j\<in>set (k # ks). \<forall>x. in_frame s ((fr(k := q)) j) x \<longrightarrow> page_bytes s' x = 0"
      using 2 zero k by (auto simp: mapped_fresh_def in_frame_cong [OF pv])
    show "\<forall>x. (\<forall>f\<in>free_addrs s. \<not> in_frame s f x) \<longrightarrow> page_bytes s' x = page_bytes s x"
      using 1 2 sub(2) q(1) by (auto simp: mapped_fresh_def in_frame_cong [OF pv] subset_eq)
  qed
qed

lemma free_addr_page: "pmm_inv s \<Longrightarrow> f \<in> free_addrs s \<Longrightarrow> f AND 0xFFF = 0"
  by (rule addr_low12 [OF free_addr_mask])

lemma mmap_pages_mapped:
  assumes "space_ok T cr3 s" "user_pages start ks" "mmap_pages cr3 start ks s = (None, s')"
  shows "\<exists>T' fr. space_ok T' cr3 s' \<and> mapped_fresh cr3 start ks fr s s' \<and> dom T' \<subseteq> dom T \<union> (free_addrs s - fr ` set ks) \<and>
    pmm_phys_to_virt s' = pmm_phys_to_virt s \<and> g_tasks s' = g_tasks s \<and> cur_task s' = cur_task s \<and> pool_addrs s' = pool_addrs s"
  using assms
proof (induction ks arbitrary: T s)
  case Nil
  then show ?case by (auto simp: mapped_fresh_def)
next
  case (Cons k ks)
  obtain q s1 where a: "pmm_alloc_frame s = (q, s1)" by (cases "pmm_alloc_frame s")
  obtain r s2 where m: "vmm_map_page_in cr3 (start + of_nat k * 0x1000) q (VMM_PRESENT OR VMM_WRITE OR VMM_USER)
      (s1\<lparr>page_bytes := poke (pmm_phys_to_virt s1 q) (replicate 4096 0) (page_bytes s1)\<rparr>) = (r, s2)" by fastforce
  have q: "q \<noteq> 0" "r = 0" "mmap_pages cr3 start ks s2 = (None, s')"
    using Cons.prems(3) by (simp_all add: a m split: if_splits)
  have k: "unat start + k * 4096 < 0x800000000000" "start AND 0xFFF = 0" and up: "user_pages start ks"
    using Cons.prems(2) by (auto simp: user_pages_def)
  show ?case using Cons.prems(1) k a q(1) m
  proof (cases rule: mmap_page)
    case short
    with q(2) show ?thesis by simp
  next
    case (mapped T1)
    from Cons.IH [OF mapped(2) up q(3)] obtain T' fr where
      IH: "space_ok T' cr3 s'" "mapped_fresh cr3 start ks fr s2 s'" "dom T' \<subseteq> dom T1 \<union> (free_addrs s2 - fr ` set ks)"
        "pmm_phys_to_virt s' = pmm_phys_to_virt s2" "g_tasks s' = g_tasks s2" "cur_task s' = cur_task s2" "pool_addrs s' = pool_addrs s2" by blast
    note pv = pt_cell_phys [OF mapped(7)]
    have al: "f AND 0xFFF = 0" if "f \<in> free_addrs s" for f
      using free_addr_page [OF space_okD(5) [OF Cons.prems(1)] that] .
    note M = mapped_fresh_Cons [OF mapped(3) IH(2) Cons.prems(2) pv al]
    have kn: "k \<notin> set ks" using Cons.prems(2) by (simp add: user_pages_def)
    have fr: "fr ` set ks \<subseteq> free_addrs s2" "q \<notin> free_addrs s2" "free_addrs s2 \<subseteq> free_addrs s"
      using IH(2) mapped(3) by (auto simp: mapped_fresh_def)
    have tables: "fr j \<notin> dom T1" if "j \<in> set ks" for j
      using pt_wf_page [OF space_okD(1) [OF mapped(2)]] fr(1) that by (auto simp: image_subset_iff)
    have d: "dom T' \<subseteq> dom T \<union> (free_addrs s - (fr(k := q)) ` set (k # ks))"
    proof
      fix p assume p: "p \<in> dom T'"
      have "p \<noteq> q" using p IH(3) mapped(4,5) fr(2) by auto
      moreover have "p \<notin> fr ` set ks" using p IH(3) tables by auto
      moreover have "p \<in> dom T \<union> free_addrs s" using p IH(3) mapped(4) fr(3) by blast
      ultimately show "p \<in> dom T \<union> (free_addrs s - (fr(k := q)) ` set (k # ks))" using kn by (auto simp: image_iff)
    qed
    have "g_tasks s2 = g_tasks s" "cur_task s2 = cur_task s" using kernel_fields_more(1,2) [OF mapped(9)] by simp_all
    with IH(4-7) pv mapped(10) show ?thesis by (intro exI [of _ T'] exI [of _ "fr(k := q)"] conjI IH(1) M d) simp_all
  qed
qed

lemma mmap_pages_succeeds:
  assumes "space_ok T cr3 s" "user_pages start ks" "4 * length ks \<le> card (free_addrs s)"
  shows "fst (mmap_pages cr3 start ks s) = None"
  using assms
proof (induction ks arbitrary: T s)
  case (Cons k ks)
  obtain q s1 where a: "pmm_alloc_frame s = (q, s1)" by (cases "pmm_alloc_frame s")
  obtain r s2 where m: "vmm_map_page_in cr3 (start + of_nat k * 0x1000) q (VMM_PRESENT OR VMM_WRITE OR VMM_USER)
      (s1\<lparr>page_bytes := poke (pmm_phys_to_virt s1 q) (replicate 4096 0) (page_bytes s1)\<rparr>) = (r, s2)" by fastforce
  have k: "unat start + k * 4096 < 0x800000000000" "start AND 0xFFF = 0" and up: "user_pages start ks"
    using Cons.prems(2) by (auto simp: user_pages_def)
  have q: "q \<noteq> 0" using pmm.alloc_zero_iff [OF space_okD(5) [OF Cons.prems(1)]] Cons.prems(3) by (auto simp: a)
  show ?case using Cons.prems(1) k a q m
  proof (cases rule: mmap_page)
    case short
    with Cons.prems(3) show ?thesis by simp
  next
    case (mapped T1)
    then show ?thesis using Cons.IH [OF mapped(2) up] Cons.prems(3) q by (simp add: a m)
  qed
qed simp

section \<open>Unmapping\<close>

lemma pool_beyond: "beyond t = beyond s \<Longrightarrow> pool_addrs t = pool_addrs s"
  by (simp add: beyond_def pool_addrs_def)

lemma phys_beyond: "beyond t = beyond s \<Longrightarrow> pmm_phys_to_virt t = pmm_phys_to_virt s"
  by (simp add: beyond_def pmm_phys_to_virt_def fun_eq_iff)

lemma entry_frame:
  assumes "f AND PTE_ADDR_MASK = f"
  shows "(f OR (VMM_PRESENT OR VMM_WRITE OR VMM_USER)) AND PTE_ADDR_MASK = f"
  using assms flags_user by (simp add: bit.conj_disj_distrib2)

lemma frame_low_mask:
  fixes f :: u64
  assumes "f AND 0xFFF = 0"
  shows "f AND NOT 0xFFF = f"
proof (rule bit_word_eqI)
  fix n
  have "\<not> (bit f n \<and> bit (0xFFF :: u64) n)" using assms by (metis bit_and_iff bit_0_eq bot_apply bot_bool_def)
  moreover assume "n < LENGTH(64)"
  ultimately show "bit (f AND NOT 0xFFF) n = bit f n" unfolding bit_and_iff bit_not_iff by auto
qed

lemma munmap_page_mapped:
  assumes ok: "space_ok T cr3 s" and v: "page < 0x800000000000" "page AND 0xFFF = 0"
    and e: "page_entry s cr3 page = Some (f OR (VMM_PRESENT OR VMM_WRITE OR VMM_USER))"
    and f: "f \<in> pool_addrs s" "f AND PTE_ADDR_MASK = f" "f \<notin> dom T"
  obtains T' where "space_ok T' cr3 (munmap_page cr3 page s)" "dom T' \<subseteq> dom T"
    "page_entry (munmap_page cr3 page s) cr3 page = None"
    "\<And>v. \<not> same_page v page \<Longrightarrow> page_entry (munmap_page cr3 page s) cr3 v = page_entry s cr3 v"
    "free_addrs (munmap_page cr3 page s) = insert f (free_addrs s)" "beyond (munmap_page cr3 page s) = beyond s"
proof -
  obtain r s1 where t: "vmm_translate_in cr3 page s = (r, s1)" by (cases "vmm_translate_in cr3 page s")
  have b1: "beyond s1 = beyond s" using vmm_ops_beyond(5) [of cr3 page s] by (simp add: t)
  obtain T1 where T1: "space_ok T1 cr3 s1" "\<And>v. page_entry s1 cr3 v = page_entry s cr3 v" "free_addrs s1 = free_addrs s"
    "dom T1 \<subseteq> dom T \<union> free_addrs s"
    and r: "r = (case page_entry s cr3 page of None \<Rightarrow> 0 | Some e \<Rightarrow> (e AND PTE_ADDR_MASK) OR (page AND 0xFFF))"
    using space_translate [OF ok v(1) t] by blast
  have r: "r = f" unfolding r e option.case entry_frame [OF f(2)] v(2) by simp
  define s2 where "s2 = vmm_unmap_page_in cr3 page s1"
  obtain T2 where T2: "space_ok T2 cr3 s2" "page_entry s2 cr3 page = None"
    "\<And>v. \<not> same_page v page \<Longrightarrow> page_entry s2 cr3 v = page_entry s1 cr3 v" "free_addrs s2 = free_addrs s1"
    "dom T2 \<subseteq> dom T1 \<union> free_addrs s1" using space_unmap [OF T1(1) v(1)] unfolding s2_def by blast
  have b2: "beyond s2 = beyond s" using vmm_ops_beyond(3) [of cr3 page s1] b1 by (simp add: s2_def)
  have "p \<notin> free_addrs s" if "p \<in> dom T2" for p
    using pt_wf_page [OF space_okD(1) [OF T2(1)]] that T1(3) T2(4) by auto
  then have dom: "dom T2 \<subseteq> dom T" using T1(3,4) T2(5) by blast
  have f2: "f \<in> pool_addrs s2" using f(1) pool_beyond [OF b2] by simp
  have f0: "f \<noteq> 0" "f AND 0xFFF = 0" using pmm.pool_page [OF space_okD(5) [OF ok] f(1)] by simp_all
  have eq: "munmap_page cr3 page s = pmm_free_frame f s2"
    using f0 frame_low_mask [OF f0(2)] by (simp add: munmap_page_def t r s2_def)
  note inv2 = space_okD(5) [OF T2(1)]
  have fr: "free_addrs (pmm_free_frame f s2) = insert f (free_addrs s2)" by (rule pmm.release_frames [OF inv2 f2])
  have "pt_mem (pmm_free_frame f s2) = pt_mem s2" "g_hhdm_offset (pmm_free_frame f s2) = g_hhdm_offset s2"
    using vmm_fields_more [OF pmm_frame(2) [of f s2]] by (simp_all add: pmm_frame)
  moreover have "p \<notin> free_addrs (pmm_free_frame f s2)" if "p \<in> dom T2" for p
    using that dom f(3) pt_wf_page [OF space_okD(1) [OF T2(1)]] fr by auto
  ultimately have S: "space_ok T2 cr3 (pmm_free_frame f s2)" "page_entry (pmm_free_frame f s2) = page_entry s2"
    using space_frame [OF T2(1), of "pmm_free_frame f s2"] pmm.release_inv [OF inv2 f2] by simp_all
  have b3: "beyond (pmm_free_frame f s2) = beyond s" using pmm_ops_beyond(2) [of f s2] b2 by simp
  show thesis
    by (rule that [of T2]) (use S dom T1 T2 fr b3 in \<open>simp_all add: eq\<close>)
qed

lemma munmap_pages_mapped:
  assumes "space_ok T cr3 s" "user_pages start ks"
    and "\<forall>k\<in>set ks. page_entry s cr3 (start + of_nat k * 0x1000) = Some (fr k OR (VMM_PRESENT OR VMM_WRITE OR VMM_USER)) \<and>
      fr k \<in> pool_addrs s \<and> fr k AND PTE_ADDR_MASK = fr k \<and> fr k \<notin> dom T"
    and "s' = fold (\<lambda>k. munmap_page cr3 (start + of_nat k * 0x1000)) ks s"
  shows "(\<forall>k\<in>set ks. page_entry s' cr3 (start + of_nat k * 0x1000) = None) \<and>
    (\<forall>v. (\<forall>k\<in>set ks. \<not> same_page v (start + of_nat k * 0x1000)) \<longrightarrow> page_entry s' cr3 v = page_entry s cr3 v) \<and>
    free_addrs s' = free_addrs s \<union> fr ` set ks \<and> beyond s' = beyond s"
  using assms
proof (induction ks arbitrary: T s)
  case (Cons k ks)
  have k: "unat start + k * 4096 < 0x800000000000" "start AND 0xFFF = 0" and up: "user_pages start ks"
    using Cons.prems(2) by (auto simp: user_pages_def)
  have kn: "k \<notin> set ks" using Cons.prems(2) by (simp add: user_pages_def)
  have other: "\<not> same_page (start + of_nat j * 0x1000) (start + of_nat k * 0x1000)" if "j \<in> set ks" for j
    using user_pages_same [OF Cons.prems(2), of j k] that kn by auto
  define s1 where "s1 = munmap_page cr3 (start + of_nat k * 0x1000) s"
  obtain T1 where T1: "space_ok T1 cr3 s1" "dom T1 \<subseteq> dom T" "page_entry s1 cr3 (start + of_nat k * 0x1000) = None"
    "\<And>v. \<not> same_page v (start + of_nat k * 0x1000) \<Longrightarrow> page_entry s1 cr3 v = page_entry s cr3 v"
    "free_addrs s1 = insert (fr k) (free_addrs s)" "beyond s1 = beyond s"
    using munmap_page_mapped [OF Cons.prems(1) user_page(2,3) [OF k], of "fr k"] Cons.prems(3) unfolding s1_def by auto
  have e: "\<forall>j\<in>set ks. page_entry s1 cr3 (start + of_nat j * 0x1000) = Some (fr j OR (VMM_PRESENT OR VMM_WRITE OR VMM_USER)) \<and>
      fr j \<in> pool_addrs s1 \<and> fr j AND PTE_ADDR_MASK = fr j \<and> fr j \<notin> dom T1"
    using Cons.prems(3) T1(4) other pool_beyond [OF T1(6)] subsetD [OF T1(2)] by simp blast
  have s': "s' = fold (\<lambda>k. munmap_page cr3 (start + of_nat k * 0x1000)) ks s1" using Cons.prems(4) by (simp add: s1_def)
  note IH = Cons.IH [OF T1(1) up e s']
  have "page_entry s' cr3 (start + of_nat k * 0x1000) = None"
  proof -
    have "\<forall>j\<in>set ks. \<not> same_page (start + of_nat k * 0x1000) (start + of_nat j * 0x1000)"
      using user_pages_same [OF Cons.prems(2), of k] kn by auto
    with IH T1(3) show ?thesis by simp
  qed
  with IH T1 show ?case by simp
qed simp

section \<open>The calls\<close>

lemma page_round_pages: "unat (page_round n) = 4096 * (unat (page_round n) div 4096)"
proof -
  have "page_round n AND 0xFFF = 0" by (simp add: page_round_def and.assoc)
  then show ?thesis unfolding page_dvd by simp
qed

lemma range_pages:
  assumes "range_ok start (page_round n)" "start AND 0xFFF = 0"
  shows "user_pages start [0..<unat (page_round n) div 4096]"
proof -
  let ?n = "page_round n"
  have ge: "start \<le> start + ?n" and le: "start + ?n \<le> USER_HALF_MAX" using assms(1) by (auto simp: range_ok_def)
  have "unat (start + ?n) = unat start + unat ?n" using ge by (rule unat_plus_simple [THEN iffD1])
  then have b: "unat start + unat ?n \<le> 0x7fffffffffff" using le by (simp add: word_le_nat_alt USER_HALF_MAX_def)
  have "unat start + k * 4096 < 0x800000000000" if "k < unat ?n div 4096" for k
  proof -
    have "k * 4096 \<le> unat ?n" using that by linarith
    with b show ?thesis by linarith
  qed
  with assms(2) show ?thesis by (simp add: user_pages_def)
qed

text \<open>C38: An anonymous mapping of a valid range, with four frames free per page (one for the page and up to three for page
  tables), succeeds: each page of the range gets a frame of its own that was free before, mapped for user access and
  full of zeros; no other page of the space and no byte of a frame in use changes, and the cursor moves behind the
  range. Unmapping the range afterwards unmaps every page and gives every one of these frames back.\<close>

theorem mmap_fresh_zeroed:
  assumes ok: "space_ok T (t_cr3 (g_tasks s c)) s" and cur: "cur_task s = Some c"
    and args: "0 < sint len" "flags AND MAP_ANONYMOUS \<noteq> 0"
    and start: "start = (if addr = 0 then t_mmap_cur (g_tasks s c) else addr)" "start AND 0xFFF = 0"
    and range: "range_ok start (page_round len)" and n: "n = unat (page_round len) div 4096"
    and frames: "4 * n \<le> card (free_addrs s)"
    and m: "sys_mmap addr len flags s = (r, s')" and u: "sys_munmap start len s' = (r2, s'')"
  shows "r = uint start \<and> t_mmap_cur (g_tasks s' c) = start + page_round len \<and>
    (\<exists>fr. mapped_fresh (t_cr3 (g_tasks s c)) start [0..<n] fr s s' \<and> r2 = 0 \<and>
       (\<forall>k<n. page_entry s'' (t_cr3 (g_tasks s c)) (start + of_nat k * 0x1000) = None) \<and>
       free_addrs s'' = free_addrs s' \<union> fr ` {..<n})"
proof -
  let ?cr3 = "t_cr3 (g_tasks s c)"
  have up: "user_pages start [0..<n]" unfolding n by (rule range_pages [OF range start(2)])
  obtain s1 where p: "mmap_pages ?cr3 start [0..<n] s = (None, s1)"
    using mmap_pages_succeeds [OF ok up] frames by (cases "mmap_pages ?cr3 start [0..<n] s") simp
  have sc: "sched_current s = Some (g_tasks s c)" by (simp add: sched_current_def cur)
  have rs: "r = uint start" "s' = upd_task c (t_mmap_cur_update (\<lambda>_. start + page_round len)) s1"
    using m args start range p by (simp_all add: sys_mmap_def cur sc n [symmetric] Let_def)
  obtain T1 fr where M: "space_ok T1 ?cr3 s1" "mapped_fresh ?cr3 start [0..<n] fr s s1"
      "dom T1 \<subseteq> dom T \<union> (free_addrs s - fr ` set [0..<n])" "g_tasks s1 = g_tasks s" "cur_task s1 = cur_task s" "pool_addrs s1 = pool_addrs s"
    using mmap_pages_mapped [OF ok up p] by blast
  note U = upd_task_space [OF M(1), of c "t_mmap_cur_update (\<lambda>_. start + page_round len)", folded rs(2)]
  have M': "mapped_fresh ?cr3 start [0..<n] fr s s'" using M(2) U by (simp add: mapped_fresh_def)
  have t: "g_tasks s' c = (g_tasks s c)\<lparr>t_mmap_cur := start + page_round len\<rparr>" "cur_task s' = Some c"
    by (simp_all add: rs(2) upd_task_def M(4,5) cur)
  have fr: "fr k \<in> free_addrs s" if "k < n" for k using M(2) that unfolding mapped_fresh_def by (simp add: image_subset_iff)
  have inv: "pmm_inv s" by (rule space_okD(5) [OF ok])
  have pool: "pool_addrs s' = pool_addrs s" using M(6) by (simp add: rs(2) pool_addrs_def upd_task_def)
  have free: "fr k \<notin> dom T1" if "k < n" for k
    using M(3) fr [OF that] pt_wf_page [OF space_okD(1) [OF ok]] that by fastforce
  have e: "\<forall>k\<in>set [0..<n]. page_entry s' ?cr3 (start + of_nat k * 0x1000) = Some (fr k OR (VMM_PRESENT OR VMM_WRITE OR VMM_USER)) \<and>
      fr k \<in> pool_addrs s' \<and> fr k AND PTE_ADDR_MASK = fr k \<and> fr k \<notin> dom T1"
    using M' fr free pmm.frames_pool [OF inv] free_addr_mask [OF inv] by (auto simp: pool mapped_fresh_def)
  have u': "r2 = 0" "s'' = fold (\<lambda>k. munmap_page ?cr3 (start + of_nat k * 0x1000)) [0..<n] s'"
    using u args(1) start(2) range t by (simp_all add: sys_munmap_def sched_current_def n [symmetric] Let_def)
  from munmap_pages_mapped [OF U(1) up e u'(2)] M' rs(1) u'(1) t(1) show ?thesis
    by (intro conjI exI [of _ fr]) (simp_all add: atLeast0LessThan)
qed

text \<open>A task with empty page tables in six free frames.\<close>

definition mmap_example :: "unit kernel" where
  "mmap_example = (kernel_boot () [] vfs_example)\<lparr>g_tasks := \<lambda>_. zero_task\<lparr>t_cr3 := 0x100000, t_mmap_cur := 0x40000000\<rparr>\<rparr>"

lemma mmap_example_state:
  "pt_mem mmap_example = (\<lambda>_. 0)" "cur_task mmap_example = Some 0" "pmm_inv mmap_example"
  "card (free_addrs mmap_example) = 6" "0x100000 \<notin> free_addrs mmap_example"
  "t_cr3 (g_tasks mmap_example 0) = 0x100000" "t_mmap_cur (g_tasks mmap_example 0) = 0x40000000"
proof -
  have same: "free_addrs mmap_example = free_addrs vfs_example" "pmm_inv mmap_example = pmm_inv vfs_example"
    "pt_mem mmap_example = pt_mem vfs_example" "cur_task mmap_example = cur_task vfs_example"
    by (simp_all add: mmap_example_def kernel_boot_simps free_addrs_def free_set_def frame_is_free_def pmm_inv_def)
  show "pt_mem mmap_example = (\<lambda>_. 0)" unfolding same by (simp add: vfs_example_def vmm_fields_more [OF pmm_init_more])
  show "cur_task mmap_example = Some 0" unfolding same by (simp add: vfs_example_state)
  show "pmm_inv mmap_example" unfolding same by (simp add: vfs_example_def small_region_init)
  have free: "free_addrs mmap_example = free_addrs vmm_example"
    unfolding same by (simp add: vfs_example_def vmm_example_def free_addrs_def small_region_init)
  show "card (free_addrs mmap_example) = 6" "0x100000 \<notin> free_addrs mmap_example"
    unfolding free by (rule vmm_example_state)+
  show "t_cr3 (g_tasks mmap_example 0) = 0x100000" "t_mmap_cur (g_tasks mmap_example 0) = 0x40000000"
    by (simp_all add: mmap_example_def)
qed

lemma mmap_example_space: "space_ok [0x100000 \<mapsto> 4] 0x100000 mmap_example"
  by (auto simp: space_ok_def pt_wf_def unshared_def links_to_def mmap_example_state PTE_ADDR_MASK_def Let_def split: if_splits)

theorem mmap_fresh_zeroed_witness:
  "\<exists>s' fr. sys_mmap 0 100 0x22 mmap_example = (0x40000000, s') \<and> mapped_fresh 0x100000 0x40000000 [0..<1] fr mmap_example s'"
proof -
  obtain r s' where m: "sys_mmap 0 100 0x22 mmap_example = (r, s')" by (cases "sys_mmap 0 100 0x22 mmap_example")
  obtain r2 s'' where u: "sys_munmap 0x40000000 100 s' = (r2, s'')" by (cases "sys_munmap 0x40000000 100 s'")
  have "page_round 100 = 4096" by (simp add: page_round_def)
  then show ?thesis
    using mmap_fresh_zeroed [where T = "[0x100000 \<mapsto> 4]" and c = 0 and start = "0x40000000" and n = 1, OF _ _ _ _ _ _ _ _ _ m u]
      mmap_example_space mmap_example_state m by (auto simp: range_ok_def USER_HALF_MAX_def)
qed

end
