(* ===== verification/Spec2Isabelle.thy ===== *)
theory Spec2Isabelle
  imports Klib Keyboard Fb_Console Console Rootfs Devices User_Stack Sched_Run Vfs_Pipe Vfs_Fd Vfs_Data Syscall_Abi Mmap
begin

end
